(* ===== verification/Prelude.thy ===== *)
theory Prelude
  imports Main "HOL-Library.Char_ord" "HOL-Library.List_Lexorder" "HOL-Library.Multiset"
begin

text \<open>
  Shared ground of the development: the error values of the Go code, decimal text, the string
  functions of Go's \<open>strings\<close> package the program calls, and the generic list lemmas that the
  component theories use.  A Go string is its list of bytes (\<open>string\<close>); the order of
  \<^term>\<open>(<) :: string \<Rightarrow> string \<Rightarrow> bool\<close> is the bytewise order that Go's \<open><\<close>, and SQLite's default
  \<open>BINARY\<close> collation, use.
\<close>

section \<open>Proof collections\<close>

named_theorems text_simps \<open>facts about decimal and fixed-width text\<close>
named_theorems sql_simps \<open>what a SQL statement of the store does to each table\<close>
named_theorems db_intros \<open>preservation of the database invariant by each statement\<close>

section \<open>Errors\<close>

text \<open>
  One constructor per way the code builds an error: \<open>errors.New\<close>/\<open>fmt.Errorf\<close> with its format and
  its string arguments, \<open>fmt.Errorf\<close> with \<open>%w\<close>, \<open>errors.Join\<close>, the sentinel values of
  \<open>database/sql\<close>, a failure reported by an engine or service outside the repository, and a runtime
  panic.
\<close>

datatype error =
    Errorf string "string list"
  | Wrap string error
  | Joined error error
  | ErrNoRows
  | External string
  | Panic string

type_synonym 'a result = "error + 'a"

section \<open>Decimal text\<close>

definition digit_char :: "int \<Rightarrow> char" where
  "digit_char d = char_of (48 + d)"

definition is_digit :: "char \<Rightarrow> bool" where
  "is_digit c \<longleftrightarrow> 48 \<le> (of_char c :: int) \<and> (of_char c :: int) \<le> 57"

definition digit_val :: "char \<Rightarrow> int" where
  "digit_val c = of_char c - 48"

text \<open>\<open>pad k n\<close> is the last \<open>k\<close> decimal digits of \<open>n\<close>; \<open>dec n\<close> is \<open>strconv.Itoa\<close> on \<open>n \<ge> 0\<close>.\<close>

fun pad :: "nat \<Rightarrow> int \<Rightarrow> string" where
  "pad 0 n = []"
| "pad (Suc k) n = pad k (n div 10) @ [digit_char (n mod 10)]"

function dec :: "int \<Rightarrow> string" where
  "dec n = (if n < 10 then [digit_char n] else dec (n div 10) @ [digit_char (n mod 10)])"
  by pat_completeness auto
termination
  by (relation "measure nat") auto

declare dec.simps [simp del]

text \<open>The value of a digit string, as \<open>strconv.Atoi\<close> accumulates it.\<close>

definition digits_val :: "string \<Rightarrow> int" where
  "digits_val s = foldl (\<lambda>a c. 10 * a + digit_val c) 0 s"

lemma of_char_digit_char: "0 \<le> d \<Longrightarrow> d < 10 \<Longrightarrow> of_char (digit_char d) = 48 + d"
  by (simp add: digit_char_def of_char_of)

lemma is_digit_digit_char [simp, text_simps]: "0 \<le> d \<Longrightarrow> d < 10 \<Longrightarrow> is_digit (digit_char d)"
  by (simp add: is_digit_def of_char_digit_char)

lemma digit_val_digit_char [simp, text_simps]:
  "0 \<le> d \<Longrightarrow> d < 10 \<Longrightarrow> digit_val (digit_char d) = d"
  by (simp add: digit_val_def of_char_digit_char)

lemma digit_char_0 [simp]: "digit_char 0 = CHR ''0''"
  by code_simp

lemma less_char_int: "c < d \<longleftrightarrow> (of_char c :: int) < of_char d"
proof -
  have "(of_char c :: int) = int (of_char c)" "(of_char d :: int) = int (of_char d)"
    by (simp_all add: of_nat_of_char)
  then show ?thesis by (simp add: less_char_def)
qed

lemma digit_char_less [simp, text_simps]:
  "0 \<le> a \<Longrightarrow> a < 10 \<Longrightarrow> 0 \<le> b \<Longrightarrow> b < 10 \<Longrightarrow> digit_char a < digit_char b \<longleftrightarrow> a < b"
  by (simp add: less_char_int of_char_digit_char)

lemma digit_char_eq [simp, text_simps]:
  "0 \<le> a \<Longrightarrow> a < 10 \<Longrightarrow> 0 \<le> b \<Longrightarrow> b < 10 \<Longrightarrow> digit_char a = digit_char b \<longleftrightarrow> a = b"
  by (metis digit_val_digit_char)

lemma length_pad [simp, text_simps]: "length (pad k n) = k"
  by (induction k arbitrary: n) simp_all

lemma pad_digits [text_simps]: "c \<in> set (pad k n) \<Longrightarrow> is_digit c"
  by (induction k arbitrary: n) auto

lemma digits_val_snoc [simp]: "digits_val (s @ [c]) = 10 * digits_val s + digit_val c"
  by (simp add: digits_val_def)

lemma digits_val_Nil [simp]: "digits_val [] = 0"
  by (simp add: digits_val_def)

lemma digits_val_pad: "digits_val (pad k n) = n mod 10 ^ k"
proof (induction k arbitrary: n)
  case (Suc k)
  have "n mod (10 * 10 ^ k) = 10 * (n div 10 mod 10 ^ k) + n mod 10"
    by (simp add: zmod_zmult2_eq)
  then show ?case by (simp add: Suc.IH)
qed simp

lemma digits_val_dec [simp, text_simps]: "0 \<le> n \<Longrightarrow> digits_val (dec n) = n"
proof (induction n rule: dec.induct)
  case (1 n)
  show ?case
  proof (cases "n < 10")
    case True
    with 1 show ?thesis by (subst dec.simps) (simp add: digits_val_def)
  next
    case False
    with 1 show ?thesis by (subst dec.simps) (simp add: pos_imp_zdiv_nonneg_iff)
  qed
qed

lemma dec_digits: "0 \<le> n \<Longrightarrow> c \<in> set (dec n) \<Longrightarrow> is_digit c"
proof (induction n rule: dec.induct)
  case (1 n)
  then show ?case
    by (cases "n < 10") (auto simp: dec.simps [of n] pos_imp_zdiv_nonneg_iff)
qed

lemma dec_nonempty [simp]: "dec n \<noteq> []"
  by (subst dec.simps) simp

section \<open>Integer division\<close>

lemma int_div_less_iff: "0 < k \<Longrightarrow> x div k < q \<longleftrightarrow> x < q * k" for x k q :: int
proof
  assume k: "0 < k" and "x div k < q"
  then have "x div k + 1 \<le> q" by simp
  then have "(x div k + 1) * k \<le> q * k" using k by (simp add: mult_right_mono)
  moreover have "x mod k < k" using k by simp
  then have "x div k * k + x mod k < x div k * k + k" by (rule add_strict_left_mono)
  then have "x < (x div k + 1) * k" by (simp add: distrib_right)
  ultimately show "x < q * k" by simp
next
  assume k: "0 < k" and "x < q * k"
  have "x div k * k \<le> x" using k pos_mod_sign [of k x] div_mult_mod_eq [of x k] by linarith
  then have "x div k * k < q * k" using \<open>x < q * k\<close> by (rule le_less_trans)
  with k show "x div k < q" by (simp only: mult_less_cancel_right_pos)
qed

lemma int_le_div_iff: "0 < k \<Longrightarrow> q \<le> x div k \<longleftrightarrow> q * k \<le> x" for x k q :: int
  using int_div_less_iff [of k x q] by (simp add: linorder_not_less [symmetric])

section \<open>Order on strings of equal length\<close>

lemma less_append_eq_length:
  fixes a b x y :: "'a::linorder list"
  assumes "length a = length b"
  shows "a @ x < b @ y \<longleftrightarrow> a < b \<or> (a = b \<and> x < y)"
  using assms by (induction a b rule: list_induct2) auto

lemma pad_inject:
  assumes "0 \<le> m" "m < 10 ^ k" and "0 \<le> n" "n < 10 ^ k"
  shows "pad k m = pad k n \<longleftrightarrow> m = n"
proof
  assume "pad k m = pad k n"
  then have "m mod 10 ^ k = n mod 10 ^ k"
    using digits_val_pad [of k m] digits_val_pad [of k n] by simp
  with assms show "m = n" by simp
qed simp

lemma less_by_digit:
  fixes a b c d :: int
  assumes "0 \<le> b" "b < 10" "0 \<le> d" "d < 10"
  shows "10 * a + b < 10 * c + d \<longleftrightarrow> a < c \<or> a = c \<and> b < d"
  using assms by arith

lemma pad_less:
  assumes "0 \<le> m" "m < 10 ^ k" and "0 \<le> n" "n < 10 ^ k"
  shows "pad k m < pad k n \<longleftrightarrow> m < n"
  using assms
proof (induction k arbitrary: m n)
  case (Suc k)
  have bounds: "0 \<le> m div 10" "m div 10 < 10 ^ k" "0 \<le> n div 10" "n div 10 < 10 ^ k"
    using Suc.prems by (simp_all add: pos_imp_zdiv_nonneg_iff int_div_less_iff)
  have "m < n \<longleftrightarrow> m div 10 < n div 10 \<or> m div 10 = n div 10 \<and> m mod 10 < n mod 10"
    using less_by_digit [of "m mod 10" "n mod 10" "m div 10" "n div 10"] by simp
  then show ?case
    by (simp add: less_append_eq_length Suc.IH [OF bounds] pad_inject [OF bounds])
qed simp

lemma pad_append_less:
  assumes "0 \<le> m" "m < 10 ^ k" and "0 \<le> n" "n < 10 ^ k"
  shows "pad k m @ s < pad k n @ t \<longleftrightarrow> m < n \<or> m = n \<and> s < t"
  by (simp add: less_append_eq_length pad_less [OF assms] pad_inject [OF assms])

section \<open>Go's strings package\<close>

text \<open>
  The UTF-8 encodings of the characters \<open>unicode.IsSpace\<close> accepts, which \<open>strings.TrimSpace\<close>
  strips from both ends.
\<close>

definition space_seqs :: "string list" where
  "space_seqs =
     [[CHR 0x09], [CHR 0x0A], [CHR 0x0B], [CHR 0x0C], [CHR 0x0D], [CHR 0x20], [CHR 0xC2, CHR
      0x85], [CHR 0xC2, CHR 0xA0], [CHR 0xE1, CHR 0x9A, CHR 0x80], [CHR 0xE2, CHR 0x80, CHR 0x80],
      [CHR 0xE2, CHR 0x80, CHR 0x81], [CHR 0xE2, CHR 0x80, CHR 0x82], [CHR 0xE2, CHR 0x80, CHR
      0x83], [CHR 0xE2, CHR 0x80, CHR 0x84], [CHR 0xE2, CHR 0x80, CHR 0x85], [CHR 0xE2, CHR 0x80,
      CHR 0x86], [CHR 0xE2, CHR 0x80, CHR 0x87], [CHR 0xE2, CHR 0x80, CHR 0x88], [CHR 0xE2, CHR
      0x80, CHR 0x89], [CHR 0xE2, CHR 0x80, CHR 0x8A], [CHR 0xE2, CHR 0x80, CHR 0xA8], [CHR 0xE2,
      CHR 0x80, CHR 0xA9], [CHR 0xE2, CHR 0x80, CHR 0xAF], [CHR 0xE2, CHR 0x81, CHR 0x9F], [CHR
      0xE3, CHR 0x80, CHR 0x80]]"

definition has_prefix :: "string \<Rightarrow> string \<Rightarrow> bool" where
  "has_prefix s p \<longleftrightarrow> take (length p) s = p"

text \<open>Strip sequences of a fixed set from the front; a sequence is never empty.\<close>

function strip_seqs :: "string list \<Rightarrow> string \<Rightarrow> string" where
  "strip_seqs seqs s =
     (case find (\<lambda>q. q \<noteq> [] \<and> has_prefix s q) seqs of
        None \<Rightarrow> s
      | Some q \<Rightarrow> strip_seqs seqs (drop (length q) s))"
  by pat_completeness auto
termination
proof (relation "measure (\<lambda>(seqs, s). length s)")
  fix seqs :: "string list" and s q :: string
  assume "find (\<lambda>q. q \<noteq> [] \<and> has_prefix s q) seqs = Some q"
  then have "q \<noteq> []" and "take (length q) s = q"
    by (auto simp: find_Some_iff has_prefix_def)
  then have "0 < length q" and "s \<noteq> []" by auto
  then show "((seqs, drop (length q) s), seqs, s) \<in> measure (\<lambda>(seqs, s). length s)" by simp
qed simp

declare strip_seqs.simps [simp del]

definition TrimSpace :: "string \<Rightarrow> string" where
  "TrimSpace s = rev (strip_seqs (map rev space_seqs) (rev (strip_seqs space_seqs s)))"

text \<open>A byte that no whitespace sequence contains stops the trimming from both sides.\<close>

lemma strip_seqs_stop:
  assumes "\<forall>q\<in>set Q. c \<notin> set q"
  shows "\<exists>ys. strip_seqs Q (xs @ [c]) = ys @ [c]"
proof (induction xs rule: length_induct)
  case (1 xs)
  show ?case
  proof (cases "find (\<lambda>q. q \<noteq> [] \<and> has_prefix (xs @ [c]) q) Q")
    case None
    then show ?thesis by (subst strip_seqs.simps) simp
  next
    case (Some q)
    then have q: "q \<in> set Q" "q \<noteq> []" "take (length q) (xs @ [c]) = q"
      by (auto simp: find_Some_iff has_prefix_def)
    have "length q \<le> length xs"
    proof (rule ccontr)
      assume "\<not> length q \<le> length xs"
      then have "c \<in> set (take (length q) (xs @ [c]))" by (simp add: take_Cons')
      then show False using q(1) assms unfolding q(3) by blast
    qed
    moreover have "0 < length q" using q(2) by simp
    ultimately have "length (drop (length q) xs) < length xs" unfolding length_drop by linarith
    moreover have "drop (length q) (xs @ [c]) = drop (length q) xs @ [c]" using \<open>length q \<le> length xs\<close> by simp
    ultimately show ?thesis using 1 Some by (subst strip_seqs.simps) simp
  qed
qed

lemma strip_seqs_start: "\<forall>q\<in>set Q. c \<notin> set q \<Longrightarrow> strip_seqs Q (c # xs) = c # xs"
proof -
  assume "\<forall>q\<in>set Q. c \<notin> set q"
  then have "find (\<lambda>q. q \<noteq> [] \<and> has_prefix (c # xs) q) Q = None"
    by (auto simp: find_None_iff has_prefix_def take_Cons split: nat.splits)
  then show ?thesis by (subst strip_seqs.simps) simp
qed

lemma TrimSpace_brace: "TrimSpace (CHR ''{'' # s) \<noteq> []"
proof -
  have "\<forall>q\<in>set space_seqs. CHR ''{'' \<notin> set q" "\<forall>q\<in>set (map rev space_seqs). CHR ''{'' \<notin> set q"
    by (simp_all add: space_seqs_def)
  then show ?thesis
    using strip_seqs_stop [of "map rev space_seqs" "CHR ''{''" "rev s"]
    by (auto simp: TrimSpace_def strip_seqs_start)
qed

text \<open>\<open>strings.Cut\<close> at one byte: the text before and after its first occurrence.\<close>

fun Cut :: "string \<Rightarrow> char \<Rightarrow> (string \<times> string) option" where
  "Cut [] c = None"
| "Cut (x # xs) c = (if x = c then Some ([], xs) else map_option (\<lambda>(a, b). (x # a, b)) (Cut xs c))"

lemma Cut_SomeD: "Cut s c = Some (a, b) \<Longrightarrow> s = a @ c # b \<and> c \<notin> set a"
  by (induction s c arbitrary: a rule: Cut.induct) (auto split: if_splits)

lemma Cut_append: "c \<notin> set a \<Longrightarrow> Cut (a @ c # b) c = Some (a, b)"
  by (induction a) auto

text \<open>Cut at the last occurrence, for \<open>strings.LastIndexByte\<close>.\<close>

definition CutLast :: "string \<Rightarrow> char \<Rightarrow> (string \<times> string) option" where
  "CutLast s c = map_option (\<lambda>(a, b). (rev b, rev a)) (Cut (rev s) c)"

lemma CutLast_append: "c \<notin> set b \<Longrightarrow> CutLast (a @ c # b) c = Some (a, b)"
  by (simp add: CutLast_def Cut_append)

lemma CutLast_SomeD: "CutLast s c = Some (a, b) \<Longrightarrow> s = a @ c # b \<and> c \<notin> set b"
  by (auto simp: CutLast_def dest!: Cut_SomeD) (metis append.assoc append_Cons append_Nil rev.simps(2) rev_append rev_rev_ident)

text \<open>\<open>strings.Join\<close>.\<close>

fun join :: "string \<Rightarrow> string list \<Rightarrow> string" where
  "join sep [] = []"
| "join sep [x] = x"
| "join sep (x # y # xs) = x @ sep @ join sep (y # xs)"

lemma set_join: "set (join sep xs) \<subseteq> set sep \<union> \<Union> (set (map set xs))"
  by (induction sep xs rule: join.induct) auto

lemma Cut_None: "c \<notin> set s \<Longrightarrow> Cut s c = None"
  by (induction s) auto

section \<open>Go maps\<close>

text \<open>
  A Go map with string keys is an association list in increasing order of its keys; insertion
  replaces the value of a key that is present.  Iteration order in Go is unspecified, so no
  definition depends on the order of the list.
\<close>

fun map_put :: "'k::linorder \<Rightarrow> 'v \<Rightarrow> ('k \<times> 'v) list \<Rightarrow> ('k \<times> 'v) list" where
  "map_put k v [] = [(k, v)]"
| "map_put k v ((k', v') # m) =
     (if k < k' then (k, v) # (k', v') # m
      else if k = k' then (k, v) # m
      else (k', v') # map_put k v m)"

definition map_ok :: "('k::linorder \<times> 'v) list \<Rightarrow> bool" where
  "map_ok m \<longleftrightarrow> sorted_wrt (<) (map fst m)"

lemma map_of_map_put [simp]: "map_ok m \<Longrightarrow> map_of (map_put k v m) = (map_of m)(k \<mapsto> v)"
  by (induction k v m rule: map_put.induct) (auto simp: map_ok_def fun_eq_iff)

lemma set_map_put: "fst ` set (map_put k v m) = insert k (fst ` set m)"
  by (induction k v m rule: map_put.induct) auto

lemma map_ok_map_put: "map_ok m \<Longrightarrow> map_ok (map_put k v m)"
proof (induction k v m rule: map_put.induct)
  case (2 k v k' v' m)
  have "set (map fst (map_put k v m)) = insert k (set (map fst m))"
    using set_map_put [of k v m] by simp
  with 2 show ?case by (auto simp: map_ok_def)
qed (simp add: map_ok_def)

lemma map_put_snoc: "\<forall>k'\<in>fst ` set m. k' < k \<Longrightarrow> map_put k v m = m @ [(k, v)]"
  by (induction m) auto

section \<open>Lists\<close>

lemma distinct_map_filter: "distinct (map f xs) \<Longrightarrow> distinct (map f (filter P xs))"
  by (induction xs) auto

lemma filter_append_Cons_False: "\<not> P x \<Longrightarrow> filter P (xs @ [x]) = filter P xs"
  by simp

end
