(* ===== verification/NetIP.thy ===== *)
theory NetIP
  imports Prelude "HOL-Library.Word"
begin

unbundle bit_operations_syntax

text \<open>
  The part of Go's \<open>net/netip\<close> the program relies on: addresses, prefixes, their text forms and
  their parsers.  \<open>src/approval/scope.go\<close> parses, masks, prints and matches prefixes;
  \<open>src/ratelimit/ratelimit.go\<close> masks a source address to its /64 (\<open>net.ParseIP\<close> is
  \<open>netip.ParseAddr\<close> without zones).
\<close>

section \<open>Addresses and prefixes\<close>

text \<open>The zero \<open>netip.Addr\<close>, an IPv4 address, and an IPv6 address with its zone (empty for none).\<close>

datatype addr = InvalidAddr | Addr4 "32 word" | Addr6 "128 word" string

datatype prefix = Prefix (prefix_addr: addr) (prefix_bits: nat)

definition Is4In6 :: "addr \<Rightarrow> bool" where
  "Is4In6 a = (case a of Addr6 w z \<Rightarrow> drop_bit 32 w = 0xFFFF | _ \<Rightarrow> False)"

definition Unmap :: "addr \<Rightarrow> addr" where
  "Unmap a = (case a of Addr6 w z \<Rightarrow> if Is4In6 a then Addr4 (ucast w) else a | _ \<Rightarrow> a)"

definition Zone :: "addr \<Rightarrow> string" where
  "Zone a = (case a of Addr6 w z \<Rightarrow> z | _ \<Rightarrow> [])"

definition clear_low :: "nat \<Rightarrow> 'a::len word \<Rightarrow> 'a word" where
  "clear_low n w = push_bit n (drop_bit n w)"

definition Masked :: "prefix \<Rightarrow> prefix" where
  "Masked p =
     (case p of
        Prefix (Addr4 w) b \<Rightarrow> Prefix (Addr4 (clear_low (32 - b) w)) b
      | Prefix (Addr6 w z) b \<Rightarrow> Prefix (Addr6 (clear_low (128 - b) w) []) b
      | _ \<Rightarrow> p)"

definition Contains :: "prefix \<Rightarrow> addr \<Rightarrow> bool" where
  "Contains p a =
     (case (p, a) of
        (Prefix (Addr4 w) b, Addr4 v) \<Rightarrow> drop_bit (32 - b) (v XOR w) = 0
      | (Prefix (Addr6 w _) b, Addr6 v z) \<Rightarrow> z = [] \<and> drop_bit (128 - b) (v XOR w) = 0
      | _ \<Rightarrow> False)"

section \<open>Printing\<close>

definition octets :: "32 word \<Rightarrow> int list" where
  "octets w = map (\<lambda>i. uint w div 256 ^ (3 - i) mod 256) [0, 1, 2, 3]"

definition hextets :: "128 word \<Rightarrow> int list" where
  "hextets w = map (\<lambda>i. uint w div 65536 ^ (7 - i) mod 65536) [0, 1, 2, 3, 4, 5, 6, 7]"

definition hex_char :: "int \<Rightarrow> char" where
  "hex_char d = (if d < 10 then char_of (48 + d) else char_of (87 + d))"

function hex :: "int \<Rightarrow> string" where
  "hex n = (if n < 16 then [hex_char n] else hex (n div 16) @ [hex_char (n mod 16)])"
  by pat_completeness auto
termination
  by (relation "measure nat") auto

declare hex.simps [simp del]

definition string4 :: "32 word \<Rightarrow> string" where
  "string4 w = join ''.'' (map dec (octets w))"

text \<open>The first longest run of at least two zero fields, as a start and an end index.\<close>

definition zero_run :: "int list \<Rightarrow> nat \<Rightarrow> nat" where
  "zero_run hs i = length (takeWhile (\<lambda>h. h = 0) (drop i hs))"

definition longest_run :: "int list \<Rightarrow> (nat \<times> nat) option" where
  "longest_run hs =
     foldl (\<lambda>best i. let l = zero_run hs i
                     in if 2 \<le> l \<and> (case best of None \<Rightarrow> True | Some (a, b) \<Rightarrow> b - a < l)
                        then Some (i, i + l) else best)
       None [0..<8]"

definition string6 :: "128 word \<Rightarrow> string" where
  "string6 w =
     (let hs = hextets w
      in case longest_run hs of
           None \<Rightarrow> join '':'' (map hex hs)
         | Some (a, b) \<Rightarrow> join '':'' (map hex (take a hs)) @ ''::'' @ join '':'' (map hex (drop b hs)))"

definition Addr_String :: "addr \<Rightarrow> string" where
  "Addr_String a =
     (case a of
        InvalidAddr \<Rightarrow> ''invalid IP''
      | Addr4 w \<Rightarrow> string4 w
      | Addr6 w z \<Rightarrow>
          (if Is4In6 a then ''::ffff:'' @ string4 (ucast w) else string6 w)
          @ (if z = [] then [] else CHR ''%'' # z))"

definition Prefix_String :: "prefix \<Rightarrow> string" where
  "Prefix_String p = Addr_String (prefix_addr p) @ ''/'' @ dec (int (prefix_bits p))"

section \<open>Parsing\<close>

text \<open>\<open>parseIPv4Fields\<close>: the current octet, its number of digits, and the octets so far.\<close>

fun ipv4_loop :: "string \<Rightarrow> int \<Rightarrow> nat \<Rightarrow> int list \<Rightarrow> int list option" where
  "ipv4_loop [] v n fs = (if length fs < 3 then None else Some (fs @ [v]))"
| "ipv4_loop (c # r) v n fs =
     (if is_digit c then
        if n = 1 \<and> v = 0 then None
        else let v' = v * 10 + digit_val c
             in if 255 < v' then None else ipv4_loop r v' (Suc n) fs
      else if c = CHR ''.'' then
        if n = 0 \<or> r = [] \<or> length fs = 3 then None else ipv4_loop r 0 0 (fs @ [v])
      else None)"

definition ipv4_of :: "int list \<Rightarrow> 32 word" where
  "ipv4_of fs = word_of_int (foldl (\<lambda>a f. a * 256 + f) 0 fs)"

definition parseIPv4 :: "string \<Rightarrow> addr option" where
  "parseIPv4 s = map_option (\<lambda>fs. Addr4 (ipv4_of fs)) (ipv4_loop s 0 0 [])"

definition is_hex :: "char \<Rightarrow> bool" where
  "is_hex c \<longleftrightarrow> is_digit c \<or> (97 \<le> (of_char c :: int) \<and> (of_char c :: int) \<le> 102)
                        \<or> (65 \<le> (of_char c :: int) \<and> (of_char c :: int) \<le> 70)"

definition hex_val :: "char \<Rightarrow> int" where
  "hex_val c = (if is_digit c then of_char c - 48
                else if 97 \<le> (of_char c :: int) then of_char c - 87 else of_char c - 55)"

definition hexs_val :: "string \<Rightarrow> int" where
  "hexs_val s = foldl (\<lambda>a c. a * 16 + hex_val c) 0 s"

text \<open>
  The loop of \<open>parseIPv6\<close>: the fields read so far and the place of the ellipsis.  It returns the
  text it has not used.
\<close>

function ipv6_loop :: "string \<Rightarrow> int list \<Rightarrow> nat option \<Rightarrow> (string \<times> int list \<times> nat option) option" where
  "ipv6_loop s fs e =
     (if 8 \<le> length fs then Some (s, fs, e)
      else let ds = takeWhile is_hex s; rest = dropWhile is_hex s
           in if ds = [] \<or> 4 < length ds then None
              else case rest of
                [] \<Rightarrow> Some ([], fs @ [hexs_val ds], e)
              | c # r \<Rightarrow>
                  if c = CHR ''.'' then
                    if (e = None \<and> length fs \<noteq> 6) \<or> 6 < length fs then None
                    else (case ipv4_loop s 0 0 [] of
                            Some [a, b, x, y] \<Rightarrow> Some ([], fs @ [a * 256 + b, x * 256 + y], e)
                          | _ \<Rightarrow> None)
                  else if c \<noteq> CHR '':'' then None
                  else case r of
                    [] \<Rightarrow> None
                  | c' # r' \<Rightarrow>
                      if c' = CHR '':'' then
                        if e \<noteq> None then None
                        else if r' = [] then Some ([], fs @ [hexs_val ds], Some (Suc (length fs)))
                        else ipv6_loop r' (fs @ [hexs_val ds]) (Some (Suc (length fs)))
                      else ipv6_loop r (fs @ [hexs_val ds]) e)"
  by pat_completeness auto
termination
  by (relation "measure (\<lambda>(s, fs, e). 8 - length fs)") auto

declare ipv6_loop.simps [simp del]

definition ipv6_of :: "int list \<Rightarrow> 128 word" where
  "ipv6_of hs = word_of_int (foldl (\<lambda>a h. a * 65536 + h) 0 hs)"

text \<open>What follows the loop: all text used, and the ellipsis expanded to at least one field.\<close>

definition ipv6_finish :: "(string \<times> int list \<times> nat option) option \<Rightarrow> int list option" where
  "ipv6_finish r =
     (case r of
        Some ([], fs, e) \<Rightarrow>
          if length fs < 8 then
            (case e of None \<Rightarrow> None
             | Some k \<Rightarrow> Some (take k fs @ replicate (8 - length fs) 0 @ drop k fs))
          else if e = None then Some fs else None
      | _ \<Rightarrow> None)"

definition parseIPv6_fields :: "string \<Rightarrow> int list option" where
  "parseIPv6_fields s =
     (case s of
        c # d # r \<Rightarrow>
          if c = CHR '':'' \<and> d = CHR '':'' then
            if r = [] then Some (replicate 8 0) else ipv6_finish (ipv6_loop r [] (Some 0))
          else ipv6_finish (ipv6_loop s [] None)
      | _ \<Rightarrow> ipv6_finish (ipv6_loop s [] None))"

definition parseIPv6 :: "string \<Rightarrow> addr option" where
  "parseIPv6 s =
     (case Cut s (CHR ''%'') of
        None \<Rightarrow> map_option (\<lambda>hs. Addr6 (ipv6_of hs) []) (parseIPv6_fields s)
      | Some (a, z) \<Rightarrow>
          if z = [] then None else map_option (\<lambda>hs. Addr6 (ipv6_of hs) z) (parseIPv6_fields a))"

definition ParseAddr :: "string \<Rightarrow> addr option" where
  "ParseAddr s =
     (case find (\<lambda>c. c \<in> {CHR ''.'', CHR '':'', CHR ''%''}) s of
        Some c \<Rightarrow> if c = CHR ''.'' then parseIPv4 s
                  else if c = CHR '':'' then parseIPv6 s else None
      | None \<Rightarrow> None)"

text \<open>
  \<open>netip.ParsePrefix\<close>.  A length of more than one digit starts with 1 to 9, and Atoi takes digits
  only, since a sign alone is a syntax error.
\<close>

definition ParsePrefix :: "string \<Rightarrow> prefix option" where
  "ParsePrefix s =
     (case CutLast s (CHR ''/'') of
        None \<Rightarrow> None
      | Some (a, bs) \<Rightarrow>
        (case ParseAddr a of
           None \<Rightarrow> None
         | Some ip \<Rightarrow>
             if Zone ip \<noteq> [] then None
             else if bs = [] \<or> \<not> list_all is_digit bs \<or> (1 < length bs \<and> hd bs = CHR ''0'') then None
             else let b = digits_val bs; m = (case ip of Addr4 _ \<Rightarrow> 32 | _ \<Rightarrow> 128)
                  in if m < b then None else Some (Prefix ip (nat b))))"

section \<open>Fixed-base digits\<close>

fun base_digits :: "int \<Rightarrow> nat \<Rightarrow> int \<Rightarrow> int list" where
  "base_digits b 0 n = []"
| "base_digits b (Suc k) n = base_digits b k (n div b) @ [n mod b]"

lemma base_digits_value:
  assumes "0 < b"
  shows "foldl (\<lambda>a f. a * b + f) 0 (base_digits b k n) = n mod b ^ k"
proof (induction k arbitrary: n)
  case (Suc k)
  have "n mod (b * b ^ k) = b * (n div b mod b ^ k) + n mod b"
    using assms by (simp add: zmod_zmult2_eq)
  then show ?case by (simp add: Suc.IH mult.commute)
qed simp

lemma base_digits_range: "0 < b \<Longrightarrow> f \<in> set (base_digits b k n) \<Longrightarrow> 0 \<le> f \<and> f < b"
  by (induction k arbitrary: n) auto

lemma length_base_digits [simp]: "length (base_digits b k n) = k"
  by (induction k arbitrary: n) auto

lemma octets_base: "octets w = base_digits 256 4 (uint w)"
  by (simp add: octets_def numeral_eq_Suc zdiv_zmult2_eq [symmetric])

lemma hextets_base: "hextets w = base_digits 65536 8 (uint w)"
  by (simp add: hextets_def numeral_eq_Suc zdiv_zmult2_eq [symmetric])

lemma ipv4_of_octets: "ipv4_of (octets w) = w"
  using uint_bounded [of w]
  by (simp add: ipv4_of_def octets_base base_digits_value mod_pos_pos_trivial)

lemma ipv6_of_hextets: "ipv6_of (hextets w) = w"
  using uint_bounded [of w]
  by (simp add: ipv6_of_def hextets_base base_digits_value mod_pos_pos_trivial)

lemma hextets_range: "h \<in> set (hextets w) \<Longrightarrow> 0 \<le> h \<and> h < 65536"
  using base_digits_range [of 65536 h 8 "uint w"] by (simp add: hextets_base)

lemma octets_range: "h \<in> set (octets w) \<Longrightarrow> 0 \<le> h \<and> h < 256"
  using base_digits_range [of 256 h 4 "uint w"] by (simp add: octets_base)

lemma length_hextets [simp]: "length (hextets w) = 8"
  by (simp add: hextets_base)

section \<open>Decimal octets\<close>

lemma ipv4_loop_dec:
  assumes "0 \<le> x" "x < 256"
  shows "ipv4_loop (dec x @ r) 0 0 fs = ipv4_loop r x (length (dec x)) fs"
proof -
  consider "x < 10" | "10 \<le> x" "x < 100" | "100 \<le> x" by linarith
  then show ?thesis
  proof cases
    case 1
    then show ?thesis using assms by (simp add: dec.simps [of x] Let_def)
  next
    case 2
    define a b where "a = x div 10" and "b = x mod 10"
    have ab: "x = a * 10 + b" "0 \<le> b" "b < 10" by (simp_all add: a_def b_def)
    then have a: "0 < a" "a < 10" using 2 by linarith+
    have "dec x = [digit_char a, digit_char b]"
      using 2 a by (simp add: dec.simps [of x] a_def b_def dec.simps [of "x div 10"])
    with ab a 2 show ?thesis by (simp add: Let_def)
  next
    case 3
    define a b c where "a = x div 10 div 10" and "b = x div 10 mod 10" and "c = x mod 10"
    have q: "x div 10 = a * 10 + b" by (simp add: a_def b_def)
    have x: "x = 100 * a + b * 10 + c" "0 \<le> b" "b < 10" "0 \<le> c" "c < 10"
      using div_mult_mod_eq [of x 10] unfolding q by (simp_all add: c_def b_def)
    then have "0 < a" using 3 by linarith
    moreover have "a < 10" using x assms by linarith
    ultimately have a: "0 < a" "a < 10" by simp_all
    have "dec (x div 10) = [digit_char a, digit_char b]"
    proof -
      have "dec (x div 10) = dec a @ [digit_char b]"
        using q x(2) a by (subst dec.simps) (simp add: a_def b_def)
      then show ?thesis using a by (simp add: dec.simps [of a])
    qed
    then have "dec x = [digit_char a, digit_char b, digit_char c]"
      using 3 by (simp add: dec.simps [of x] c_def)
    with x a 3 assms show ?thesis by (simp add: Let_def)
  qed
qed

lemma parseIPv4_string4: "parseIPv4 (string4 w) = Some (Addr4 w)"
proof -
  obtain a b c d where o: "octets w = [a, b, c, d]" by (simp add: octets_def)
  have r: "0 \<le> a \<and> a < 256" "0 \<le> b \<and> b < 256" "0 \<le> c \<and> c < 256" "0 \<le> d \<and> d < 256"
    using octets_range [of _ w] o by auto
  have dot: "\<not> is_digit (CHR ''.'')" by code_simp
  have "ipv4_loop (string4 w) 0 0 [] = Some (octets w)"
    using r dot ipv4_loop_dec [of d "[]"] by (simp add: string4_def o ipv4_loop_dec)
  then show ?thesis by (simp add: parseIPv4_def ipv4_of_octets)
qed

section \<open>Hexadecimal fields\<close>

lemma hex_char_cases:
  assumes "0 \<le> d" "d < 16"
  shows "is_hex (hex_char d)" "hex_val (hex_char d) = d"
proof -
  have "d \<in> {0, 1, 2, 3, 4, 5, 6, 7, 8, 9, 10, 11, 12, 13, 14, 15}" using assms by simp arith
  then show "is_hex (hex_char d)" "hex_val (hex_char d) = d"
    by (auto simp: hex_char_def is_hex_def is_digit_def hex_val_def of_char_of)
qed

lemma hexs_val_snoc [simp]: "hexs_val (s @ [c]) = hexs_val s * 16 + hex_val c"
  by (simp add: hexs_val_def)

lemma hex_props:
  assumes "0 \<le> n"
  shows "hexs_val (hex n) = n \<and> list_all is_hex (hex n) \<and> hex n \<noteq> []"
  using assms
proof (induction n rule: hex.induct)
  case (1 n)
  show ?case
  proof (cases "n < 16")
    case True
    with 1 show ?thesis by (subst (1 2 3) hex.simps) (simp add: hexs_val_def hex_char_cases)
  next
    case False
    with 1 have "hexs_val (hex (n div 16)) = n div 16 \<and> list_all is_hex (hex (n div 16))"
      by (simp add: pos_imp_zdiv_nonneg_iff)
    with False show ?thesis by (simp add: hex.simps [of n] hex_char_cases)
  qed
qed

lemma length_hex: "0 \<le> n \<Longrightarrow> n < 16 ^ Suc k \<Longrightarrow> length (hex n) \<le> Suc k"
proof (induction k arbitrary: n)
  case 0
  then show ?case by (simp add: hex.simps [of n])
next
  case (Suc k)
  have "n div 16 < 16 ^ Suc k" using Suc.prems by (simp add: int_div_less_iff)
  with Suc show ?case
    by (cases "n < 16") (simp_all add: hex.simps [of n] pos_imp_zdiv_nonneg_iff)
qed

lemma hex_field:
  assumes "0 \<le> g" "g < 65536" and "r = [] \<or> \<not> is_hex (hd r)"
  shows "takeWhile is_hex (hex g @ r) = hex g" "dropWhile is_hex (hex g @ r) = r"
    "length (hex g) \<le> 4"
proof -
  have "\<forall>c\<in>set (hex g). is_hex c" using hex_props [OF assms(1)] by (simp add: list_all_iff)
  with assms(3) show "takeWhile is_hex (hex g @ r) = hex g" "dropWhile is_hex (hex g @ r) = r"
    by (cases r; simp add: takeWhile_append2 dropWhile_append2)+
  show "length (hex g) \<le> 4" using length_hex [of g 3] assms by simp
qed

lemma colon_not_hex [simp]: "\<not> is_hex (CHR '':'')" "\<not> is_hex (CHR ''.'')" "\<not> is_hex (CHR ''%'')"
  by code_simp+

lemma ipv6_loop_last:
  assumes "0 \<le> g" "g < 65536" "length fs < 8"
  shows "ipv6_loop (hex g) fs e = Some ([], fs @ [g], e)"
proof -
  have w: "takeWhile is_hex (hex g) = hex g" "dropWhile is_hex (hex g) = []"
    using hex_props [OF assms(1)] by (simp_all add: list_all_iff)
  show ?thesis
    unfolding ipv6_loop.simps [of "hex g"] Let_def w
    using hex_props [OF assms(1)] hex_field(3) [OF assms(1,2), of "[]"] assms(3) by auto
qed

lemma ipv6_loop_colon:
  assumes "0 \<le> g" "g < 65536" "length fs < 8" "c \<noteq> CHR '':''"
  shows "ipv6_loop (hex g @ CHR '':'' # c # r) fs e = ipv6_loop (c # r) (fs @ [g]) e"
  using hex_props [OF assms(1)] hex_field(3) [OF assms(1,2), of "[]"] assms(3,4)
  by (simp add: ipv6_loop.simps [of "hex g @ CHR '':'' # c # r"] Let_def hex_field(1,2) [OF assms(1,2)])

lemma ipv6_loop_ellipsis:
  assumes "0 \<le> g" "g < 65536" "length fs < 8"
  shows "ipv6_loop (hex g @ CHR '':'' # CHR '':'' # r) fs None =
    (if r = [] then Some ([], fs @ [g], Some (Suc (length fs)))
     else ipv6_loop r (fs @ [g]) (Some (Suc (length fs))))"
  using hex_props [OF assms(1)] hex_field(3) [OF assms(1,2), of "[]"] assms(3)
  by (simp add: ipv6_loop.simps [of "hex g @ CHR '':'' # CHR '':'' # r"] Let_def hex_field(1,2) [OF assms(1,2)])

lemma hex_Cons: "0 \<le> g \<Longrightarrow> \<exists>c cs. hex g = c # cs \<and> c \<noteq> CHR '':''"
  using hex_props [of g] by (cases "hex g") auto

lemma join_hex_Cons:
  assumes "gs \<noteq> []" "\<forall>g\<in>set gs. 0 \<le> g"
  shows "\<exists>c cs. join sep (map hex gs) = c # cs \<and> c \<noteq> CHR '':''"
proof (cases gs rule: remdups_adj.cases)
  case (3 g h gs')
  then show ?thesis using hex_Cons [of g] assms by auto
qed (use assms hex_Cons in auto)

lemma ipv6_loop_join:
  assumes "gs \<noteq> []" "\<forall>g\<in>set gs. 0 \<le> g \<and> g < 65536" "length fs + length gs \<le> 8"
  shows "ipv6_loop (join '':'' (map hex gs)) fs e = Some ([], fs @ gs, e)"
  using assms
proof (induction "'':''" "map hex gs" arbitrary: gs fs rule: join.induct)
  case (2 x)
  then show ?case by (auto simp: ipv6_loop_last)
next
  case (3 x y xs)
  then obtain g h gs' where gs: "gs = g # h # gs'" by (auto simp: Cons_eq_map_conv)
  obtain c cs where c: "join '':'' (map hex (h # gs')) = c # cs" "c \<noteq> CHR '':''"
    using join_hex_Cons [of "h # gs'" "'':''"] 3(4) gs by auto
  have "ipv6_loop (join '':'' (map hex (h # gs'))) (fs @ [g]) e = Some ([], (fs @ [g]) @ h # gs', e)"
    using 3 gs by (intro 3(1)) auto
  then show ?case using 3 gs c by (simp add: ipv6_loop_colon)
qed simp

lemma ipv6_loop_join_ellipsis:
  assumes "gs \<noteq> []" "\<forall>g\<in>set gs. 0 \<le> g \<and> g < 65536" "length fs + length gs \<le> 8"
  shows "ipv6_loop (join '':'' (map hex gs) @ CHR '':'' # CHR '':'' # r) fs None =
    (if r = [] then Some ([], fs @ gs, Some (length (fs @ gs)))
     else ipv6_loop r (fs @ gs) (Some (length (fs @ gs))))"
  using assms
proof (induction "'':''" "map hex gs" arbitrary: gs fs rule: join.induct)
  case (2 x)
  then show ?case by (auto simp: ipv6_loop_ellipsis)
next
  case (3 x y xs)
  then obtain g h gs' where gs: "gs = g # h # gs'" by (auto simp: Cons_eq_map_conv)
  obtain c cs where c: "join '':'' (map hex (h # gs')) = c # cs" "c \<noteq> CHR '':''"
    using join_hex_Cons [of "h # gs'" "'':''"] 3(4) gs by auto
  have "ipv6_loop (join '':'' (map hex (h # gs')) @ CHR '':'' # CHR '':'' # r) (fs @ [g]) None =
    (if r = [] then Some ([], (fs @ [g]) @ h # gs', Some (length ((fs @ [g]) @ h # gs')))
     else ipv6_loop r ((fs @ [g]) @ h # gs') (Some (length ((fs @ [g]) @ h # gs'))))"
    using 3 gs by (intro 3(1)) auto
  then show ?case using 3 gs c by (simp add: ipv6_loop_colon)
qed simp

section \<open>The compressed form\<close>

definition is_run :: "int list \<Rightarrow> nat \<times> nat \<Rightarrow> bool" where
  "is_run hs = (\<lambda>(a, b). a + 2 \<le> b \<and> b \<le> length hs \<and> take (b - a) (drop a hs) = replicate (b - a) 0)"

lemma zero_run_is_run:
  assumes "2 \<le> zero_run hs i"
  shows "is_run hs (i, i + zero_run hs i)"
proof -
  let ?z = "takeWhile (\<lambda>h. h = 0) (drop i hs)"
  have l: "zero_run hs i = length ?z" by (simp add: zero_run_def)
  have "take (length ?z) (drop i hs) = ?z" by (metis takeWhile_eq_take)
  moreover have "?z = replicate (length ?z) 0"
    by (rule replicate_length_same [symmetric]) (auto dest: set_takeWhileD)
  moreover have "length ?z \<le> length hs - i" using length_takeWhile_le [of "\<lambda>h. h = 0" "drop i hs"] by simp
  ultimately show ?thesis using assms by (auto simp: is_run_def l)
qed

lemma longest_run_is_run:
  assumes "longest_run hs = Some r"
  shows "is_run hs r"
proof -
  have "\<forall>r. foldl (\<lambda>best i. let l = zero_run hs i
      in if 2 \<le> l \<and> (case best of None \<Rightarrow> True | Some (a, b) \<Rightarrow> b - a < l)
         then Some (i, i + l) else best) None xs = Some r \<longrightarrow> is_run hs r" for xs
    by (induction xs rule: rev_induct) (auto simp: Let_def zero_run_is_run split: if_splits)
  then show ?thesis using assms by (simp only: longest_run_def)
qed

lemma is_run_split:
  assumes "is_run hs (a, b)"
  shows "hs = take a hs @ replicate (b - a) 0 @ drop b hs"
proof -
  have "hs = take a hs @ take (b - a) (drop a hs) @ drop (b - a) (drop a hs)"
    by (simp only: append_take_drop_id)
  with assms show ?thesis by (simp add: is_run_def)
qed

lemma ipv6_finish_run:
  assumes "is_run hs (a, b)" "length hs = 8"
  shows "ipv6_finish (Some ([], take a hs @ drop b hs, Some a)) = Some hs"
proof -
  have ab: "a + 2 \<le> b" "b \<le> 8" using assms by (auto simp: is_run_def)
  then have "8 - (a + (8 - b)) = b - a" by simp
  then show ?thesis using ab assms(2) is_run_split [OF assms(1)] by (simp add: ipv6_finish_def)
qed

lemma parseIPv6_fields_no_ellipsis:
  "c \<noteq> CHR '':'' \<Longrightarrow> parseIPv6_fields (c # s) = ipv6_finish (ipv6_loop (c # s) [] None)"
  by (auto simp: parseIPv6_fields_def split: list.splits)

lemma hextets_part_range: "\<forall>g\<in>set (take a (hextets w)). 0 \<le> g \<and> g < 65536" "\<forall>g\<in>set (drop a (hextets w)). 0 \<le> g \<and> g < 65536"
  using hextets_range by (meson in_set_takeD in_set_dropD)+

lemma parseIPv6_fields_full:
  assumes "longest_run (hextets w) = None"
  shows "parseIPv6_fields (string6 w) = Some (hextets w)"
proof -
  let ?hs = "hextets w"
  have r: "\<forall>g\<in>set ?hs. 0 \<le> g \<and> g < 65536" using hextets_range by blast
  have ne: "?hs \<noteq> []" by (metis length_hextets list.size(3) zero_neq_numeral)
  then obtain c cs where c: "join '':'' (map hex ?hs) = c # cs" "c \<noteq> CHR '':''"
    using join_hex_Cons [of ?hs "'':''"] r by auto
  have "ipv6_loop (join '':'' (map hex ?hs)) [] None = Some ([], ?hs, None)"
    using ipv6_loop_join [of ?hs "[]" None] ne r by simp
  then show ?thesis using assms c parseIPv6_fields_no_ellipsis by (simp add: string6_def ipv6_finish_def)
qed

text \<open>With a run of zero fields the text is the fields before it, an ellipsis, and the fields after it.\<close>

lemma parseIPv6_fields_run:
  assumes run: "longest_run (hextets w) = Some (a, b)"
  shows "parseIPv6_fields (string6 w) = Some (hextets w)"
proof -
  let ?hs = "hextets w" and ?tl = "join '':'' (map hex (drop b (hextets w)))"
  note rt = hextets_part_range(1) [where w = w] and rd = hextets_part_range(2) [where w = w] and is_run = longest_run_is_run [OF run]
  have bounds: "a + 2 \<le> b" "b \<le> 8" using is_run by (simp_all add: is_run_def)
  have str: "string6 w = join '':'' (map hex (take a ?hs)) @ CHR '':'' # CHR '':'' # ?tl"
    using run by (simp add: string6_def Let_def)
  have tail: "ipv6_loop ?tl (take a ?hs) (Some a) = Some ([], take a ?hs @ drop b ?hs, Some a)" if "?tl \<noteq> []"
    using that rd [of b] bounds by (intro ipv6_loop_join) auto
  have tail_Nil: "drop b ?hs = []" if "?tl = []"
    using that join_hex_Cons [of "drop b ?hs" "'':''"] rd [of b] by (metis list.distinct(1))
  consider (all) "a = 0" "?tl = []" | (start) "a = 0" "?tl \<noteq> []" | (later) "a \<noteq> 0" by blast
  then show ?thesis
  proof cases
    case all
    then have "?hs = replicate 8 0"
      using is_run_split [OF is_run] tail_Nil bounds length_hextets [of w]
      by (metis append_Nil append_Nil2 length_replicate take0 take_0)
    then show ?thesis using all str by (simp add: parseIPv6_fields_def)
  next
    case start
    then show ?thesis using str tail ipv6_finish_run [OF is_run] by (simp add: parseIPv6_fields_def)
  next
    case later
    then have ne: "take a ?hs \<noteq> []" by (metis length_hextets list.size(3) take_eq_Nil zero_neq_numeral)
    obtain c cs where c: "join '':'' (map hex (take a ?hs)) = c # cs" "c \<noteq> CHR '':''"
      using join_hex_Cons [OF ne, of "'':''"] rt [of a] by auto
    have la: "length (take a ?hs) = a" using bounds by simp
    have "ipv6_loop (string6 w) [] None = Some ([], take a ?hs @ drop b ?hs, Some a)"
      unfolding str using ipv6_loop_join_ellipsis [OF ne rt, of "[]" ?tl] la tail tail_Nil by auto
    then show ?thesis using parseIPv6_fields_no_ellipsis [OF c(2)] c(1) str ipv6_finish_run [OF is_run] by simp
  qed
qed

lemma parseIPv6_fields_string6: "parseIPv6_fields (string6 w) = Some (hextets w)"
  using parseIPv6_fields_full parseIPv6_fields_run by (cases "longest_run (hextets w)") auto

section \<open>Parsing inverts printing\<close>

text \<open>The prefixes \<open>ParsePrefix\<close> can return and \<open>approval.New\<close> accepts.\<close>

fun plain_prefix :: "prefix \<Rightarrow> bool" where
  "plain_prefix (Prefix (Addr4 w) b) = (b \<le> 32)"
| "plain_prefix (Prefix (Addr6 w z) b) = (z = [] \<and> b \<le> 128 \<and> \<not> Is4In6 (Addr6 w z))"
| "plain_prefix (Prefix InvalidAddr b) = False"

lemma find_first:
  assumes "\<forall>c\<in>set s. Q c \<longrightarrow> c = d" "d \<in> set s" "Q d"
  shows "find Q s = Some d"
  using assms
proof (induction s)
  case (Cons x s)
  show ?case
  proof (cases "Q x")
    case True
    moreover from this have "x = d" using Cons.prems(1) by auto
    ultimately show ?thesis by simp
  next
    case False
    then have "d \<in> set s" using Cons.prems(2,3) by auto
    moreover have "\<forall>c\<in>set s. Q c \<longrightarrow> c = d" using Cons.prems(1) by (meson list.set_intros(2))
    ultimately have "find Q s = Some d" using Cons.prems(3) by (intro Cons.IH)
    with False show ?thesis by simp
  qed
qed simp

lemma digit_not_special:
  assumes "is_digit c"
  shows "c \<noteq> CHR ''.''" "c \<noteq> CHR '':''" "c \<noteq> CHR ''%''" "c \<noteq> CHR ''/''"
  using assms by (auto simp: is_digit_def)

lemma hex_not_special:
  assumes "is_hex c"
  shows "c \<noteq> CHR ''.''" "c \<noteq> CHR '':''" "c \<noteq> CHR ''%''" "c \<noteq> CHR ''/''"
  using assms by (auto simp: is_hex_def is_digit_def)

lemma string4_chars: "set (string4 w) \<subseteq> insert (CHR ''.'') {c. is_digit c}"
  using set_join [of "''.''" "map dec (octets w)"] octets_range [of _ w] dec_digits
  by (fastforce simp: string4_def)

lemma string6_chars: "set (string6 w) \<subseteq> insert (CHR '':'') {c. is_hex c}"
proof -
  have hex_set: "is_hex c" if "c \<in> set (hex h)" "h \<in> set (hextets w)" for c h
    using that hextets_range [of h w] hex_props [of h] by (auto simp: list_all_iff)
  have "set (join '':'' (map hex hs)) \<subseteq> insert (CHR '':'') {c. is_hex c}" if "set hs \<subseteq> set (hextets w)" for hs
    using set_join [of "'':''" "map hex hs"] hex_set that by fastforce
  then show ?thesis
    by (auto simp: string6_def Let_def dest: in_set_takeD in_set_dropD split: option.splits; meson set_take_subset set_drop_subset subsetD insertE mem_Collect_eq order_refl)
qed

lemma ParseAddr_string4: "ParseAddr (string4 w) = Some (Addr4 w)"
proof -
  have "CHR ''.'' \<in> set (string4 w)" by (simp add: string4_def octets_def)
  then have "find (\<lambda>c. c \<in> {CHR ''.'', CHR '':'', CHR ''%''}) (string4 w) = Some (CHR ''.'')"
    using string4_chars [of w] digit_not_special by (intro find_first) auto
  then show ?thesis by (simp add: ParseAddr_def parseIPv4_string4)
qed

lemma ParseAddr_string6: "ParseAddr (string6 w) = Some (Addr6 w [])"
proof -
  obtain h k hs where "hextets w = h # k # hs" by (simp add: hextets_def)
  then have colon: "CHR '':'' \<in> set (string6 w)"
    by (auto simp: string6_def Let_def split: option.splits)
  then have "find (\<lambda>c. c \<in> {CHR ''.'', CHR '':'', CHR ''%''}) (string6 w) = Some (CHR '':'')"
    using string6_chars [of w] hex_not_special by (intro find_first) auto
  moreover have "Cut (string6 w) (CHR ''%'') = None"
    using string6_chars [of w] hex_not_special by (intro Cut_None) auto
  ultimately show ?thesis
    by (simp add: ParseAddr_def parseIPv6_def parseIPv6_fields_string6 ipv6_of_hextets)
qed

lemma dec_no_leading_zero: "0 < n \<Longrightarrow> hd (dec n) \<noteq> CHR ''0''"
proof (induction n rule: dec.induct)
  case (1 n)
  show ?case
  proof (cases "n < 10")
    case True
    with 1 have "digit_char n \<noteq> digit_char 0" by (subst digit_char_eq) simp_all
    with True show ?thesis by (simp add: dec.simps [of n])
  next
    case False
    then have "0 < n div 10" by (simp add: pos_imp_zdiv_pos_iff)
    with 1 False show ?thesis by (simp add: dec.simps [of n])
  qed
qed

lemma ParsePrefix_String:
  assumes "plain_prefix p"
  shows "ParsePrefix (Prefix_String p) = Some p"
proof -
  obtain a b where p: "p = Prefix a b" by (cases p)
  let ?d = "dec (int b)"
  have dig: "list_all is_digit ?d" using dec_digits [of "int b"] by (simp add: list_all_iff)
  then have "CHR ''/'' \<notin> set ?d" using digit_not_special(4) unfolding list_all_iff by blast
  then have cut: "CutLast (Prefix_String p) (CHR ''/'') = Some (Addr_String a, ?d)"
    by (simp add: Prefix_String_def p CutLast_append)
  have lead: "\<not> (1 < length ?d \<and> hd ?d = CHR ''0'')"
  proof (cases "b = 0")
    case True
    then have "length ?d = 1" by (simp add: dec.simps [of 0])
    then show ?thesis by simp
  next
    case False
    then show ?thesis using dec_no_leading_zero [of "int b"] by simp
  qed
  show ?thesis
  proof (cases a)
    case (Addr4 w)
    with assms p cut dig lead show ?thesis
      by (simp add: ParsePrefix_def Addr_String_def ParseAddr_string4 Zone_def)
  next
    case (Addr6 w z)
    with assms p have z: "a = Addr6 w []" "b \<le> 128" "\<not> Is4In6 (Addr6 w [])" by auto
    then have "Addr_String a = string6 w" by (simp add: Addr_String_def)
    with p cut dig lead z show ?thesis
      by (simp add: ParsePrefix_def ParseAddr_string6 Zone_def)
  qed (use assms p in simp)
qed

section \<open>Matching\<close>

lemma bit_clear_low: "bit (clear_low n w) i \<longleftrightarrow> n \<le> i \<and> bit w i" for w :: "'a::len word"
  by (auto simp: clear_low_def bit_simps dest: bit_imp_le_length)

lemma clear_low_idem [simp]: "clear_low n (clear_low n w) = clear_low n w" for w :: "'a::len word"
  by (rule bit_eqI) (auto simp: bit_clear_low)

lemma drop_bit_clear_low: "drop_bit n (clear_low n w) = drop_bit n w" for w :: "'a::len word"
  by (rule bit_eqI) (auto simp: bit_clear_low bit_simps)

lemma ParseAddr_valid: "ParseAddr s = Some a \<Longrightarrow> a \<noteq> InvalidAddr"
  by (auto simp: ParseAddr_def parseIPv4_def parseIPv6_def split: option.splits if_splits)

lemma clear_low_eq_iff:
  fixes v w :: "'a::len word"
  shows "clear_low n v = clear_low n w \<longleftrightarrow> drop_bit n v = drop_bit n w"
proof
  assume eq: "clear_low n v = clear_low n w"
  show "drop_bit n v = drop_bit n w" using drop_bit_clear_low [of n v] drop_bit_clear_low [of n w] eq by simp
qed (simp add: clear_low_def)

lemma drop_bit_xor_zero_iff:
  fixes v w :: "'a::len word"
  shows "drop_bit n (v XOR w) = 0 \<longleftrightarrow> drop_bit n v = drop_bit n w"
proof -
  have "x XOR y = 0 \<longleftrightarrow> x = y" for x y :: "'a word"
  proof
    assume "x XOR y = 0"
    then have "bit (x XOR y) k = bit (0 :: 'a word) k" for k by simp
    then have "bit x k = bit y k" for k by (simp add: bit_xor_iff)
    then show "x = y" by (simp add: bit_eq_iff)
  qed simp
  then show ?thesis by (simp add: drop_bit_xor)
qed

end
