(* ===== verification/GoJson.thy ===== *)
theory GoJson
  imports Prelude
begin

text \<open>
  JSON as Go's \<open>encoding/json\<close> writes and reads it, for the values the program puts into the
  \<open>meta\<close> and \<open>approval_ranges\<close> columns and onto the wire.  Strings are assumed to be valid UTF-8, and
  a number is kept as its literal, so the rounding of a number through \<open>float64\<close> is not modelled.
\<close>

section \<open>Values\<close>

text \<open>\<open>JOpaque\<close> is a Go value that \<open>json.Marshal\<close> refuses, such as a channel or a NaN.\<close>

datatype json =
    JNull
  | JBool bool
  | JNum string
  | JStr string
  | JArr "json list"
  | JObj "(string \<times> json) list"
  | JOpaque

section \<open>Encoding\<close>

definition hex_digit :: "nat \<Rightarrow> char" where
  "hex_digit d = (if d < 10 then char_of (48 + d) else char_of (87 + d))"

definition u_escape :: "nat \<Rightarrow> string" where
  "u_escape n = [CHR 0x5C, CHR ''u'', hex_digit (n div 4096), hex_digit (n div 256 mod 16),
                 hex_digit (n div 16 mod 16), hex_digit (n mod 16)]"

definition escape_char :: "char \<Rightarrow> string" where
  "escape_char c =
     (let n = of_char c :: nat
      in if c = CHR 0x22 \<or> c = CHR 0x5C then [CHR 0x5C, c]
         else if n = 8 then [CHR 0x5C, CHR ''b'']
         else if n = 12 then [CHR 0x5C, CHR ''f'']
         else if n = 10 then [CHR 0x5C, CHR ''n'']
         else if n = 13 then [CHR 0x5C, CHR ''r'']
         else if n = 9 then [CHR 0x5C, CHR ''t'']
         else if n < 32 \<or> c = CHR ''<'' \<or> c = CHR ''>'' \<or> c = CHR ''&'' then u_escape n
         else [c])"

text \<open>U+2028 and U+2029, in UTF-8, are escaped too.\<close>

fun escape :: "string \<Rightarrow> string" where
  "escape [] = []"
| "escape (c # r) =
     (if c = CHR 0xE2 then
        (case r of
           d # e # r' \<Rightarrow>
             if d = CHR 0x80 \<and> (e = CHR 0xA8 \<or> e = CHR 0xA9)
             then u_escape (if e = CHR 0xA8 then 0x2028 else 0x2029) @ escape r'
             else c # escape r
         | _ \<Rightarrow> c # escape r)
      else escape_char c @ escape r)"

definition quote :: "string \<Rightarrow> string" where
  "quote s = CHR 0x22 # escape s @ [CHR 0x22]"

fun jtext :: "json \<Rightarrow> string" where
  "jtext JNull = ''null''"
| "jtext (JBool b) = (if b then ''true'' else ''false'')"
| "jtext (JNum s) = s"
| "jtext (JStr s) = quote s"
| "jtext (JArr xs) = ''['' @ join '','' (map jtext xs) @ '']''"
| "jtext (JObj ms) = ''{'' @ join '','' (map (\<lambda>(k, v). quote k @ '':'' @ jtext v) ms) @ ''}''"
| "jtext JOpaque = []"

fun encodable :: "json \<Rightarrow> bool" where
  "encodable (JArr xs) = list_all encodable xs"
| "encodable (JObj ms) = list_all (\<lambda>(k, v). encodable v) ms"
| "encodable JOpaque = False"
| "encodable _ = True"

definition json_Marshal :: "json \<Rightarrow> string result" where
  "json_Marshal v = (if encodable v then Inr (jtext v) else Inl (Errorf ''json: unsupported value'' []))"

section \<open>Decoding\<close>

definition is_ws :: "char \<Rightarrow> bool" where
  "is_ws c \<longleftrightarrow> c = CHR '' '' \<or> c = CHR 0x09 \<or> c = CHR 0x0A \<or> c = CHR 0x0D"

definition skip_ws :: "string \<Rightarrow> string" where
  "skip_ws s = dropWhile is_ws s"

definition hex_nibble :: "char \<Rightarrow> nat option" where
  "hex_nibble c =
     (let n = of_char c :: nat
      in if 48 \<le> n \<and> n \<le> 57 then Some (n - 48)
         else if 97 \<le> n \<and> n \<le> 102 then Some (n - 87)
         else if 65 \<le> n \<and> n \<le> 70 then Some (n - 55) else None)"

text \<open>Four hexadecimal digits.\<close>

fun get_u4 :: "string \<Rightarrow> (nat \<times> string) option" where
  "get_u4 (a # b # c # d # r) =
     (case (hex_nibble a, hex_nibble b, hex_nibble c, hex_nibble d) of
        (Some w, Some x, Some y, Some z) \<Rightarrow> Some (w * 4096 + x * 256 + y * 16 + z, r)
      | _ \<Rightarrow> None)"
| "get_u4 s = None"

definition utf8 :: "nat \<Rightarrow> string" where
  "utf8 n =
     map (char_of :: nat \<Rightarrow> char)
       (if n < 0x80 then [n]
        else if n < 0x800 then [0xC0 + n div 64, 0x80 + n mod 64]
        else if n < 0x10000 then [0xE0 + n div 4096, 0x80 + n div 64 mod 64, 0x80 + n mod 64]
        else [0xF0 + n div 262144, 0x80 + n div 4096 mod 64, 0x80 + n div 64 mod 64, 0x80 + n mod 64])"

text \<open>
  A \<open>\u\<close> escape: the decoded bytes and the rest.  A high surrogate takes the low surrogate that
  follows it; a lone surrogate becomes U+FFFD.
\<close>

definition get_escape_u :: "string \<Rightarrow> (string \<times> string) option" where
  "get_escape_u s =
     (case get_u4 s of
        None \<Rightarrow> None
      | Some (n, r) \<Rightarrow>
          if 0xD800 \<le> n \<and> n < 0xE000 then
            (case (if take 2 r = [CHR 0x5C, CHR ''u''] then get_u4 (drop 2 r) else None) of
               Some (m, r') \<Rightarrow>
                 if n < 0xDC00 \<and> 0xDC00 \<le> m \<and> m < 0xE000
                 then Some (utf8 (0x10000 + (n - 0xD800) * 1024 + (m - 0xDC00)), r')
                 else Some (utf8 0xFFFD, r)
             | None \<Rightarrow> Some (utf8 0xFFFD, r))
          else Some (utf8 n, r))"

definition simple_escape :: "char \<Rightarrow> char option" where
  "simple_escape e =
     (if e = CHR 0x22 \<or> e = CHR 0x5C \<or> e = CHR ''/'' then Some e
      else if e = CHR ''b'' then Some (CHR 0x08)
      else if e = CHR ''f'' then Some (CHR 0x0C)
      else if e = CHR ''n'' then Some (CHR 0x0A)
      else if e = CHR ''r'' then Some (CHR 0x0D)
      else if e = CHR ''t'' then Some (CHR 0x09)
      else None)"

text \<open>The rest of a string literal after its opening quote.  Every call uses up a character.\<close>

fun str_body :: "nat \<Rightarrow> string \<Rightarrow> (string \<times> string) option" where
  "str_body 0 s = None"
| "str_body (Suc f) [] = None"
| "str_body (Suc f) (c # r) =
     (if c = CHR 0x22 then Some ([], r)
      else if (of_char c :: nat) < 32 then None
      else if c = CHR 0x5C then
        (case r of
           [] \<Rightarrow> None
         | e # r' \<Rightarrow>
             if e = CHR ''u'' then
               (case get_escape_u r' of
                  None \<Rightarrow> None
                | Some (bs, r'') \<Rightarrow> map_option (\<lambda>(t, z). (bs @ t, z)) (str_body f r''))
             else (case simple_escape e of
                     None \<Rightarrow> None
                   | Some d \<Rightarrow> map_option (\<lambda>(t, z). (d # t, z)) (str_body f r')))
      else map_option (\<lambda>(t, z). (c # t, z)) (str_body f r))"

text \<open>The number grammar: \<open>-? (0 | [1-9][0-9]*) (. [0-9]+)? ([eE] [+-]? [0-9]+)?\<close>.\<close>

definition is_num_char :: "char \<Rightarrow> bool" where
  "is_num_char c \<longleftrightarrow> is_digit c \<or> c \<in> {CHR ''-'', CHR ''+'', CHR ''.'', CHR ''e'', CHR ''E''}"

definition digits1 :: "string \<Rightarrow> bool" where
  "digits1 s \<longleftrightarrow> s \<noteq> [] \<and> list_all is_digit s"

definition valid_exp :: "string \<Rightarrow> bool" where
  "valid_exp s =
     (case s of [] \<Rightarrow> True
      | e # r \<Rightarrow> (e = CHR ''e'' \<or> e = CHR ''E'') \<and>
          digits1 (case r of c # r' \<Rightarrow> if c = CHR ''+'' \<or> c = CHR ''-'' then r' else r | [] \<Rightarrow> []))"

definition valid_num :: "string \<Rightarrow> bool" where
  "valid_num s =
     (let s1 = (case s of c # r \<Rightarrow> if c = CHR ''-'' then r else s | [] \<Rightarrow> []);
          int_part = takeWhile is_digit s1; s2 = dropWhile is_digit s1
      in int_part \<noteq> [] \<and> (hd int_part = CHR ''0'' \<longrightarrow> length int_part = 1) \<and>
         (case s2 of
            c # r \<Rightarrow> if c = CHR ''.'' then takeWhile is_digit r \<noteq> [] \<and> valid_exp (dropWhile is_digit r)
                     else valid_exp s2
          | [] \<Rightarrow> True))"

definition literal :: "string \<Rightarrow> json \<Rightarrow> string \<Rightarrow> (json \<times> string) option" where
  "literal w v s = (if take (length w) s = w then Some (v, drop (length w) s) else None)"

definition number :: "string \<Rightarrow> (json \<times> string) option" where
  "number s =
     (let t = takeWhile is_num_char s
      in if valid_num t then Some (JNum t, dropWhile is_num_char s) else None)"

text \<open>A repeated key keeps its last value, as decoding into a map does.\<close>

definition obj :: "(string \<times> json) list \<Rightarrow> json" where
  "obj ps = JObj (foldl (\<lambda>m (k, v). map_put k v m) [] ps)"

text \<open>
  The recursive descent.  The fuel is the length of the text plus one; each call uses up at least
  one character, so it never runs out on a text that is JSON.
\<close>

fun jvalue :: "nat \<Rightarrow> string \<Rightarrow> (json \<times> string) option"
  and jelems :: "nat \<Rightarrow> string \<Rightarrow> (json list \<times> string) option"
  and jmembers :: "nat \<Rightarrow> string \<Rightarrow> ((string \<times> json) list \<times> string) option" where
  "jvalue 0 s = None"
| "jvalue (Suc f) s =
     (case skip_ws s of
        [] \<Rightarrow> None
      | c # r \<Rightarrow>
          if c = CHR 0x22 then map_option (\<lambda>(t, z). (JStr t, z)) (str_body (length r) r)
          else if c = CHR ''['' then
            (case skip_ws r of
               d # r' \<Rightarrow> if d = CHR '']'' then Some (JArr [], r')
                        else map_option (\<lambda>(xs, z). (JArr xs, z)) (jelems f r)
             | [] \<Rightarrow> None)
          else if c = CHR ''{'' then
            (case skip_ws r of
               d # r' \<Rightarrow> if d = CHR ''}'' then Some (JObj [], r')
                        else map_option (\<lambda>(ps, z). (obj ps, z)) (jmembers f r)
             | [] \<Rightarrow> None)
          else if c = CHR ''n'' then literal ''null'' JNull (c # r)
          else if c = CHR ''t'' then literal ''true'' (JBool True) (c # r)
          else if c = CHR ''f'' then literal ''false'' (JBool False) (c # r)
          else number (c # r))"
| "jelems 0 s = None"
| "jelems (Suc f) s =
     (case jvalue f s of
        None \<Rightarrow> None
      | Some (v, r) \<Rightarrow>
          (case skip_ws r of
             c # r' \<Rightarrow> if c = CHR '']'' then Some ([v], r')
                      else if c = CHR '','' then map_option (\<lambda>(vs, z). (v # vs, z)) (jelems f r')
                      else None
           | [] \<Rightarrow> None))"
| "jmembers 0 s = None"
| "jmembers (Suc f) s =
     (case skip_ws s of
        [] \<Rightarrow> None
      | q # r0 \<Rightarrow>
        if q \<noteq> CHR 0x22 then None
        else case str_body (length r0) r0 of
          None \<Rightarrow> None
        | Some (k, r1) \<Rightarrow>
          (case skip_ws r1 of
             [] \<Rightarrow> None
           | co # r2 \<Rightarrow>
             if co \<noteq> CHR '':'' then None
             else case jvalue f r2 of
               None \<Rightarrow> None
             | Some (v, r3) \<Rightarrow>
               (case skip_ws r3 of
                  c # r' \<Rightarrow> if c = CHR ''}'' then Some ([(k, v)], r')
                           else if c = CHR '','' then map_option (\<lambda>(ps, z). ((k, v) # ps, z)) (jmembers f r')
                           else None
                | [] \<Rightarrow> None)))"

definition json_parse :: "string \<Rightarrow> json option" where
  "json_parse s =
     (case jvalue (Suc (length s)) s of
        Some (v, r) \<Rightarrow> if skip_ws r = [] then Some v else None
      | None \<Rightarrow> None)"

section \<open>Decoding into the program's types\<close>

text \<open>\<open>json.Unmarshal\<close> into a \<open>map[string]any\<close>: \<open>None\<close> is the nil map that \<open>null\<close> leaves.\<close>

definition json_Unmarshal_map :: "string \<Rightarrow> ((string \<times> json) list option) result" where
  "json_Unmarshal_map s =
     (case json_parse s of
        None \<Rightarrow> Inl (Errorf ''json: invalid syntax'' [])
      | Some JNull \<Rightarrow> Inr None
      | Some (JObj m) \<Rightarrow> Inr (Some m)
      | Some _ \<Rightarrow> Inl (Errorf ''json: cannot unmarshal into map'' []))"

definition json_Unmarshal_any :: "string \<Rightarrow> json result" where
  "json_Unmarshal_any s =
     (case json_parse s of None \<Rightarrow> Inl (Errorf ''json: invalid syntax'' []) | Some v \<Rightarrow> Inr v)"

text \<open>Into a \<open>[]string\<close>: \<open>null\<close> is the nil slice, a null element the empty string.\<close>

fun string_elems :: "json list \<Rightarrow> string list option" where
  "string_elems [] = Some []"
| "string_elems (JStr s # vs) = map_option (\<lambda>ss. s # ss) (string_elems vs)"
| "string_elems (JNull # vs) = map_option (\<lambda>ss. [] # ss) (string_elems vs)"
| "string_elems (_ # vs) = None"

definition strings_of_json :: "json \<Rightarrow> (string list) result" where
  "strings_of_json v =
     (case v of
        JNull \<Rightarrow> Inr []
      | JArr vs \<Rightarrow> (case string_elems vs of
                     Some ss \<Rightarrow> Inr ss
                   | None \<Rightarrow> Inl (Errorf ''json: cannot unmarshal into string'' []))
      | _ \<Rightarrow> Inl (Errorf ''json: cannot unmarshal into []string'' []))"

section \<open>Decoding inverts encoding\<close>

fun wf_json :: "json \<Rightarrow> bool" where
  "wf_json (JNum s) = (valid_num s \<and> list_all is_num_char s)"
| "wf_json (JArr xs) = list_all wf_json xs"
| "wf_json (JObj ms) = (map_ok ms \<and> list_all (\<lambda>(k, v). wf_json v) ms)"
| "wf_json JOpaque = False"
| "wf_json _ = True"

lemma hex_nibble_digit: "d < 16 \<Longrightarrow> hex_nibble (hex_digit d) = Some d"
proof -
  assume "d < 16"
  then have "d \<in> set [0..<16]" by simp
  then show ?thesis
    by (auto simp: upt_rec_numeral hex_nibble_def hex_digit_def Let_def)
qed

lemma get_u4_escape:
  assumes "n < 65536"
  shows "get_u4 (hex_digit (n div 4096) # hex_digit (n div 256 mod 16) #
     hex_digit (n div 16 mod 16) # hex_digit (n mod 16) # r) = Some (n, r)"
proof -
  have d: "n div 4096 < 16" using assms by (simp add: div_less_iff_less_mult)
  have "n = n div 16 * 16 + n mod 16" "n div 16 = n div 256 * 16 + n div 16 mod 16"
    "n div 256 = n div 4096 * 16 + n div 256 mod 16"
    using div_mult_mod_eq [of n 16] div_mult_mod_eq [of "n div 16" 16] div_mult_mod_eq [of "n div 256" 16]
    by (simp_all add: div_mult2_eq [symmetric])
  then have "n div 4096 * 4096 + n div 256 mod 16 * 256 + n div 16 mod 16 * 16 + n mod 16 = n"
    by linarith
  then show ?thesis using d by (simp add: hex_nibble_digit)
qed

lemma str_body_u:
  assumes "n < 0xD800"
  shows "str_body (Suc f) (u_escape n @ r) = map_option (\<lambda>(t, z). (utf8 n @ t, z)) (str_body f r)"
proof -
  have "get_u4 (hex_digit (n div 4096) # hex_digit (n div 256 mod 16) #
     hex_digit (n div 16 mod 16) # hex_digit (n mod 16) # r) = Some (n, r)"
    using assms by (intro get_u4_escape) simp
  then have "get_escape_u (hex_digit (n div 4096) # hex_digit (n div 256 mod 16) #
     hex_digit (n div 16 mod 16) # hex_digit (n mod 16) # r) = Some (utf8 n, r)"
    using assms by (simp add: get_escape_u_def)
  then show ?thesis by (simp add: u_escape_def)
qed

lemma str_body_escape_char:
  assumes "c \<noteq> CHR 0xE2"
  shows "str_body (Suc f) (escape_char c @ r) = map_option (\<lambda>(t, z). (c # t, z)) (str_body f r)"
proof -
  let ?n = "of_char c :: nat"
  have c: "c = char_of ?n" by simp
  have u: "utf8 ?n = [c]" if "?n < 0x80" using that by (simp add: utf8_def)
  have simple: "simple_escape (CHR ''b'') = Some (CHR 0x08)" "simple_escape (CHR ''f'') = Some (CHR 0x0C)"
    "simple_escape (CHR ''n'') = Some (CHR 0x0A)" "simple_escape (CHR ''r'') = Some (CHR 0x0D)"
    "simple_escape (CHR ''t'') = Some (CHR 0x09)" by (simp_all add: simple_escape_def)
  have ctl: "?n = 8 \<Longrightarrow> c = CHR 0x08" "?n = 12 \<Longrightarrow> c = CHR 0x0C" "?n = 10 \<Longrightarrow> c = CHR 0x0A"
    "?n = 13 \<Longrightarrow> c = CHR 0x0D" "?n = 9 \<Longrightarrow> c = CHR 0x09"
    using of_char_eq_iff [where ?'a = nat and c = c] by (simp_all flip: of_char_eq_iff [where ?'a = nat])
  consider "c = CHR 0x22 \<or> c = CHR 0x5C" | "?n = 8" | "?n = 12" | "?n = 10" | "?n = 13" | "?n = 9"
    | "c \<noteq> CHR 0x22" "c \<noteq> CHR 0x5C" "?n \<noteq> 8" "?n \<noteq> 12" "?n \<noteq> 10" "?n \<noteq> 13" "?n \<noteq> 9"
      "?n < 32 \<or> c = CHR ''<'' \<or> c = CHR ''>'' \<or> c = CHR ''&''"
    | "c \<noteq> CHR 0x22" "c \<noteq> CHR 0x5C" "\<not> ?n < 32" "c \<noteq> CHR ''<''" "c \<noteq> CHR ''>''" "c \<noteq> CHR ''&''"
    by blast
  then show ?thesis
  proof cases
    case 1
    then show ?thesis by (auto simp: escape_char_def simple_escape_def)
  next
    case 7
    then have "?n < 0x80" by auto
    then show ?thesis using 7 str_body_u [of ?n f r] u by (simp add: escape_char_def Let_def)
  next
    case 8
    then show ?thesis by (simp add: escape_char_def Let_def)
  qed (use ctl simple in \<open>simp_all add: escape_char_def Let_def\<close>)
qed

lemma escape_char_nonempty: "1 \<le> length (escape_char c)"
  by (simp add: escape_char_def Let_def u_escape_def)

lemma escape_cases:
  obtains (plain) "escape (c # s) = escape_char c @ escape s" "c \<noteq> CHR 0xE2"
  | (lead) "escape (c # s) = c # escape s" "c = CHR 0xE2"
  | (sep) e s' where "s = CHR 0x80 # e # s'" "c = CHR 0xE2" "e = CHR 0xA8" "escape (c # s) = u_escape 0x2028 @ escape s'"
  | (par) e s' where "s = CHR 0x80 # e # s'" "c = CHR 0xE2" "e = CHR 0xA9" "escape (c # s) = u_escape 0x2029 @ escape s'"
proof (cases "c = CHR 0xE2")
  case False
  then show ?thesis by (intro plain) simp_all
next
  case c: True
  show ?thesis
  proof (cases s)
    case Nil
    then show ?thesis using c by (intro lead) simp_all
  next
    case (Cons d s1)
    show ?thesis
    proof (cases s1)
      case Nil
      then show ?thesis using c Cons by (intro lead) simp_all
    next
      case s1: (Cons e s')
      consider "d = CHR 0x80" "e = CHR 0xA8" | "d = CHR 0x80" "e = CHR 0xA9"
        | "\<not> (d = CHR 0x80 \<and> (e = CHR 0xA8 \<or> e = CHR 0xA9))" by blast
      then show ?thesis
      proof cases
        case 1
        then show ?thesis using c Cons s1 by (intro sep) simp_all
      next
        case 2
        then show ?thesis using c Cons s1 by (intro par) simp_all
      next
        case 3
        then show ?thesis using c Cons s1 by (intro lead) (simp_all only: escape.simps list.case if_False if_True HOL.simp_thms)
      qed
    qed
  qed
qed

lemma escape_length: "length s \<le> length (escape s)"
proof (induction s rule: length_induct)
  case (1 s)
  show ?case
  proof (cases s)
    case (Cons c t)
    then have IH: "length t \<le> length (escape t)" using 1 by simp
    show ?thesis
    proof (cases rule: escape_cases [of c t])
      case plain
      then show ?thesis using Cons IH escape_char_nonempty [of c] by simp
    next
      case lead
      then show ?thesis using Cons IH by simp
    next
      case (sep e s')
      then have "length s' \<le> length (escape s')" using 1 Cons by simp
      with sep Cons show ?thesis by (simp add: u_escape_def)
    next
      case (par e s')
      then have "length s' \<le> length (escape s')" using 1 Cons by simp
      with par Cons show ?thesis by (simp add: u_escape_def)
    qed
  qed simp
qed

lemma str_body_escape:
  "length s < f \<Longrightarrow> str_body f (escape s @ CHR 0x22 # r) = Some (s, r)"
proof (induction s arbitrary: f rule: length_induct)
  case (1 s)
  then obtain g where f: "f = Suc g" by (cases f) auto
  have IH: "str_body g (escape t @ CHR 0x22 # r) = Some (t, r)" if "length t < length s" "length t < g" for t
    using 1 that by blast
  have u: "utf8 0x2028 = [CHR 0xE2, CHR 0x80, CHR 0xA8]" "utf8 0x2029 = [CHR 0xE2, CHR 0x80, CHR 0xA9]"
    by (simp_all add: utf8_def char_of_eq_iff)
  show ?case
  proof (cases s)
    case Nil
    then show ?thesis using f by simp
  next
    case (Cons c t)
    then have t: "str_body g (escape t @ CHR 0x22 # r) = Some (t, r)" using IH [of t] 1(2) f by simp
    show ?thesis
    proof (cases rule: escape_cases [of c t])
      case plain
      then show ?thesis using Cons f t str_body_escape_char [of c g] by simp
    next
      case lead
      then show ?thesis using Cons f t by simp
    next
      case (sep e s')
      then have "str_body g (escape s' @ CHR 0x22 # r) = Some (s', r)" using IH [of s'] 1(2) f Cons by simp
      then show ?thesis using sep Cons f str_body_u [where n = "0x2028" and f = g] u by (simp del: escape.simps)
    next
      case (par e s')
      then have "str_body g (escape s' @ CHR 0x22 # r) = Some (s', r)" using IH [of s'] 1(2) f Cons by simp
      then show ?thesis using par Cons f str_body_u [where n = "0x2029" and f = g] u by (simp del: escape.simps)
    qed
  qed
qed

lemma str_body_quote: "str_body (length (escape s @ CHR 0x22 # r)) (escape s @ CHR 0x22 # r) = Some (s, r)"
  using escape_length [of s] by (intro str_body_escape) simp

lemma skip_ws_Cons [simp]: "\<not> is_ws c \<Longrightarrow> skip_ws (c # r) = c # r"
  by (simp add: skip_ws_def)

lemma not_ws [simp]:
  "\<not> is_ws (CHR 0x22)" "\<not> is_ws (CHR ''['')" "\<not> is_ws (CHR '']'')" "\<not> is_ws (CHR ''{'')"
  "\<not> is_ws (CHR ''}'')" "\<not> is_ws (CHR '','')" "\<not> is_ws (CHR '':'')" "\<not> is_ws (CHR ''n'')"
  "\<not> is_ws (CHR ''t'')" "\<not> is_ws (CHR ''f'')"
  by (simp_all add: is_ws_def)

text \<open>What may follow an encoded value inside another: no character of a number.\<close>

definition ends_value :: "string \<Rightarrow> bool" where
  "ends_value r \<longleftrightarrow> r = [] \<or> \<not> is_num_char (hd r)"

lemma ends_value_simps [simp]:
  "ends_value []" "ends_value (CHR '','' # r)" "ends_value (CHR '']'' # r)" "ends_value (CHR ''}'' # r)"
  by (simp_all add: ends_value_def is_num_char_def is_digit_def)

lemma valid_num_start:
  assumes "valid_num s"
  shows "\<exists>c t. s = c # t \<and> (is_digit c \<or> c = CHR ''-'')"
proof (cases s)
  case Nil
  then show ?thesis using assms by (simp add: valid_num_def)
next
  case (Cons c t)
  then show ?thesis using assms by (auto simp: valid_num_def Let_def split: if_splits)
qed

lemma number_text:
  assumes "valid_num s" "list_all is_num_char s" "ends_value r"
  shows "number (s @ r) = Some (JNum s, r)"
proof -
  have "takeWhile is_num_char (s @ r) = s" "dropWhile is_num_char (s @ r) = r"
    using assms(2,3) by (cases r; simp add: list_all_iff takeWhile_append2 dropWhile_append2 ends_value_def)+
  then show ?thesis using assms(1) by (simp add: number_def)
qed

lemma jtext_nonempty: "wf_json v \<Longrightarrow> jtext v \<noteq> []"
  by (cases v) (auto simp: quote_def valid_num_def)

lemma jvalue_number:
  assumes "valid_num s" "list_all is_num_char s" "ends_value r"
  shows "jvalue (Suc f) (s @ r) = Some (JNum s, r)"
proof -
  obtain c t where s: "s = c # t" and c: "is_digit c \<or> c = CHR ''-''"
    using valid_num_start [OF assms(1)] by blast
  have "\<not> is_ws c" "c \<noteq> CHR 0x22" "c \<noteq> CHR ''[''" "c \<noteq> CHR ''{''" "c \<noteq> CHR ''n''" "c \<noteq> CHR ''t''" "c \<noteq> CHR ''f''"
    using c by (auto simp: is_ws_def is_digit_def)
  then show ?thesis using number_text [OF assms] s by simp
qed

text \<open>The text of a nonempty list of values, up to its closing bracket.\<close>

lemma jelems_text:
  assumes "xs \<noteq> []"
    and "\<And>x f r. x \<in> set xs \<Longrightarrow> length (jtext x) \<le> f \<Longrightarrow> ends_value r \<Longrightarrow> jvalue f (jtext x @ r) = Some (x, r)"
    and "length (join '','' (map jtext xs)) < f"
  shows "jelems f (join '','' (map jtext xs) @ CHR '']'' # r) = Some (xs, r)"
  using assms
proof (induction xs arbitrary: f rule: list_nonempty_induct)
  case (single x)
  then obtain g where f: "f = Suc g" by (cases f) auto
  with single have "jvalue g (jtext x @ CHR '']'' # r) = Some (x, CHR '']'' # r)" by simp
  then show ?case using f by simp
next
  case (cons x xs)
  then obtain y ys where xs: "xs = y # ys" by (cases xs) auto
  obtain g where f: "f = Suc g" using cons by (cases f) auto
  let ?rest = "join '','' (map jtext xs) @ CHR '']'' # r"
  have len: "length (jtext x) + 1 + length (join '','' (map jtext xs)) \<le> g" using cons.prems(2) xs f by simp
  have "jvalue g (jtext x @ CHR '','' # ?rest) = Some (x, CHR '','' # ?rest)"
    using cons.prems(1) [of x g] len by simp
  moreover have "jelems g ?rest = Some (xs, r)" using cons len by simp
  ultimately show ?case using f xs by simp
qed

lemma jmembers_text:
  assumes "ms \<noteq> []"
    and "\<And>k x f r. (k, x) \<in> set ms \<Longrightarrow> length (jtext x) \<le> f \<Longrightarrow> ends_value r \<Longrightarrow> jvalue f (jtext x @ r) = Some (x, r)"
    and "length (join '','' (map (\<lambda>(k, v). quote k @ '':'' @ jtext v) ms)) < f"
  shows "jmembers f (join '','' (map (\<lambda>(k, v). quote k @ '':'' @ jtext v) ms) @ CHR ''}'' # r) = Some (ms, r)"
  using assms
proof (induction ms arbitrary: f rule: list_nonempty_induct)
  case (single m)
  obtain k x where m: "m = (k, x)" by force
  obtain g where f: "f = Suc g" using single by (cases f) auto
  from single m f have "jvalue g (jtext x @ CHR ''}'' # r) = Some (x, CHR ''}'' # r)" by simp
  then show ?case using f m str_body_quote [of k "CHR '':'' # jtext x @ CHR ''}'' # r"]
    by (simp add: quote_def)
next
  case (cons m ms)
  obtain k x where m: "m = (k, x)" by force
  obtain m' ms' where ms: "ms = m' # ms'" using cons by (cases ms) auto
  obtain g where f: "f = Suc g" using cons by (cases f) auto
  let ?rest = "join '','' (map (\<lambda>(k, v). quote k @ '':'' @ jtext v) ms) @ CHR ''}'' # r"
  have len: "length (jtext x) + 1 + length (join '','' (map (\<lambda>(k, v). quote k @ '':'' @ jtext v) ms)) \<le> g"
    using cons.prems(2) ms f m by simp
  have "jvalue g (jtext x @ CHR '','' # ?rest) = Some (x, CHR '','' # ?rest)"
    using cons.prems(1) [of k x g] len m by simp
  moreover have "jmembers g ?rest = Some (ms, r)"
    by (intro cons.IH) (use cons.prems(1) len in auto)
  ultimately show ?case
    using f ms m str_body_quote [of k "CHR '':'' # jtext x @ CHR '','' # ?rest"] by (simp add: quote_def)
qed

lemma obj_sorted: "map_ok ms \<Longrightarrow> obj ms = JObj ms"
proof -
  have "foldl (\<lambda>m (k, v). map_put k v m) xs ms = xs @ ms" if "map_ok (xs @ ms)" for xs :: "(string \<times> json) list"
    using that
  proof (induction ms arbitrary: xs)
    case (Cons p ms)
    obtain k v where p: "p = (k, v)" by force
    have "map_put k v xs = xs @ [(k, v)]"
      using Cons.prems p by (intro map_put_snoc) (auto simp: map_ok_def sorted_wrt_append)
    with Cons p show ?case by simp
  qed simp
  from this [of "[]"] show "map_ok ms \<Longrightarrow> obj ms = JObj ms" by (simp add: obj_def)
qed

lemma join_start:
  assumes "xs \<noteq> []" "hd xs = c # t"
  shows "\<exists>u. join sep xs = c # u"
  using assms by (cases xs rule: remdups_adj.cases) auto

lemma jtext_start:
  assumes "wf_json v"
  shows "\<exists>c t. jtext v = c # t \<and> \<not> is_ws c \<and> c \<noteq> CHR '']''"
proof (cases v)
  case (JNum s)
  then obtain c t where "s = c # t" "is_digit c \<or> c = CHR ''-''"
    using valid_num_start [of s] assms by auto
  then show ?thesis using JNum by (auto simp: is_ws_def is_digit_def)
qed (use assms in \<open>auto simp: quote_def\<close>)

lemma jvalue_text:
  "wf_json v \<Longrightarrow> length (jtext v) \<le> f \<Longrightarrow> ends_value r \<Longrightarrow> jvalue f (jtext v @ r) = Some (v, r)"
proof (induction v arbitrary: f r)
  case (JNum s)
  then obtain g where "f = Suc g" using jtext_nonempty [of "JNum s"] by (cases f) auto
  then show ?case using JNum jvalue_number by simp
next
  case (JStr s)
  then obtain g where "f = Suc g" by (cases f) (auto simp: quote_def)
  then show ?case using str_body_quote [of s r] by (simp add: quote_def)
next
  case (JArr xs)
  then obtain g where f: "f = Suc g" by (cases f) auto
  show ?case
  proof (cases "xs = []")
    case False
    have "wf_json (hd xs)" using False JArr.prems(1) by (simp add: list_all_iff)
    then obtain c t where c: "jtext (hd xs) = c # t" "\<not> is_ws c" "c \<noteq> CHR '']''" using jtext_start by blast
    then obtain u where u: "join '','' (map jtext xs) = c # u"
      using join_start [of "map jtext xs" c t "'',''"] False by (auto simp: hd_map)
    have "jelems g (join '','' (map jtext xs) @ CHR '']'' # r) = Some (xs, r)"
      using JArr False f by (intro jelems_text) (auto simp: list_all_iff)
    then show ?thesis using u c f by simp
  qed (use f in simp)
next
  case (JObj ms)
  then obtain g where f: "f = Suc g" by (cases f) auto
  show ?case
  proof (cases "ms = []")
    case False
    let ?t = "map (\<lambda>(k, v). quote k @ '':'' @ jtext v) ms"
    obtain t where "hd ?t = CHR 0x22 # t" using False by (cases ms) (auto simp: quote_def)
    then obtain u where u: "join '','' ?t = CHR 0x22 # u"
      using join_start [of ?t "CHR 0x22" t "'',''"] False by auto
    have IH: "jvalue f (jtext x @ r) = Some (x, r)"
      if "(k, x) \<in> set ms" "length (jtext x) \<le> f" "ends_value r" for k x f r
      using JObj.IH [of "(k, x)" x f r] JObj.prems(1) that by (auto simp: list_all_iff)
    have "jmembers g (join '','' ?t @ CHR ''}'' # r) = Some (ms, r)"
      using JObj.prems False f IH by (intro jmembers_text) auto
    then show ?thesis using u f obj_sorted [of ms] JObj.prems(1) by simp
  qed (use f in simp)
next
  case JNull
  then show ?case by (cases f) (simp_all add: literal_def)
next
  case (JBool b)
  then show ?case by (cases f; cases b) (simp_all add: literal_def)
qed simp

lemma json_parse_jtext: "wf_json v \<Longrightarrow> json_parse (jtext v) = Some v"
  using jvalue_text [of v "Suc (length (jtext v))" "[]"] by (simp add: json_parse_def skip_ws_def)

lemma wf_json_encodable: "wf_json v \<Longrightarrow> encodable v"
  by (induction v) (auto simp: list_all_iff)

lemma string_elems_strings [simp]: "string_elems (map JStr ss) = Some ss"
  by (induction ss) simp_all

end
