(* ===== verification/Approval.thy ===== *)
theory Approval
  imports NetIP GoJson
begin

text \<open>
  Client-address restrictions on approvals (\<open>src/approval/scope.go\<close>).  A \<open>*Scope\<close> is
  \<open>scope option\<close>: \<open>None\<close> is the nil pointer, which restricts nothing.  The set \<open>seen\<close> of
  \<open>New\<close> is a list without repetitions; sorting by text makes the result independent of the order
  in which Go iterates over it.
\<close>

section \<open>The type and its operations\<close>

abbreviation MaxRanges :: nat where "MaxRanges \<equiv> 128"

definition Capability :: string where
  "Capability = ''approval_ranges_v1''"

record scope =
  prefixes :: "prefix list"

text \<open>The loop of \<open>New\<close> over the ranges: the masked prefixes seen so far.\<close>

fun parse_ranges :: "string list \<Rightarrow> prefix list \<Rightarrow> (prefix list) result" where
  "parse_ranges [] seen = Inr seen"
| "parse_ranges (raw # rs) seen =
     (case ParsePrefix raw of
        None \<Rightarrow> Inl (Errorf ''invalid approval CIDR %q'' [raw])
      | Some p \<Rightarrow>
          if Is4In6 (prefix_addr p) then Inl (Errorf ''invalid approval CIDR %q'' [raw])
          else parse_ranges rs (if Masked p \<in> set seen then seen else seen @ [Masked p]))"

definition Scope_New :: "string list \<Rightarrow> scope result" where
  "Scope_New ranges =
     (if ranges = [] \<or> MaxRanges < length ranges
      then Inl (Errorf ''approval_ranges requires 1..%d CIDRs'' [dec (int MaxRanges)])
      else case parse_ranges ranges [] of
             Inl e \<Rightarrow> Inl e
           | Inr seen \<Rightarrow> Inr \<lparr>prefixes = sort_key Prefix_String seen\<rparr>)"

definition Scope_Validate :: "scope option \<Rightarrow> unit result" where
  "Scope_Validate s =
     (case s of
        None \<Rightarrow> Inr ()
      | Some sc \<Rightarrow>
          if prefixes sc = [] \<or> MaxRanges < length (prefixes sc)
          then Inl (Errorf ''invalid empty or oversized approval scope'' [])
          else Inr ())"

definition Ranges :: "scope option \<Rightarrow> string list" where
  "Ranges s = (case s of None \<Rightarrow> [] | Some sc \<Rightarrow> map Prefix_String (prefixes sc))"

definition Allows :: "scope option \<Rightarrow> addr \<Rightarrow> bool" where
  "Allows s a =
     (case s of
        None \<Rightarrow> True
      | Some sc \<Rightarrow>
          if a = InvalidAddr \<or> Zone a \<noteq> [] then False
          else list_ex (\<lambda>p. Contains p (Unmap a)) (prefixes sc))"

definition Scope_MarshalJSON :: "scope \<Rightarrow> string result" where
  "Scope_MarshalJSON s =
     (case Scope_Validate (Some s) of
        Inl e \<Rightarrow> Inl e
      | Inr _ \<Rightarrow> json_Marshal (JArr (map JStr (Ranges (Some s)))))"

definition scope_of_json :: "json \<Rightarrow> scope result" where
  "scope_of_json v = (case strings_of_json v of Inl e \<Rightarrow> Inl e | Inr ranges \<Rightarrow> Scope_New ranges)"

definition Scope_UnmarshalJSON :: "string \<Rightarrow> scope result" where
  "Scope_UnmarshalJSON data =
     (case json_parse data of
        None \<Rightarrow> Inl (Errorf ''json: invalid syntax'' [])
      | Some v \<Rightarrow> scope_of_json v)"

text \<open>
  \<open>json.Unmarshal\<close> into a \<open>**Scope\<close>: \<open>null\<close> leaves the pointer nil without calling
  \<open>UnmarshalJSON\<close>.
\<close>

definition json_Unmarshal_scope :: "string \<Rightarrow> (scope option) result" where
  "json_Unmarshal_scope data =
     (case json_parse data of
        None \<Rightarrow> Inl (Errorf ''json: invalid syntax'' [])
      | Some JNull \<Rightarrow> Inr None
      | Some v \<Rightarrow> (case scope_of_json v of Inl e \<Rightarrow> Inl e | Inr s \<Rightarrow> Inr (Some s)))"

section \<open>Well-formed scopes\<close>

text \<open>A prefix whose bits below the prefix length are zero.\<close>

definition canonical_prefix :: "prefix \<Rightarrow> bool" where
  "canonical_prefix p \<longleftrightarrow> plain_prefix p \<and> Masked p = p"

definition scope_ok :: "scope \<Rightarrow> bool" where
  "scope_ok s \<longleftrightarrow>
     prefixes s \<noteq> [] \<and> length (prefixes s) \<le> MaxRanges \<and> list_all canonical_prefix (prefixes s) \<and>
     sorted_wrt (<) (map Prefix_String (prefixes s))"

lemma Masked_idem [simp]: "Masked (Masked p) = Masked p"
  by (auto simp: Masked_def split: prefix.splits addr.splits)

lemma Is4In6_clear_low:
  assumes "Is4In6 (Addr6 (clear_low n w) z)"
  shows "Is4In6 (Addr6 w z')"
proof -
  have eq: "drop_bit 32 (clear_low n w) = 0xFFFF" using assms by (simp add: Is4In6_def)
  then have "bit (drop_bit 32 (clear_low n w)) 0" by simp
  then have "n \<le> 32" by (simp add: bit_simps bit_clear_low)
  then have "drop_bit 32 (clear_low n w) = drop_bit 32 w"
    by (intro bit_eqI) (auto simp: bit_simps bit_clear_low)
  with eq show ?thesis by (simp add: Is4In6_def)
qed

lemma plain_prefix_Masked: "plain_prefix p \<Longrightarrow> plain_prefix (Masked p)"
  using Is4In6_clear_low by (cases p rule: plain_prefix.cases) (auto simp: Masked_def)

lemma canonical_Masked: "plain_prefix p \<Longrightarrow> canonical_prefix (Masked p)"
  by (simp add: canonical_prefix_def plain_prefix_Masked)

lemma Contains_Masked [simp]: "Contains (Masked p) a = Contains p a"
  by (cases p rule: plain_prefix.cases; cases a)
    (simp_all add: Contains_def Masked_def drop_bit_xor_zero_iff drop_bit_clear_low)

lemma ParsePrefix_plain:
  assumes "ParsePrefix s = Some p" "\<not> Is4In6 (prefix_addr p)"
  shows "plain_prefix p"
proof -
  obtain a bs ip where a: "ParseAddr a = Some ip" and z: "Zone ip = []"
    and p: "p = Prefix ip (nat (digits_val bs))"
    and le: "digits_val bs \<le> (case ip of Addr4 _ \<Rightarrow> 32 | _ \<Rightarrow> 128)"
    using assms(1) by (auto simp: ParsePrefix_def Let_def not_less split: option.splits if_splits)
  have "ip \<noteq> InvalidAddr" using a by (rule ParseAddr_valid)
  then show ?thesis using z p le assms(2) by (cases ip) (auto simp: Zone_def)
qed

lemma Prefix_String_inj: "plain_prefix p \<Longrightarrow> plain_prefix q \<Longrightarrow> Prefix_String p = Prefix_String q \<Longrightarrow> p = q"
  by (metis ParsePrefix_String option.inject)

text \<open>What the loop of \<open>New\<close> collects: exactly the masked prefixes of its input, once each.\<close>

lemma parse_ranges_spec:
  assumes "parse_ranges rs seen = Inr out" "distinct seen" "\<forall>p\<in>set seen. canonical_prefix p"
  shows "distinct out \<and> (\<forall>p\<in>set out. canonical_prefix p) \<and> length out \<le> length seen + length rs
    \<and> set out = set seen \<union> {Masked p | p. \<exists>r\<in>set rs. ParsePrefix r = Some p}
    \<and> (seen \<noteq> [] \<or> rs \<noteq> [] \<longrightarrow> out \<noteq> [])"
  using assms
proof (induction rs seen rule: parse_ranges.induct)
  case (2 raw rs seen)
  from "2.prems"(1) obtain p where p: "ParsePrefix raw = Some p" "\<not> Is4In6 (prefix_addr p)"
    by (auto split: option.splits if_splits)
  let ?seen = "if Masked p \<in> set seen then seen else seen @ [Masked p]"
  have c: "canonical_prefix (Masked p)" using ParsePrefix_plain [OF p] by (rule canonical_Masked)
  have "distinct out \<and> (\<forall>p\<in>set out. canonical_prefix p) \<and> length out \<le> length ?seen + length rs
    \<and> set out = set ?seen \<union> {Masked p | p. \<exists>r\<in>set rs. ParsePrefix r = Some p}
    \<and> (?seen \<noteq> [] \<or> rs \<noteq> [] \<longrightarrow> out \<noteq> [])"
  proof (rule "2.IH" [OF p])
    show "parse_ranges rs ?seen = Inr out" using "2.prems"(1) p by simp
    show "distinct ?seen" using "2.prems"(2) by simp
    show "\<forall>p\<in>set ?seen. canonical_prefix p" using "2.prems"(3) c by simp
  qed
  moreover have "?seen \<noteq> []" by auto
  ultimately show ?case using p by (auto split: if_splits)
qed simp

lemma Scope_New_Inr:
  assumes "Scope_New rs = Inr s"
  obtains seen where "parse_ranges rs [] = Inr seen" "prefixes s = sort_key Prefix_String seen"
    "rs \<noteq> []" "length rs \<le> MaxRanges"
  using assms by (auto simp: Scope_New_def split: if_splits sum.splits)

lemma Scope_New_set:
  assumes "Scope_New rs = Inr s"
  shows "set (prefixes s) = {Masked p | p. \<exists>r\<in>set rs. ParsePrefix r = Some p}"
proof -
  obtain seen where "parse_ranges rs [] = Inr seen" "prefixes s = sort_key Prefix_String seen"
    using assms by (rule Scope_New_Inr)
  then show ?thesis using parse_ranges_spec [of rs "[]" seen] by simp
qed

lemma Scope_New_scope_ok:
  assumes "Scope_New rs = Inr s"
  shows "scope_ok s"
proof -
  obtain seen where seen: "parse_ranges rs [] = Inr seen" "prefixes s = sort_key Prefix_String seen"
    "rs \<noteq> []" "length rs \<le> MaxRanges" using assms by (rule Scope_New_Inr)
  have spec: "distinct seen" "\<forall>p\<in>set seen. canonical_prefix p" "length seen \<le> length rs" "seen \<noteq> []"
    using parse_ranges_spec [OF seen(1)] seen(3) by simp_all
  have "inj_on Prefix_String (set seen)"
    using spec(2) Prefix_String_inj by (auto simp: inj_on_def canonical_prefix_def)
  then have "distinct (map Prefix_String (prefixes s))"
    using spec(1) by (simp add: seen(2) distinct_map)
  moreover have "sorted (map Prefix_String (prefixes s))" by (simp add: seen(2))
  ultimately have "sorted_wrt (<) (map Prefix_String (prefixes s))"
    by (simp add: strict_sorted_iff)
  moreover have "length (prefixes s) = length seen" by (simp add: seen(2))
  then have "prefixes s \<noteq> []" "length (prefixes s) \<le> MaxRanges"
    using spec(3,4) seen(4) by (auto simp del: length_greater_0_conv simp flip: length_greater_0_conv)
  ultimately show ?thesis
    using spec(2) seen(2) by (simp add: scope_ok_def list_all_iff)
qed

lemma Scope_New_Ranges:
  assumes "scope_ok s"
  shows "Scope_New (Ranges (Some s)) = Inr s"
proof -
  let ?ps = "prefixes s"
  have ok: "\<forall>p\<in>set ?ps. canonical_prefix p" and sorted: "sorted_wrt (<) (map Prefix_String ?ps)"
    using assms by (auto simp: scope_ok_def list_all_iff)
  have "parse_ranges (map Prefix_String qs) seen = Inr (seen @ qs)"
    if "\<forall>p\<in>set qs. canonical_prefix p" "distinct (seen @ qs)" for qs seen
    using that
  proof (induction qs arbitrary: seen)
    case (Cons q qs)
    then have q: "ParsePrefix (Prefix_String q) = Some q" "Masked q = q" "\<not> Is4In6 (prefix_addr q)"
      by (auto simp: canonical_prefix_def ParsePrefix_String intro: plain_prefix.cases [of q])
        (cases q rule: plain_prefix.cases; simp add: Is4In6_def)
    then show ?case using Cons by simp
  qed simp
  moreover have dist: "distinct ?ps" using sorted by (metis distinct_map strict_sorted_iff)
  ultimately have "parse_ranges (map Prefix_String ?ps) [] = Inr ?ps" using ok by simp
  moreover have "sort_key Prefix_String ?ps = ?ps"
    using sorted by (intro sort_key_id_if_sorted) (simp add: strict_sorted_iff)
  ultimately show ?thesis
    using assms by (simp add: Scope_New_def Ranges_def scope_ok_def)
qed

lemma scope_json_roundtrip:
  assumes "scope_ok s"
  shows "\<exists>t. Scope_MarshalJSON s = Inr t \<and> Scope_UnmarshalJSON t = Inr s \<and> json_Unmarshal_scope t = Inr (Some s)"
proof -
  let ?v = "JArr (map JStr (Ranges (Some s)))"
  have wf: "wf_json ?v" by (simp add: list_all_iff)
  have "Scope_MarshalJSON s = Inr (jtext ?v)"
    using assms wf_json_encodable [OF wf]
    by (simp add: Scope_MarshalJSON_def Scope_Validate_def scope_ok_def json_Marshal_def)
  moreover have "scope_of_json ?v = Inr s"
    using Scope_New_Ranges [OF assms] by (simp add: scope_of_json_def strings_of_json_def)
  ultimately show ?thesis
    using json_parse_jtext [OF wf] by (simp add: Scope_UnmarshalJSON_def json_Unmarshal_scope_def)
qed

section \<open>Properties\<close>

text \<open>C26: whatever CIDR list an operator or the control plane supplies, a scope that is built is
  nonempty, has at most 128 prefixes, each of them masked and none IPv4-mapped, in strictly
  increasing text order; it passes its own validation.\<close>

theorem Scope_New_valid:
  assumes "Scope_New rs = Inr s"
  shows "scope_ok s \<and> Scope_Validate (Some s) = Inr ()"
  using Scope_New_scope_ok [OF assms] by (simp add: Scope_Validate_def scope_ok_def)

theorem Scope_New_valid_witness:
  "scope_ok \<lparr>prefixes = [Prefix (Addr4 0xC0000200) 24]\<rparr>
     \<and> Scope_Validate (Some \<lparr>prefixes = [Prefix (Addr4 0xC0000200) 24]\<rparr>) = Inr ()"
proof -
  have "Scope_New [''192.0.2.9/24'', ''192.0.2.0/24''] = Inr \<lparr>prefixes = [Prefix (Addr4 0xC0000200) 24]\<rparr>"
    by code_simp
  then show ?thesis by (rule Scope_New_valid)
qed

text \<open>C4: a scope admits a client exactly when the client has a valid address without a zone and
  some CIDR of the operator's list contains it after unmapping; masking, removing duplicates and
  sorting change nothing.\<close>

theorem Allows_New:
  assumes "Scope_New rs = Inr s"
  shows "Allows (Some s) a \<longleftrightarrow>
    a \<noteq> InvalidAddr \<and> Zone a = [] \<and> (\<exists>r\<in>set rs. \<exists>p. ParsePrefix r = Some p \<and> Contains p (Unmap a))"
proof -
  have "list_ex (\<lambda>p. Contains p (Unmap a)) (prefixes s) \<longleftrightarrow>
      (\<exists>r\<in>set rs. \<exists>p. ParsePrefix r = Some p \<and> Contains p (Unmap a))"
    unfolding list_ex_iff Scope_New_set [OF assms] using Contains_Masked by blast
  then show ?thesis by (simp add: Allows_def)
qed

theorem Allows_New_witness:
  "Allows (Some \<lparr>prefixes = [Prefix (Addr4 0xC0000200) 24]\<rparr>) (Addr4 0xC0000219) \<longleftrightarrow>
    Addr4 0xC0000219 \<noteq> InvalidAddr \<and> Zone (Addr4 0xC0000219) = [] \<and>
    (\<exists>r\<in>set [''192.0.2.9/24'']. \<exists>p. ParsePrefix r = Some p \<and> Contains p (Unmap (Addr4 0xC0000219)))"
proof -
  have "Scope_New [''192.0.2.9/24''] = Inr \<lparr>prefixes = [Prefix (Addr4 0xC0000200) 24]\<rparr>"
    by code_simp
  then show ?thesis by (rule Allows_New)
qed

text \<open>\<open>New\<close> fails exactly on an empty list, on more than 128 entries, or when some entry is not a
  CIDR or is an IPv4-mapped IPv6 one; an empty scope is never built.\<close>

theorem Scope_New_error:
  "(\<exists>e. Scope_New rs = Inl e) \<longleftrightarrow>
    rs = [] \<or> 128 < length rs \<or>
    (\<exists>r\<in>set rs. case ParsePrefix r of None \<Rightarrow> True | Some p \<Rightarrow> Is4In6 (prefix_addr p))"
proof -
  have "(\<exists>e. parse_ranges rs seen = Inl e) \<longleftrightarrow>
      (\<exists>r\<in>set rs. case ParsePrefix r of None \<Rightarrow> True | Some p \<Rightarrow> Is4In6 (prefix_addr p))" for seen
    by (induction rs seen rule: parse_ranges.induct) (auto split: option.splits)
  from this [of "[]"] show ?thesis
    by (auto simp: Scope_New_def split: sum.splits)
qed

text \<open>A valid scope survives being stored: its JSON text decodes to the same scope, so reading
  an approval back can neither drop nor widen its restriction.\<close>

theorem Scope_json_roundtrip:
  assumes "scope_ok s"
  shows "\<exists>t. Scope_MarshalJSON s = Inr t \<and> Scope_UnmarshalJSON t = Inr s
    \<and> json_Unmarshal_scope t = Inr (Some s)"
  by (rule scope_json_roundtrip [OF assms])

theorem Scope_json_roundtrip_witness:
  "\<exists>t. Scope_MarshalJSON \<lparr>prefixes = [Prefix (Addr6 0x20010DB8000000000000000000000000 []) 32]\<rparr> = Inr t
    \<and> Scope_UnmarshalJSON t = Inr \<lparr>prefixes = [Prefix (Addr6 0x20010DB8000000000000000000000000 []) 32]\<rparr>
    \<and> json_Unmarshal_scope t = Inr (Some \<lparr>prefixes = [Prefix (Addr6 0x20010DB8000000000000000000000000 []) 32]\<rparr>)"
proof -
  have "scope_ok \<lparr>prefixes = [Prefix (Addr6 0x20010DB8000000000000000000000000 []) 32]\<rparr>"
    by code_simp
  then show ?thesis by (rule Scope_json_roundtrip)
qed

text \<open>An IPv4 client that arrives as an IPv4-mapped IPv6 address gets the same answer as the
  plain IPv4 address.\<close>

theorem Allows_mapped:
  "Allows s (Addr6 (push_bit 32 0xFFFF OR ucast (w :: 32 word)) []) = Allows s (Addr4 w)"
proof -
  let ?m = "push_bit 32 0xFFFF OR ucast w :: 128 word"
  have "drop_bit 32 (ucast w :: 128 word) = 0"
    by (rule bit_eqI) (auto simp: bit_simps dest: bit_imp_le_length)
  then have "drop_bit 32 ?m = 0xFFFF"
    by (simp add: drop_bit_or)
  moreover have "(ucast ?m :: 32 word) = w"
  proof (rule bit_word_eqI)
    fix n
    assume "n < LENGTH(32)"
    moreover from this have "\<not> bit (push_bit 32 0xFFFF :: 128 word) n"
      by (simp only: bit_push_bit_iff) simp
    ultimately show "bit (ucast ?m :: 32 word) n = bit w n"
      by (simp only: bit_ucast_iff bit_or_iff) (simp add: bit_ucast_iff)
  qed
  ultimately have "Unmap (Addr6 ?m []) = Addr4 w" "Unmap (Addr4 w) = Addr4 w"
    unfolding Unmap_def Is4In6_def addr.case by (simp_all only: if_True HOL.simp_thms)
  then show ?thesis
    unfolding Allows_def Zone_def addr.case by (simp only: addr.distinct HOL.simp_thms)
qed

end
