(* ===== verification/GoTime.thy ===== *)
theory GoTime
  imports Prelude "HOL-Library.Monad_Syntax"
begin

text \<open>
  Timestamps as the store writes them (\<open>src/store/time.go\<close>).  An instant is the number of
  nanoseconds since 0001-01-01T00:00:00Z, so that \<open>0\<close> is Go's zero \<open>time.Time\<close>.  The calendar, the
  layout \<open>time.RFC3339Nano\<close> and its parser follow Go's \<open>time\<close> package: the formatter drops trailing
  zeros of the fraction, the parser takes a one-digit hour, a comma for the point, any number of
  fraction digits and a numeric zone.
\<close>

type_synonym time = int

abbreviation second :: int where "second \<equiv> 1000000000"

section \<open>The calendar\<close>

definition is_leap :: "int \<Rightarrow> bool" where
  "is_leap y \<longleftrightarrow> y mod 4 = 0 \<and> (y mod 100 \<noteq> 0 \<or> y mod 400 = 0)"

definition month_lengths :: "bool \<Rightarrow> int list" where
  "month_lengths leap = [31, if leap then 29 else 28, 31, 30, 31, 30, 31, 31, 30, 31, 30, 31]"

text \<open>Days from 0001-01-01 to January 1st of a year.\<close>

definition days_before_year :: "int \<Rightarrow> int" where
  "days_before_year y = 365 * (y - 1) + (y - 1) div 4 - (y - 1) div 100 + (y - 1) div 400"

definition days_before_month :: "bool \<Rightarrow> int \<Rightarrow> int" where
  "days_before_month leap m = sum_list (take (nat (m - 1)) (month_lengths leap))"

definition days_in :: "int \<Rightarrow> int \<Rightarrow> int" where
  "days_in m y = month_lengths (is_leap y) ! nat (m - 1)"

definition days_of_civil :: "int \<Rightarrow> int \<Rightarrow> int \<Rightarrow> int" where
  "days_of_civil y m d = days_before_year y + days_before_month (is_leap y) m + (d - 1)"

text \<open>Year and day of the year, by cutting off cycles of 400, 100, 4 and 1 years as \<open>time\<close> does.\<close>

definition year_yday :: "int \<Rightarrow> int \<times> int" where
  "year_yday n =
     (let n400 = n div 146097; r400 = n mod 146097;
          n100 = min 3 (r400 div 36524); r100 = r400 - 36524 * n100;
          n4 = r100 div 1461; r4 = r100 mod 1461;
          n1 = min 3 (r4 div 365)
      in (400 * n400 + 100 * n100 + 4 * n4 + n1 + 1, r4 - 365 * n1))"

fun month_day :: "int \<Rightarrow> int list \<Rightarrow> int \<Rightarrow> int \<times> int" where
  "month_day m [] d = (m, d + 1)"
| "month_day m (l # ls) d = (if d < l then (m, d + 1) else month_day (m + 1) ls (d - l))"

definition civil_of_days :: "int \<Rightarrow> int \<times> int \<times> int" where
  "civil_of_days n =
     (let (y, yd) = year_yday n; (m, d) = month_day 1 (month_lengths (is_leap y)) yd in (y, m, d))"

section \<open>Formatting\<close>

text \<open>\<open>appendInt\<close>: the decimal text of \<open>x\<close>, zero-padded to width \<open>w\<close>.\<close>

definition append_int :: "nat \<Rightarrow> int \<Rightarrow> string" where
  "append_int w x =
     (let ds = dec \<bar>x\<bar>
      in (if x < 0 then ''-'' else '''') @ replicate (w - length ds) (CHR ''0'') @ ds)"

text \<open>\<open>.999999999\<close>: nine digits with trailing zeros removed, nothing at all for zero.\<close>

definition fraction :: "int \<Rightarrow> string" where
  "fraction ns =
     (let ds = rev (dropWhile (\<lambda>c. c = CHR ''0'') (rev (pad 9 ns)))
      in if ds = [] then [] else CHR ''.'' # ds)"

definition seconds_text :: "time \<Rightarrow> string" where
  "seconds_text t =
     (let s = t div second; (y, m, d) = civil_of_days (s div 86400); r = s mod 86400
      in append_int 4 y @ ''-'' @ append_int 2 m @ ''-'' @ append_int 2 d @ ''T'' @
         append_int 2 (r div 3600) @ '':'' @ append_int 2 (r div 60 mod 60) @ '':'' @
         append_int 2 (r mod 60))"

definition encodeTime :: "time \<Rightarrow> string" where
  "encodeTime t = seconds_text t @ fraction (t mod second) @ ''Z''"

section \<open>Parsing\<close>

definition guard_opt :: "bool \<Rightarrow> unit option" where
  "guard_opt b = (if b then Some () else None)"

fun skip_char :: "char \<Rightarrow> string \<Rightarrow> string option" where
  "skip_char c [] = None"
| "skip_char c (x # r) = (if x = c then Some r else None)"

fun getnum :: "bool \<Rightarrow> string \<Rightarrow> (int \<times> string) option" where
  "getnum fixed [] = None"
| "getnum fixed [c] = (if is_digit c \<and> \<not> fixed then Some (digit_val c, []) else None)"
| "getnum fixed (c # d # r) =
     (if \<not> is_digit c then None
      else if is_digit d then Some (10 * digit_val c + digit_val d, r)
      else if fixed then None else Some (digit_val c, d # r))"

definition get_year :: "string \<Rightarrow> (int \<times> string) option" where
  "get_year s =
     (if 4 \<le> length s \<and> list_all is_digit (take 4 s)
      then Some (digits_val (take 4 s), drop 4 s) else None)"

fun get_fraction :: "string \<Rightarrow> int \<times> string" where
  "get_fraction (p # d # r) =
     (if (p = CHR ''.'' \<or> p = CHR '','') \<and> is_digit d
      then let ds = takeWhile is_digit (d # r); ns = take 9 ds
           in (digits_val ns * 10 ^ (9 - length ns), dropWhile is_digit (d # r))
      else (0, p # d # r))"
| "get_fraction s = (0, s)"

text \<open>\<open>Z07:00\<close>: the offset from UTC in seconds.\<close>

definition get_zone :: "string \<Rightarrow> (int \<times> string) option" where
  "get_zone s =
     (case s of [] \<Rightarrow> None
      | z # r \<Rightarrow>
        if z = CHR ''Z'' then Some (0, r)
        else if length s < 6 \<or> s ! 3 \<noteq> CHR '':'' then None
        else do {
          (hr, _) \<leftarrow> getnum True (take 2 r);
          (mm, _) \<leftarrow> getnum True (take 2 (drop 3 r));
          guard_opt (hr \<le> 24 \<and> mm \<le> 60);
          guard_opt (z = CHR ''+'' \<or> z = CHR ''-'');
          Some ((if z = CHR ''-'' then -1 else 1) * ((hr * 60 + mm) * 60), drop 5 r) })"

text \<open>\<open>time.Parse(time.RFC3339Nano, \<dots>)\<close>, returning the text that is left.\<close>

definition parse_rfc3339 :: "string \<Rightarrow> (time \<times> string) option" where
  "parse_rfc3339 s0 = do {
     (y, s) \<leftarrow> get_year s0; s \<leftarrow> skip_char (CHR ''-'') s;
     (mo, s) \<leftarrow> getnum True s; guard_opt (1 \<le> mo \<and> mo \<le> 12); s \<leftarrow> skip_char (CHR ''-'') s;
     (d, s) \<leftarrow> getnum True s; s \<leftarrow> skip_char (CHR ''T'') s;
     (h, s) \<leftarrow> getnum False s; guard_opt (h < 24); s \<leftarrow> skip_char (CHR '':'') s;
     (mi, s) \<leftarrow> getnum True s; guard_opt (mi < 60); s \<leftarrow> skip_char (CHR '':'') s;
     (sec, s) \<leftarrow> getnum True s; guard_opt (sec < 60);
     let (ns, s) = get_fraction s;
     (off, s) \<leftarrow> get_zone s;
     guard_opt (1 \<le> d \<and> d \<le> days_in mo y);
     Some ((days_of_civil y mo d * 86400 + h * 3600 + mi * 60 + sec - off) * second + ns, s) }"

definition decodeTime :: "string \<Rightarrow> time result" where
  "decodeTime s =
     (case parse_rfc3339 s of
        Some (t, []) \<Rightarrow> Inr t
      | _ \<Rightarrow> Inl (Errorf ''parsing time %q'' [s]))"

section \<open>The Time wrapper\<close>

text \<open>\<open>Time.MarshalJSON\<close> and \<open>Time.UnmarshalJSON\<close>: a zero time is the empty JSON string.\<close>

definition Time_MarshalJSON :: "time \<Rightarrow> string" where
  "Time_MarshalJSON t =
     (if t = 0 then [CHR 0x22, CHR 0x22] else [CHR 0x22] @ encodeTime t @ [CHR 0x22])"

definition Time_UnmarshalJSON :: "string \<Rightarrow> time result" where
  "Time_UnmarshalJSON data =
     (if data = [CHR 0x22, CHR 0x22] \<or> data = ''null'' then Inr 0
      else case do { s \<leftarrow> skip_char (CHR 0x22) data; (t, r) \<leftarrow> parse_rfc3339 s;
                     r \<leftarrow> skip_char (CHR 0x22) r; guard_opt (r = []); Some t } of
             Some t \<Rightarrow> Inr t
           | None \<Rightarrow> Inl (Errorf ''parsing time %q'' [data]))"

section \<open>Calendar arithmetic\<close>

lemma year_yday_days:
  assumes "year_yday n = (y, yd)"
  shows "days_before_year y + yd = n" "0 \<le> yd" "yd < (if is_leap y then 366 else 365)"
proof -
  define a r where "a = n div 146097" and "r = n mod 146097"
  define b r1 where "b = min 3 (r div 36524)" and "r1 = r - 36524 * b"
  define c r2 where "c = r1 div 1461" and "r2 = r1 mod 1461"
  define e where "e = min 3 (r2 div 365)"
  have n: "n = 146097 * a + r" "0 \<le> r" "r < 146097" by (simp_all add: a_def r_def)
  have b: "0 \<le> b" "b \<le> 3" and r1: "0 \<le> r1" "r1 < (if b = 3 then 36525 else 36524)"
    using n unfolding b_def r1_def by (auto simp: min_def)
  have r2: "r1 = 1461 * c + r2" "0 \<le> r2" "r2 < 1461" by (simp_all add: c_def r2_def)
  have c: "0 \<le> c" "c \<le> 24" using r1 r2 by (auto split: if_splits)
  have e: "0 \<le> e" "e \<le> 3" and yd0: "0 \<le> r2 - 365 * e" "r2 - 365 * e < (if e = 3 then 366 else 365)"
    using r2 unfolding e_def by (auto simp: min_def)
  have y: "y = 400 * a + 100 * b + 4 * c + e + 1" and yd: "yd = r2 - 365 * e"
    using assms unfolding year_yday_def Let_def
      a_def[symmetric] r_def[symmetric] b_def[symmetric] r1_def[symmetric]
      c_def[symmetric] r2_def[symmetric] e_def[symmetric] by auto
  have d4: "(y - 1) div 4 = 100 * a + 25 * b + c" using y e by simp
  have d100: "(y - 1) div 100 = 4 * a + b" using y e c by simp
  have d400: "(y - 1) div 400 = a" using y e c b by simp
  show "days_before_year y + yd = n"
    unfolding days_before_year_def d4 d100 d400 using n r2 r1_def y yd by simp
  show "0 \<le> yd" using yd yd0 by simp
  have "is_leap y" if "e = 3" "r2 - 365 * e \<ge> 365"
  proof -
    have "c < 24 \<or> c = 24 \<and> b = 3" using that r2 r1 c b by (auto split: if_splits)
    then show ?thesis
    proof
      assume "c < 24"
      moreover have "y = 4 * (c + 1) + 100 * (4 * a + b)" using y that by simp
      then have "y mod 100 = 4 * (c + 1) mod 100" by (simp only: mod_mult_self2)
      moreover have "y = 4 * (100 * a + 25 * b + c + 1)" using y that by simp
      then have "y mod 4 = 0" by (simp only: mod_mult_self1_is_0)
      ultimately show ?thesis using c by (simp add: is_leap_def)
    next
      assume "c = 24 \<and> b = 3"
      then have "y = 400 * (a + 1)" using y that by simp
      then show ?thesis by (simp add: is_leap_def)
    qed
  qed
  then show "yd < (if is_leap y then 366 else 365)"
    using yd yd0 by (cases "365 \<le> r2 - 365 * e") (auto split: if_splits)
qed

lemma month_day_spec:
  assumes "month_day m ls d = (m', d')" and "0 \<le> d" "d < sum_list ls"
  shows "m \<le> m' \<and> m' < m + int (length ls) \<and> 1 \<le> d' \<and> d' \<le> ls ! nat (m' - m)
    \<and> d = sum_list (take (nat (m' - m)) ls) + (d' - 1)"
  using assms
proof (induction m ls d rule: month_day.induct)
  case (2 m l ls d)
  show ?case
  proof (cases "d < l")
    case True
    with 2 show ?thesis by auto
  next
    case False
    with 2 have "m + 1 \<le> m'" and IH: "m' < m + 1 + int (length ls)" "1 \<le> d'"
        "d' \<le> ls ! nat (m' - (m + 1))" "d - l = sum_list (take (nat (m' - (m + 1))) ls) + (d' - 1)"
      by auto
    moreover from this have "nat (m' - m) = Suc (nat (m' - (m + 1)))" by simp
    ultimately show ?thesis by simp
  qed
qed simp

lemma civil_of_days_spec:
  assumes "civil_of_days n = (y, m, d)"
  shows "days_of_civil y m d = n" "1 \<le> m" "m \<le> 12" "1 \<le> d" "d \<le> days_in m y"
proof -
  obtain yd where yd: "year_yday n = (y, yd)"
    and md: "month_day 1 (month_lengths (is_leap y)) yd = (m, d)"
    using assms by (auto simp: civil_of_days_def split: prod.splits)
  have "sum_list (month_lengths (is_leap y)) = (if is_leap y then 366 else 365)"
    by (simp add: month_lengths_def)
  with month_day_spec [OF md] year_yday_days [OF yd]
  have *: "1 \<le> m \<and> m < 1 + int (length (month_lengths (is_leap y))) \<and> 1 \<le> d
      \<and> d \<le> month_lengths (is_leap y) ! nat (m - 1)
      \<and> yd = sum_list (take (nat (m - 1)) (month_lengths (is_leap y))) + (d - 1)"
    by simp
  then show "1 \<le> m" "1 \<le> d" "d \<le> days_in m y" by (simp_all add: days_in_def)
  show "m \<le> 12" using * by (simp add: month_lengths_def)
  show "days_of_civil y m d = n"
    using * year_yday_days(1) [OF yd] by (simp add: days_of_civil_def days_before_month_def)
qed

lemma days_in_le: "1 \<le> m \<Longrightarrow> m \<le> 12 \<Longrightarrow> days_in m y \<le> 31"
proof -
  assume "1 \<le> m" "m \<le> 12"
  then have "nat (m - 1) < length (month_lengths (is_leap y))" by (simp add: month_lengths_def)
  then have "days_in m y \<in> set (month_lengths (is_leap y))" by (simp add: days_in_def)
  then show ?thesis by (auto simp: month_lengths_def split: if_splits)
qed

lemma pad_0: "pad k 0 = replicate k (CHR ''0'')"
  by (induction k) (simp_all add: replicate_append_same)

lemma pad_dec:
  assumes "0 \<le> n" "n < 10 ^ Suc w"
  shows "replicate (Suc w - length (dec n)) (CHR ''0'') @ dec n = pad (Suc w) n"
  using assms
proof (induction w arbitrary: n)
  case 0
  then show ?case by (simp add: dec.simps [of n])
next
  case (Suc w)
  show ?case
  proof (cases "n < 10")
    case True
    have "n div 10 = 0" using True Suc.prems by simp
    with True Suc.prems show ?thesis
      by (simp add: dec.simps [of n] pad_0 replicate_append_same)
  next
    case False
    have "n div 10 < 10 ^ Suc w" using Suc.prems by (simp add: int_div_less_iff)
    with Suc.IH [of "n div 10"] Suc.prems
    have "replicate (Suc w - length (dec (n div 10))) (CHR ''0'') @ dec (n div 10) = pad (Suc w) (n div 10)"
      by (simp add: pos_imp_zdiv_nonneg_iff)
    with False show ?thesis by (simp add: dec.simps [of n])
  qed
qed

lemma append_int_pad: "0 \<le> x \<Longrightarrow> x < 10 ^ Suc w \<Longrightarrow> append_int (Suc w) x = pad (Suc w) x"
  using pad_dec [of x w] by (simp add: append_int_def)


lemma pred_div:
  fixes y k :: int
  assumes "0 < k"
  shows "y div k = (y - 1) div k + (if y mod k = 0 then 1 else 0)"
proof (cases "y mod k = 0")
  case True
  then have "y - 1 = k * (y div k - 1) + (k - 1)"
    by (metis add_diff_cancel_left' diff_add_eq diff_diff_eq2 mod_mult_div_eq mult.right_neutral right_diff_distrib add.left_neutral)
  then have "(y - 1) div k = y div k - 1"
    using assms by (intro int_div_pos_eq [of _ _ _ "k - 1"]) auto
  with True show ?thesis by simp
next
  case False
  then have "y - 1 = k * (y div k) + (y mod k - 1)" "0 \<le> y mod k - 1" "y mod k - 1 < k"
    using assms pos_mod_sign [of k y] pos_mod_bound [of k y] False by (simp, linarith+)
  then have "(y - 1) div k = y div k" by (rule int_div_pos_eq)
  with False show ?thesis by simp
qed

lemma days_before_year_step:
  "days_before_year (y + 1) = days_before_year y + (if is_leap y then 366 else 365)"
proof -
  define p4 p100 p400 where "p4 = (y mod 4 = 0)" and "p100 = (y mod 100 = 0)" and "p400 = (y mod 400 = 0)"
  have gen: "365 * y + a' - b' + c' = 365 * (y - 1) + a - b + c + 365 + u - v + w"
    if "a' = a + u" "b' = b + v" "c' = c + w" for a a' b b' c c' u v w :: int
    using that by simp
  have dvd: "(4::int) dvd 100" "(100::int) dvd 400" by simp_all
  have imp: "p100 \<Longrightarrow> p4" "p400 \<Longrightarrow> p100"
    unfolding p4_def p100_def p400_def mod_eq_0_iff_dvd using dvd by (blast intro: dvd_trans)+
  have "days_before_year (y + 1) = 365 * y + y div 4 - y div 100 + y div 400"
    by (simp add: days_before_year_def)
  also have "\<dots> = days_before_year y + 365
      + (if p4 then 1 else 0) - (if p100 then 1 else 0) + (if p400 then 1 else 0)"
    unfolding days_before_year_def p4_def p100_def p400_def by (rule gen; rule pred_div) simp_all
  also have "\<dots> = days_before_year y + (if is_leap y then 366 else 365)"
    unfolding is_leap_def p4_def [symmetric] p100_def [symmetric] p400_def [symmetric]
    using imp by simp
  finally show ?thesis .
qed

lemma days_before_year_mono:
  assumes "y < z"
  shows "days_before_year y + (if is_leap y then 366 else 365) \<le> days_before_year z"
proof -
  have "y + 1 \<le> z" using assms by simp
  then show ?thesis
  proof (induction z rule: int_ge_induct)
    case base
    then show ?case by (simp add: days_before_year_step)
  next
    case (step i)
    then show ?case using days_before_year_step [of i] by (auto split: if_splits)
  qed
qed

section \<open>Encoding and decoding are inverse\<close>

text \<open>The instants whose year has four digits, which is what the layout can express.\<close>

definition four_digit_year :: "time \<Rightarrow> bool" where
  "four_digit_year t \<longleftrightarrow>
     days_before_year 0 * 86400 * second \<le> t \<and> t < days_before_year 10000 * 86400 * second"

lemma civil_year_range:
  assumes "four_digit_year t" and "civil_of_days (t div second div 86400) = (y, m, d)"
  shows "0 \<le> y" "y < 10000"
proof -
  obtain yd where yd: "year_yday (t div second div 86400) = (y, yd)"
    using assms(2) by (auto simp: civil_of_days_def split: prod.splits)
  note n = year_yday_days [OF yd]
  have range: "days_before_year 0 \<le> t div second div 86400" "t div second div 86400 < days_before_year 10000"
    using assms(1)
    by (simp_all add: four_digit_year_def int_le_div_iff int_div_less_iff)
  show "0 \<le> y"
  proof (rule ccontr)
    assume "\<not> 0 \<le> y"
    then have "days_before_year y + (if is_leap y then 366 else 365) \<le> days_before_year 0"
      using days_before_year_mono [of y 0] by simp
    with n range show False by simp
  qed
  show "y < 10000"
  proof (rule ccontr)
    assume "\<not> y < 10000"
    then have "days_before_year 10000 \<le> days_before_year y"
      using days_before_year_mono [of 10000 y] by (cases "y = 10000") (auto split: if_splits)
    with n range show False by simp
  qed
qed

lemma seconds_text_pad:
  assumes "four_digit_year t" and c: "civil_of_days (t div second div 86400) = (y, m, d)"
    and r: "r = t div second mod 86400"
  shows "seconds_text t = pad 4 y @ ''-'' @ pad 2 m @ ''-'' @ pad 2 d @ ''T'' @
     pad 2 (r div 3600) @ '':'' @ pad 2 (r div 60 mod 60) @ '':'' @ pad 2 (r mod 60)"
proof -
  note y = civil_year_range [OF assms(1,2)]
  note v = civil_of_days_spec [OF c]
  have d: "d < 100" using v days_in_le [of m y] by simp
  have rr: "0 \<le> r" "r < 86400" unfolding r by simp_all
  have e: "append_int 4 y = pad 4 y" using append_int_pad [of y 3] y by (simp add: eval_nat_numeral)
  have e2: "append_int 2 x = pad 2 x" if "0 \<le> x" "x < 100" for x
    using append_int_pad [of x 1] that by (simp add: eval_nat_numeral)
  have h: "0 \<le> r div 3600" "r div 3600 < 100" using rr by (simp_all add: pos_imp_zdiv_nonneg_iff int_div_less_iff)
  have mi: "r div 60 mod 60 < 100" "r mod 60 < 100" by (rule less_trans [of _ 60]; simp)+
  have "append_int 2 m = pad 2 m" "append_int 2 d = pad 2 d" using v(2-4) d by (auto intro: e2)
  moreover have "append_int 2 (r div 3600) = pad 2 (r div 3600)" using h by (rule e2)
  moreover have "append_int 2 (r div 60 mod 60) = pad 2 (r div 60 mod 60)" using mi(1) by (intro e2) simp_all
  moreover have "append_int 2 (r mod 60) = pad 2 (r mod 60)" using mi(2) by (intro e2) simp_all
  ultimately show ?thesis
    unfolding seconds_text_def Let_def c r [symmetric] case_prod_conv e by simp
qed

lemma pad_2: "pad 2 x = [digit_char (x div 10 mod 10), digit_char (x mod 10)]"
  by (simp add: eval_nat_numeral)

lemma getnum_pad [simp]:
  assumes "0 \<le> x" "x < 100"
  shows "getnum fixed (pad 2 x @ r) = Some (x, r)"
proof -
  have "x div 10 < 10" "0 \<le> x div 10" using assms by (simp_all add: int_div_less_iff pos_imp_zdiv_nonneg_iff)
  then show ?thesis by (simp add: pad_2)
qed

lemma get_year_pad [simp]: "0 \<le> y \<Longrightarrow> y < 10000 \<Longrightarrow> get_year (pad 4 y @ r) = Some (y, r)"
  by (simp add: get_year_def digits_val_pad list_all_iff pad_digits)

lemma digits_val_zeros: "digits_val (xs @ replicate k (CHR ''0'')) = digits_val xs * 10 ^ k"
proof (induction k)
  case (Suc k)
  have "digit_val (CHR ''0'') = 0" by code_simp
  with Suc show ?case
    by (simp add: replicate_append_same [symmetric] append_assoc [symmetric] del: append_assoc)
qed simp

lemma fraction_digits:
  assumes "0 \<le> ns" "ns < second"
  obtains ds k where "fraction ns = (if ds = [] then [] else CHR ''.'' # ds)"
    and "length ds + k = 9" and "digits_val ds * 10 ^ k = ns" and "list_all is_digit ds"
proof -
  define zs where "zs = takeWhile (\<lambda>c. c = CHR ''0'') (rev (pad 9 ns))"
  define ds where "ds = rev (dropWhile (\<lambda>c. c = CHR ''0'') (rev (pad 9 ns)))"
  have "zs = replicate (length zs) (CHR ''0'')"
    by (rule replicate_length_same [symmetric]) (auto simp: zs_def dest: set_takeWhileD)
  moreover have "rev (pad 9 ns) = zs @ rev ds" by (simp add: zs_def ds_def)
  then have "pad 9 ns = ds @ rev zs" by (metis rev_append rev_rev_ident)
  ultimately have split: "pad 9 ns = ds @ replicate (length zs) (CHR ''0'')"
    by (metis rev_replicate)
  have "digits_val (pad 9 ns) = ns" using assms by (simp add: digits_val_pad)
  then have "digits_val ds * 10 ^ length zs = ns" using split digits_val_zeros by metis
  moreover have "length ds + length zs = 9" using arg_cong [OF split, of length] by simp
  moreover have "list_all is_digit ds"
    using split pad_digits [of _ 9 ns] by (auto simp: list_all_iff)
  ultimately show ?thesis using that [of ds "length zs"] by (simp add: fraction_def ds_def Let_def)
qed

lemma get_fraction_fraction [simp]:
  assumes "0 \<le> ns" "ns < second"
  shows "get_fraction (fraction ns @ CHR ''Z'' # r) = (ns, CHR ''Z'' # r)"
proof -
  obtain ds k where ds: "fraction ns = (if ds = [] then [] else CHR ''.'' # ds)"
      "length ds + k = 9" "digits_val ds * 10 ^ k = ns" "list_all is_digit ds"
    using assms by (rule fraction_digits)
  have Z: "\<not> is_digit (CHR ''Z'')" by code_simp
  show ?thesis
  proof (cases ds)
    case Nil
    with ds show ?thesis by (cases r) simp_all
  next
    case (Cons c cs)
    have "takeWhile is_digit (ds @ CHR ''Z'' # r) = ds" "dropWhile is_digit (ds @ CHR ''Z'' # r) = CHR ''Z'' # r"
      using ds(4) Z by (simp_all add: list_all_iff takeWhile_append2 dropWhile_append2)
    moreover have "k = 9 - length ds" "take 9 ds = ds" using ds(2) by simp_all
    ultimately show ?thesis using Cons ds by (simp add: Let_def)
  qed
qed

lemma get_zone_Z [simp]: "get_zone (CHR ''Z'' # r) = Some (0, r)"
  by (simp add: get_zone_def)

lemma parse_fields:
  assumes "0 \<le> y" "y < 10000" "1 \<le> m" "m \<le> 12" "1 \<le> d" "d \<le> days_in m y" "d < 100"
    and "0 \<le> h" "h < 24" "0 \<le> mi" "mi < 60" "0 \<le> s" "s < 60" "0 \<le> ns" "ns < second"
  shows "parse_rfc3339 (pad 4 y @ ''-'' @ pad 2 m @ ''-'' @ pad 2 d @ ''T'' @ pad 2 h @ '':'' @
       pad 2 mi @ '':'' @ pad 2 s @ fraction ns @ CHR ''Z'' # r) =
     Some ((days_of_civil y m d * 86400 + h * 3600 + mi * 60 + s) * second + ns, r)"
  using assms by (simp add: parse_rfc3339_def guard_opt_def)

lemma parse_encodeTime:
  assumes "four_digit_year t"
  shows "parse_rfc3339 (encodeTime t @ r) = Some (t, r)"
proof -
  obtain y m d where c: "civil_of_days (t div second div 86400) = (y, m, d)"
    by (cases "civil_of_days (t div second div 86400)") auto
  define s where "s = t div second mod 86400"
  note y = civil_year_range [OF assms c]
  note v = civil_of_days_spec [OF c]
  have d: "d < 100" using v days_in_le [of m y] by simp
  have s: "0 \<le> s" "s < 86400" unfolding s_def by simp_all
  have h: "0 \<le> s div 3600" "s div 3600 < 24"
    using s by (simp_all add: pos_imp_zdiv_nonneg_iff int_div_less_iff)
  have mi: "0 \<le> s div 60 mod 60" "s div 60 mod 60 < 60" "0 \<le> s mod 60" "s mod 60 < 60" by simp_all
  have hms: "s div 3600 * 3600 + s div 60 mod 60 * 60 + s mod 60 = s"
  proof -
    have "s div 3600 * 60 + s div 60 mod 60 = s div 60"
      using div_mult_mod_eq [of "s div 60" 60] by (simp add: zdiv_zmult2_eq [symmetric])
    then have "(s div 3600 * 60 + s div 60 mod 60) * 60 + s mod 60 = s" by (simp only: div_mult_mod_eq)
    then show ?thesis by (simp only: distrib_right mult.assoc)
  qed
  have ns: "0 \<le> t mod second" "t mod second < second" by simp_all
  have "(days_of_civil y m d * 86400 + s div 3600 * 3600 + s div 60 mod 60 * 60 + s mod 60) * second
      + t mod second = t"
    using hms v(1) s_def by (simp add: add.assoc)
  with parse_fields [OF y v(2-5) d h mi ns, of r] show ?thesis
    unfolding encodeTime_def seconds_text_pad [OF assms c s_def] by (simp only: append_assoc append_Cons append_Nil)
qed


section \<open>Text order and chronological order\<close>

lemma sum_list_take_mono:
  fixes ls :: "int list"
  assumes "i \<le> j" "\<forall>l\<in>set ls. 0 \<le> l"
  shows "sum_list (take i ls) \<le> sum_list (take j ls)"
proof -
  have "take j ls = take i ls @ drop i (take j ls)"
    using assms(1) by (metis append_take_drop_id min.absorb1 take_take)
  moreover have "0 \<le> sum_list (drop i (take j ls))"
    using assms(2) by (intro sum_list_nonneg) (meson in_set_dropD in_set_takeD)
  ultimately show ?thesis by (metis add.commute add_increasing sum_list_append order_refl)
qed

lemma days_before_month_mono:
  assumes "1 \<le> m" "m < m'" "m' \<le> 13"
  shows "days_before_month (is_leap y) m + days_in m y \<le> days_before_month (is_leap y) m'"
proof -
  let ?ls = "month_lengths (is_leap y)"
  have lt: "nat (m - 1) < length ?ls" using assms by (simp add: month_lengths_def)
  then have "days_before_month (is_leap y) m + days_in m y = sum_list (take (Suc (nat (m - 1))) ?ls)"
    by (simp add: days_before_month_def days_in_def take_Suc_conv_app_nth)
  also have "\<dots> \<le> sum_list (take (nat (m' - 1)) ?ls)"
    using assms by (intro sum_list_take_mono) (auto simp: month_lengths_def)
  finally show ?thesis by (simp add: days_before_month_def)
qed

lemma days_of_civil_less:
  assumes "1 \<le> m" "m \<le> 12" "1 \<le> d" "d \<le> days_in m y"
    and "1 \<le> m'" "m' \<le> 12" "1 \<le> d'" "d' \<le> days_in m' y'"
    and lex: "y < y' \<or> y = y' \<and> (m < m' \<or> m = m' \<and> d < d')"
  shows "days_of_civil y m d < days_of_civil y' m' d'"
  using lex
proof (elim disjE conjE)
  assume "y < y'"
  have "days_before_month (is_leap y) 13 = (if is_leap y then 366 else 365)"
    by (simp add: days_before_month_def month_lengths_def)
  then have "days_before_month (is_leap y) m + d \<le> (if is_leap y then 366 else 365)"
    using days_before_month_mono [of m 13 y] assms by simp
  moreover have "0 \<le> days_before_month (is_leap y') m'"
    unfolding days_before_month_def
    by (intro sum_list_nonneg) (auto simp: month_lengths_def dest!: in_set_takeD split: if_splits)
  ultimately show ?thesis
    using days_before_year_mono [OF \<open>y < y'\<close>] assms by (simp add: days_of_civil_def)
next
  assume "y = y'" "m < m'"
  then show ?thesis
    using days_before_month_mono [of m m' y] assms by (simp add: days_of_civil_def)
next
  assume "y = y'" "m = m'" "d < d'"
  then show ?thesis by (simp add: days_of_civil_def)
qed


lemma civil_of_days_less:
  assumes "civil_of_days n = (y, m, d)" "civil_of_days n' = (y', m', d')" and "n < n'"
  shows "y < y' \<or> y = y' \<and> (m < m' \<or> m = m' \<and> d < d')"
proof (rule ccontr)
  note v = civil_of_days_spec [OF assms(1)] and v' = civil_of_days_spec [OF assms(2)]
  assume "\<not> ?thesis"
  then consider "y' < y \<or> y' = y \<and> (m' < m \<or> m' = m \<and> d' < d)" | "y = y' \<and> m = m' \<and> d = d'"
    by (metis linorder_neqE)
  then show False
  proof cases
    case 1
    with days_of_civil_less [OF v'(2-5) v(2-5)] show False using v(1) v'(1) assms(3) by simp
  next
    case 2
    then show False using v(1) v'(1) assms(3) by simp
  qed
qed

lemma clock_less:
  fixes r r' :: int
  assumes "r < r'"
  shows "r div 3600 < r' div 3600 \<or> r div 3600 = r' div 3600 \<and>
     (r div 60 mod 60 < r' div 60 mod 60 \<or> r div 60 mod 60 = r' div 60 mod 60 \<and> r mod 60 < r' mod 60)"
proof -
  have split: "x div 60 = 60 * (x div 3600) + x div 60 mod 60" for x :: int
    using div_mult_mod_eq [of "x div 60" 60] by (simp add: zdiv_zmult2_eq [symmetric])
  have "r div 60 < r' div 60 \<or> r div 60 = r' div 60 \<and> r mod 60 < r' mod 60"
  proof (cases "r div 60 = r' div 60")
    case True
    then show ?thesis using assms div_mult_mod_eq [of r 60] div_mult_mod_eq [of r' 60] by linarith
  next
    case False
    then show ?thesis using zdiv_mono1 [of r r' 60] assms by simp
  qed
  moreover have "r div 3600 \<le> r' div 3600" using zdiv_mono1 [of r r' 3600] assms by simp
  moreover have "h < h' \<or> h = h' \<and> (i < i' \<or> i = i' \<and> P)"
    if "x = 60 * h + i" "x' = 60 * h' + i'" "x < x' \<or> x = x' \<and> P" "h \<le> h'"
    for x x' h h' i i' :: int and P
    using that by auto
  ultimately show ?thesis using split [of r] split [of r'] by blast
qed

lemma seconds_text_less:
  assumes t: "four_digit_year t" and u: "four_digit_year u" and less: "t div second < u div second"
  shows "seconds_text t < seconds_text u"
proof -
  define a b where "a = t div second" and "b = u div second"
  define r r' where "r = a mod 86400" and "r' = b mod 86400"
  obtain y m d where c: "civil_of_days (a div 86400) = (y, m, d)"
    by (cases "civil_of_days (a div 86400)") auto
  obtain y' m' d' where c': "civil_of_days (b div 86400) = (y', m', d')"
    by (cases "civil_of_days (b div 86400)") auto
  note v = civil_of_days_spec [OF c] and v' = civil_of_days_spec [OF c']
  note yr = civil_year_range [OF t c [unfolded a_def]] civil_year_range [OF u c' [unfolded b_def]]
  have d: "d < 100" "d' < 100" using v v' days_in_le [of m y] days_in_le [of m' y'] by simp_all
  have clock: "0 \<le> x div 3600 \<and> x div 3600 < 100 \<and> x div 60 mod 60 < 100 \<and> x mod 60 < 100"
    if "x = z mod 86400" for x z :: int
  proof -
    have "0 \<le> x" "x < 360000" using that pos_mod_bound [of 86400 z] by simp_all
    moreover have "x div 60 mod 60 < 100" "x mod 60 < 100" by (rule less_trans [of _ 60]; simp)+
    ultimately show ?thesis by (simp add: pos_imp_zdiv_nonneg_iff int_div_less_iff)
  qed
  have "a div 86400 < b div 86400 \<or> a div 86400 = b div 86400 \<and> r < r'"
  proof (cases "a div 86400 = b div 86400")
    case True
    then show ?thesis using less div_mult_mod_eq [of a 86400] div_mult_mod_eq [of b 86400]
      unfolding a_def [symmetric] b_def [symmetric] r_def r'_def by linarith
  next
    case False
    then show ?thesis using zdiv_mono1 [of a b 86400] less a_def b_def by simp
  qed
  then have "y < y' \<or> y = y' \<and> (m < m' \<or> m = m' \<and> (d < d' \<or> d = d' \<and>
      (r div 3600 < r' div 3600 \<or> r div 3600 = r' div 3600 \<and>
     (r div 60 mod 60 < r' div 60 mod 60 \<or> r div 60 mod 60 = r' div 60 mod 60 \<and> r mod 60 < r' mod 60))))"
    using civil_of_days_less [OF c c'] clock_less [of r r'] c c' by auto
  then show ?thesis
    unfolding seconds_text_pad [OF t c [unfolded a_def] r_def [unfolded a_def]]
      seconds_text_pad [OF u c' [unfolded b_def] r'_def [unfolded b_def]]
    using yr v(2-4) v'(2-4) d clock [OF r_def] clock [OF r'_def]
    by (simp add: pad_append_less pad_less)
qed

lemma encodeTime_less:
  assumes "four_digit_year t" "four_digit_year u" "t div second < u div second"
  shows "encodeTime t < encodeTime u"
proof -
  have len: "length (seconds_text x) = 19" if "four_digit_year x" for x
    using that by (cases "civil_of_days (x div second div 86400)") (simp add: seconds_text_pad)
  show ?thesis
    using seconds_text_less [OF assms] len [OF assms(1)] len [OF assms(2)]
    by (simp add: encodeTime_def less_append_eq_length)
qed

section \<open>Properties of the timestamp columns\<close>

text \<open>C27: a timestamp the store writes is read back as the same instant, for every instant whose
  year has four digits.\<close>

theorem decodeTime_encodeTime:
  assumes "four_digit_year t"
  shows "decodeTime (encodeTime t) = Inr t"
  using parse_encodeTime [OF assms, of "[]"] by (simp add: decodeTime_def)

theorem decodeTime_encodeTime_witness:
  "decodeTime (encodeTime (63902476800 * second + 120000000)) = Inr (63902476800 * second + 120000000)"
proof -
  have "four_digit_year (63902476800 * second + 120000000)" by code_simp
  then show ?thesis by (rule decodeTime_encodeTime)
qed

text \<open>The JSON form of a timestamp, in which a zero time is the empty string, decodes to the
  same instant.\<close>

theorem Time_json_roundtrip:
  assumes "four_digit_year t"
  shows "Time_UnmarshalJSON (Time_MarshalJSON t) = Inr t"
proof (cases "t = 0")
  case True
  then show ?thesis by (simp add: Time_MarshalJSON_def Time_UnmarshalJSON_def)
next
  case False
  have ne: "encodeTime t \<noteq> []" by (simp add: encodeTime_def)
  show ?thesis
    using False ne parse_encodeTime [OF assms, of "[CHR 0x22]"]
    by (simp add: Time_MarshalJSON_def Time_UnmarshalJSON_def guard_opt_def)
qed

theorem Time_json_roundtrip_witness:
  "Time_UnmarshalJSON (Time_MarshalJSON 0) = Inr 0 \<and>
   Time_UnmarshalJSON (Time_MarshalJSON (63902476800 * second)) = Inr (63902476800 * second)"
proof -
  have "four_digit_year 0" "four_digit_year (63902476800 * second)" by code_simp+
  then show ?thesis using Time_json_roundtrip by blast
qed

text \<open>Timestamps of different whole seconds are ordered as text the way they are ordered in
  time; text order, which \<open>ORDER BY last_seen\<close> uses, is off by less than a second.\<close>

theorem encodeTime_order:
  assumes "four_digit_year t" "four_digit_year u"
  shows "(t div second < u div second \<longrightarrow> encodeTime t < encodeTime u)
    \<and> (encodeTime t \<le> encodeTime u \<longrightarrow> t < u + second)"
proof -
  have "t < u + second" if "encodeTime t \<le> encodeTime u"
  proof -
    have "\<not> u div second < t div second"
      using encodeTime_less [OF assms(2,1)] that by (auto dest: leD)
    then have "t div second < u div second + 1" by simp
    then have "t < (u div second + 1) * second" by (subst (asm) int_div_less_iff) simp_all
    moreover have "u div second * second \<le> u"
      using div_mult_mod_eq [of u second] pos_mod_sign [of second u] by linarith
    ultimately show ?thesis by simp
  qed
  then show ?thesis using encodeTime_less [OF assms] by blast
qed

theorem encodeTime_order_witness:
  "encodeTime (5 * second) < encodeTime (6 * second) \<and> 5 * second < 6 * second + second"
proof -
  have "four_digit_year (5 * second)" "four_digit_year (6 * second)" by code_simp+
  then show ?thesis using encodeTime_order [of "5 * second" "6 * second"] by simp
qed

text \<open>Within one second the text order is not chronological: the layout drops trailing zeros,
  and both the point and the digits sort before the letter Z, so a later timestamp can sort first.
  Pruning by \<open>last_seen\<close> then evicts the newer of two such rows.\<close>

theorem encodeTime_not_chronological:
  "\<exists>t u. four_digit_year t \<and> four_digit_year u \<and> t < u \<and> encodeTime u < encodeTime t"
proof (intro exI conjI)
  show "four_digit_year (63902476800 * second)" "four_digit_year (63902476800 * second + 500000000)"
    by code_simp+
  show "63902476800 * second < 63902476800 * second + 500000000" by simp
  show "encodeTime (63902476800 * second + 500000000) < encodeTime (63902476800 * second)"
    by code_simp
qed

end
