(* ===== verification/Database.thy ===== *)
theory Database
  imports Prelude
begin

text \<open>
  The way the store talks to its database through \<open>database/sql\<close>: calls that may fail, and
  transactions that are committed or rolled back (\<open>src/store/cleanup.go\<close> and the
  \<open>BeginTx\<close> \<open>\<dots>\<close> \<open>Commit\<close> frames of \<open>src/store\<close>).  A database is a value of type \<open>'t\<close>.  Which calls
  fail is decided outside the program: \<open>faults\<close> gives, for the number of a call, the message of the
  failure or \<open>None\<close>.  Every theorem holds for all fault patterns.
\<close>

type_synonym faults = "nat \<Rightarrow> string option"

definition no_faults :: faults where
  "no_faults = (\<lambda>_. None)"

record 't conn =
  tabs :: 't
  calls :: nat

text \<open>A store operation: a result or an error, and the connection afterwards.\<close>

type_synonym ('t, 'a) dbop = "'t conn \<Rightarrow> 'a result \<times> 't conn"

definition retD :: "'a \<Rightarrow> ('t, 'a) dbop" where
  "retD x c = (Inr x, c)"

definition raiseD :: "error \<Rightarrow> ('t, 'a) dbop" where
  "raiseD e c = (Inl e, c)"

definition liftD :: "'a result \<Rightarrow> ('t, 'a) dbop" where
  "liftD r c = (r, c)"

text \<open>Sequencing with Go's early return on \<open>err != nil\<close>.\<close>

definition bindD :: "('t, 'a) dbop \<Rightarrow> ('a \<Rightarrow> ('t, 'b) dbop) \<Rightarrow> ('t, 'b) dbop" where
  "bindD m k c = (case m c of (Inl e, c') \<Rightarrow> (Inl e, c') | (Inr x, c') \<Rightarrow> k x c')"

text \<open>One statement: it fails without effect, or computes a value and the new tables.\<close>

definition execD :: "faults \<Rightarrow> ('t \<Rightarrow> 'a \<times> 't) \<Rightarrow> ('t, 'a) dbop" where
  "execD flt f c =
     (case flt (calls c) of
        Some m \<Rightarrow> (Inl (External m), c\<lparr>calls := Suc (calls c)\<rparr>)
      | None \<Rightarrow> (Inr (fst (f (tabs c))), \<lparr>tabs = snd (f (tabs c)), calls = Suc (calls c)\<rparr>))"

definition queryD :: "faults \<Rightarrow> ('t \<Rightarrow> 'a) \<Rightarrow> ('t, 'a) dbop" where
  "queryD flt q = execD flt (\<lambda>t. (q t, t))"

text \<open>
  \<open>BeginTx\<close>, the body, \<open>Commit\<close>.  When the body fails, the deferred \<open>rollbackTransaction\<close> joins a
  failed rollback to the error; when \<open>Commit\<close> fails the transaction is over and the rollback
  reports \<open>sql.ErrTxDone\<close>, which is dropped.  In both cases the tables are those from before.
\<close>

definition rollbackTransaction :: "faults \<Rightarrow> 't \<Rightarrow> error \<Rightarrow> ('t, 'a) dbop" where
  "rollbackTransaction flt old e c =
     (case flt (calls c) of
        Some m \<Rightarrow> (Inl (Joined e (Wrap ''rollback transaction'' (External m))),
                   \<lparr>tabs = old, calls = Suc (calls c)\<rparr>)
      | None \<Rightarrow> (Inl e, \<lparr>tabs = old, calls = Suc (calls c)\<rparr>))"

definition with_tx :: "faults \<Rightarrow> ('t, 'a) dbop \<Rightarrow> ('t, 'a) dbop" where
  "with_tx flt body c =
     (case flt (calls c) of
        Some m \<Rightarrow> (Inl (External m), c\<lparr>calls := Suc (calls c)\<rparr>)
      | None \<Rightarrow>
          (case body (c\<lparr>calls := Suc (calls c)\<rparr>) of
             (Inl e, c') \<Rightarrow> rollbackTransaction flt (tabs c) e c'
           | (Inr x, c') \<Rightarrow>
               (case flt (calls c') of
                  Some m \<Rightarrow> (Inl (External m), \<lparr>tabs = tabs c, calls = Suc (calls c')\<rparr>)
                | None \<Rightarrow> (Inr x, c'\<lparr>calls := Suc (calls c')\<rparr>))))"

text \<open>
  \<open>closeWithError\<close> as a deferred call: the close runs after \<open>m\<close>, and its failure, labelled by
  \<open>closeError\<close>, is joined to the error of \<open>m\<close> or becomes the error.
\<close>

definition closeError :: "string \<Rightarrow> string option \<Rightarrow> error option" where
  "closeError context failure = map_option (\<lambda>m. Wrap context (External m)) failure"

definition closeWithError :: "faults \<Rightarrow> string \<Rightarrow> ('t, 'a) dbop \<Rightarrow> ('t, 'a) dbop" where
  "closeWithError flt context m c =
     (case m c of (r, c') \<Rightarrow>
        (case closeError context (flt (calls c')) of
           None \<Rightarrow> r
         | Some ce \<Rightarrow> (case r of Inl e \<Rightarrow> Inl (Joined e ce) | Inr _ \<Rightarrow> Inl ce),
         c'\<lparr>calls := Suc (calls c')\<rparr>))"

text \<open>
  \<open>QueryRow(\<dots>).Scan\<close>, \<open>RowsAffected\<close>, and a handler for one error.  A query for many rows is
  \<open>queryRowsD\<close>: the query, the iteration (its failure is what \<open>rows.Err\<close> reports), the code \<open>k\<close>
  that consumes the rows, and the deferred close.
\<close>

definition queryRowD :: "faults \<Rightarrow> ('t \<Rightarrow> 'a option) \<Rightarrow> ('t, 'a) dbop" where
  "queryRowD flt q =
     bindD (queryD flt q) (\<lambda>row. case row of None \<Rightarrow> raiseD ErrNoRows | Some x \<Rightarrow> retD x)"

definition rowsAffected :: "faults \<Rightarrow> nat \<Rightarrow> ('t, int) dbop" where
  "rowsAffected flt n = queryD flt (\<lambda>_. int n)"

definition catchD :: "('t, 'a) dbop \<Rightarrow> (error \<Rightarrow> ('t, 'a) dbop) \<Rightarrow> ('t, 'a) dbop" where
  "catchD m h c = (case m c of (Inl e, c') \<Rightarrow> h e c' | (Inr x, c') \<Rightarrow> (Inr x, c'))"

definition queryRowsD :: "faults \<Rightarrow> string \<Rightarrow> ('t \<Rightarrow> 'r list) \<Rightarrow> ('r list \<Rightarrow> ('t, 'a) dbop) \<Rightarrow> ('t, 'a) dbop" where
  "queryRowsD flt context q k =
     bindD (queryD flt q) (\<lambda>rows.
       closeWithError flt context (bindD (queryD flt (\<lambda>_. ())) (\<lambda>_. k rows)))"

text \<open>Decoding the rows in order, stopping at the first failure.\<close>

fun scan_all :: "('r \<Rightarrow> 'a result) \<Rightarrow> 'r list \<Rightarrow> ('a list) result" where
  "scan_all f [] = Inr []"
| "scan_all f (r # rs) =
     (case f r of
        Inl e \<Rightarrow> Inl e
      | Inr x \<Rightarrow> (case scan_all f rs of Inl e \<Rightarrow> Inl e | Inr xs \<Rightarrow> Inr (x # xs)))"

lemma scan_all_Inr:
  "scan_all f rs = Inr xs \<longleftrightarrow> list_all2 (\<lambda>r x. f r = Inr x) rs xs"
proof (induction rs arbitrary: xs)
  case (Cons r rs)
  have "scan_all f (r # rs) = Inr xs \<longleftrightarrow> (\<exists>y ys. xs = y # ys \<and> f r = Inr y \<and> scan_all f rs = Inr ys)"
    by (auto split: sum.splits)
  then show ?case by (auto simp: Cons.IH list_all2_Cons1)
qed auto

lemma scan_all_total: "(\<And>r. r \<in> set rs \<Longrightarrow> \<exists>x. f r = Inr x) \<Longrightarrow> \<exists>xs. scan_all f rs = Inr xs"
proof (induction rs)
  case (Cons r rs)
  then obtain x xs where "f r = Inr x" "scan_all f rs = Inr xs" by (meson list.set_intros)
  then show ?case by simp
qed simp

section \<open>Reasoning about operations\<close>

text \<open>
  \<open>preserves P m\<close>: operation \<open>m\<close> takes tables with \<open>P\<close> to tables with \<open>P\<close>, whether it succeeds or
  fails.
\<close>

definition preserves :: "('t \<Rightarrow> bool) \<Rightarrow> ('t, 'a) dbop \<Rightarrow> bool" where
  "preserves P m \<longleftrightarrow> (\<forall>c. P (tabs c) \<longrightarrow> P (tabs (snd (m c))))"

lemma preserves_retD [intro, db_intros]: "preserves P (retD x)"
  by (simp add: preserves_def retD_def)

lemma preserves_raiseD [intro, db_intros]: "preserves P (raiseD e)"
  by (simp add: preserves_def raiseD_def)

lemma preserves_liftD [intro, db_intros]: "preserves P (liftD r)"
  by (simp add: preserves_def liftD_def)

lemma preserves_bindD [intro, db_intros]:
  "preserves P m \<Longrightarrow> (\<And>x. preserves P (k x)) \<Longrightarrow> preserves P (bindD m k)"
  by (fastforce simp: preserves_def bindD_def split: prod.splits sum.splits)

lemma preserves_execD [db_intros]: "(\<And>t. P t \<Longrightarrow> P (snd (f t))) \<Longrightarrow> preserves P (execD flt f)"
  by (simp add: preserves_def execD_def split: option.splits)

lemma preserves_queryD [intro, db_intros]: "preserves P (queryD flt q)"
  by (simp add: preserves_def queryD_def execD_def split: option.splits)

lemma preserves_with_tx [intro, db_intros]:
  assumes "preserves P m"
  shows "preserves P (with_tx flt m)"
  unfolding preserves_def
proof (intro allI impI)
  fix c :: "'a conn"
  assume P: "P (tabs c)"
  obtain r c' where m: "m (c\<lparr>calls := Suc (calls c)\<rparr>) = (r, c')" by fastforce
  then have "P (tabs c')" using assms P unfolding preserves_def by (metis conn.select_convs(1) conn.surjective conn.update_convs(2) snd_conv)
  then show "P (tabs (snd (with_tx flt m c)))"
    using P m by (auto simp: with_tx_def rollbackTransaction_def split: option.splits sum.splits)
qed

lemma preserves_closeWithError [intro, db_intros]:
  assumes "preserves P m"
  shows "preserves P (closeWithError flt context m)"
  using assms by (simp add: preserves_def closeWithError_def split_beta)

lemma preserves_catchD [intro, db_intros]:
  "preserves P m \<Longrightarrow> (\<And>e. preserves P (h e)) \<Longrightarrow> preserves P (catchD m h)"
  by (fastforce simp: preserves_def catchD_def split: prod.splits sum.splits)

lemma preserves_if [intro, db_intros]:
  "(b \<Longrightarrow> preserves P m) \<Longrightarrow> (\<not> b \<Longrightarrow> preserves P n) \<Longrightarrow> preserves P (if b then m else n)"
  by simp

lemma preserves_case_option [intro, db_intros]:
  "preserves P m \<Longrightarrow> (\<And>x. preserves P (n x)) \<Longrightarrow> preserves P (case v of None \<Rightarrow> m | Some x \<Rightarrow> n x)"
  by (cases v) auto

lemma preserves_case_sum [intro, db_intros]:
  "(\<And>x. preserves P (m x)) \<Longrightarrow> (\<And>x. preserves P (n x)) \<Longrightarrow> preserves P (case v of Inl x \<Rightarrow> m x | Inr x \<Rightarrow> n x)"
  by (cases v) auto

text \<open>\<open>atomic m\<close>: a failed run of \<open>m\<close> leaves the tables as they were.\<close>

definition atomic :: "('t, 'a) dbop \<Rightarrow> bool" where
  "atomic m \<longleftrightarrow> (\<forall>c e c'. m c = (Inl e, c') \<longrightarrow> tabs c' = tabs c)"

lemma atomic_with_tx: "atomic (with_tx flt m)"
  by (auto simp: atomic_def with_tx_def rollbackTransaction_def split: option.splits prod.splits sum.splits)

lemma atomic_execD: "atomic (execD flt f)"
  by (auto simp: atomic_def execD_def split: option.splits)

lemma atomic_raiseD: "atomic (raiseD e)"
  by (simp add: atomic_def raiseD_def)

lemma atomic_retD: "atomic (retD x)"
  by (simp add: atomic_def retD_def)

lemma atomic_liftD: "atomic (liftD r)"
  by (simp add: atomic_def liftD_def)

text \<open>\<open>read_only m\<close>: \<open>m\<close> never changes the tables.\<close>

definition read_only :: "('t, 'a) dbop \<Rightarrow> bool" where
  "read_only m \<longleftrightarrow> (\<forall>c. tabs (snd (m c)) = tabs c)"

lemma read_only_queryD: "read_only (queryD flt q)"
  by (simp add: read_only_def queryD_def execD_def split: option.splits)

lemma read_only_retD: "read_only (retD x)"
  by (simp add: read_only_def retD_def)

lemma read_only_raiseD: "read_only (raiseD e)"
  by (simp add: read_only_def raiseD_def)

lemma read_only_liftD: "read_only (liftD r)"
  by (simp add: read_only_def liftD_def)

lemma read_only_bindD:
  assumes "read_only m" and "\<And>x. read_only (k x)"
  shows "read_only (bindD m k)"
  unfolding read_only_def
proof
  fix c
  obtain r c1 where m: "m c = (r, c1)" by fastforce
  then have "tabs c1 = tabs c" using assms(1) unfolding read_only_def by (metis snd_conv)
  then show "tabs (snd (bindD m k c)) = tabs c"
    using m assms(2) by (cases r) (simp_all add: bindD_def read_only_def)
qed

lemma read_only_closeWithError: "read_only m \<Longrightarrow> read_only (closeWithError flt context m)"
  by (simp add: read_only_def closeWithError_def split_beta)

lemma read_only_queryRowD: "read_only (queryRowD flt q)"
  unfolding queryRowD_def
  by (intro read_only_bindD read_only_queryD) (simp add: read_only_raiseD read_only_retD split: option.split)

lemma read_only_queryRowsD: "(\<And>rows. read_only (k rows)) \<Longrightarrow> read_only (queryRowsD flt context q k)"
  unfolding queryRowsD_def by (intro read_only_bindD read_only_queryD read_only_closeWithError)

lemma read_only_rowsAffected: "read_only (rowsAffected flt n)"
  unfolding rowsAffected_def by (rule read_only_queryD)

lemmas read_onlyI = read_only_queryD read_only_retD read_only_raiseD read_only_liftD read_only_bindD
  read_only_closeWithError read_only_queryRowD read_only_queryRowsD read_only_rowsAffected

lemma preserves_read_only: "read_only m \<Longrightarrow> preserves P m"
  by (simp add: read_only_def preserves_def)

text \<open>An operation that reads, then makes one write in last position, is atomic.\<close>

lemma atomic_bindD:
  assumes "read_only m" and "\<And>x. atomic (k x)"
  shows "atomic (bindD m k)"
  unfolding atomic_def
proof (intro allI impI)
  fix c e c'
  assume run: "bindD m k c = (Inl e, c')"
  obtain r c1 where m: "m c = (r, c1)" by fastforce
  have t1: "tabs c1 = tabs c" using assms(1) m unfolding read_only_def by (metis snd_conv)
  show "tabs c' = tabs c"
  proof (cases r)
    case (Inl a)
    then show ?thesis using run m t1 by (simp add: bindD_def)
  next
    case (Inr x)
    then have "k x c1 = (Inl e, c')" using run m by (simp add: bindD_def)
    then show ?thesis using assms(2) [of x] t1 unfolding atomic_def by metis
  qed
qed

lemma atomic_read_only: "read_only m \<Longrightarrow> atomic m"
  unfolding read_only_def atomic_def by (metis snd_conv)

lemma bindD_Inr:
  "bindD m k c = (Inr y, c') \<longleftrightarrow> (\<exists>x c1. m c = (Inr x, c1) \<and> k x c1 = (Inr y, c'))"
  by (auto simp: bindD_def split: prod.splits sum.splits)

lemma bindD_Inl:
  "bindD m k c = (Inl e, c') \<longleftrightarrow>
     m c = (Inl e, c') \<or> (\<exists>x c1. m c = (Inr x, c1) \<and> k x c1 = (Inl e, c'))"
  by (auto simp: bindD_def split: prod.splits sum.splits)

lemma execD_Inr:
  "execD flt f c = (Inr y, c') \<longleftrightarrow>
     flt (calls c) = None \<and> y = fst (f (tabs c)) \<and> c' = \<lparr>tabs = snd (f (tabs c)), calls = Suc (calls c)\<rparr>"
  by (auto simp: execD_def split: option.splits)

lemma queryD_Inr:
  "queryD flt q c = (Inr y, c') \<longleftrightarrow> flt (calls c) = None \<and> y = q (tabs c) \<and> c' = c\<lparr>calls := Suc (calls c)\<rparr>"
  by (auto simp: queryD_def execD_def split: option.splits)

lemma with_tx_Inr:
  "with_tx flt m c = (Inr x, c') \<longleftrightarrow>
     flt (calls c) = None \<and>
     (\<exists>c1. m (c\<lparr>calls := Suc (calls c)\<rparr>) = (Inr x, c1) \<and> flt (calls c1) = None \<and>
           c' = c1\<lparr>calls := Suc (calls c1)\<rparr>)"
  by (auto simp: with_tx_def rollbackTransaction_def split: option.splits prod.splits sum.splits)

lemma retD_Inr: "retD x c = (Inr y, c') \<longleftrightarrow> y = x \<and> c' = c"
  by (auto simp: retD_def)

lemma liftD_Inr: "liftD r c = (Inr y, c') \<longleftrightarrow> r = Inr y \<and> c' = c"
  by (auto simp: liftD_def)

lemma raiseD_Inr: "raiseD e c = (Inr y, c') \<longleftrightarrow> False"
  by (simp add: raiseD_def)

lemma closeWithError_Inr:
  "closeWithError flt context m c = (Inr x, c') \<longleftrightarrow>
     (\<exists>c1. m c = (Inr x, c1) \<and> flt (calls c1) = None \<and> c' = c1\<lparr>calls := Suc (calls c1)\<rparr>)"
  by (auto simp: closeWithError_def closeError_def split: prod.splits option.splits sum.splits)

lemma queryRowD_Inr:
  "queryRowD flt q c = (Inr x, c') \<longleftrightarrow>
     flt (calls c) = None \<and> q (tabs c) = Some x \<and> c' = c\<lparr>calls := Suc (calls c)\<rparr>"
  by (auto simp: queryRowD_def bindD_Inr queryD_Inr raiseD_Inr retD_Inr split: option.splits)

lemma rowsAffected_Inr:
  "rowsAffected flt n c = (Inr x, c') \<longleftrightarrow> flt (calls c) = None \<and> x = int n \<and> c' = c\<lparr>calls := Suc (calls c)\<rparr>"
  by (simp add: rowsAffected_def queryD_Inr)

lemmas dbop_Inr = bindD_Inr execD_Inr queryD_Inr with_tx_Inr retD_Inr liftD_Inr raiseD_Inr
  closeWithError_Inr queryRowD_Inr rowsAffected_Inr

text \<open>Without faults every statement succeeds, which turns an operation into a plain function.\<close>

lemma execD_no_faults [simp]:
  "execD no_faults f c = (Inr (fst (f (tabs c))), \<lparr>tabs = snd (f (tabs c)), calls = Suc (calls c)\<rparr>)"
  by (simp add: execD_def no_faults_def)

lemma queryD_no_faults [simp]:
  "queryD no_faults q c = (Inr (q (tabs c)), c\<lparr>calls := Suc (calls c)\<rparr>)"
  by (simp add: queryD_def)

lemma closeWithError_no_faults [simp]:
  "closeWithError no_faults context m c = (fst (m c), (snd (m c))\<lparr>calls := Suc (calls (snd (m c)))\<rparr>)"
  by (simp add: closeWithError_def closeError_def no_faults_def split: prod.splits)

lemma queryRowD_no_faults [simp]:
  "queryRowD no_faults q c =
     (case q (tabs c) of None \<Rightarrow> Inl ErrNoRows | Some x \<Rightarrow> Inr x, c\<lparr>calls := Suc (calls c)\<rparr>)"
  by (simp add: queryRowD_def bindD_def retD_def raiseD_def split: option.splits)

section \<open>Success without faults\<close>

text \<open>
  \<open>succeeds m c\<close>: the call returns a value.  Without faults a call can only fail in the program's
  own checks and decoders.
\<close>

definition succeeds :: "('t, 'a) dbop \<Rightarrow> 't conn \<Rightarrow> bool" where
  "succeeds m c \<longleftrightarrow> (\<exists>x c'. m c = (Inr x, c'))"

lemma succeeds_basic [simp]:
  "succeeds (execD no_faults f) c" "succeeds (queryD no_faults q) c" "succeeds (retD x) c"
  "succeeds (rowsAffected no_faults n) c"
  by (simp_all add: succeeds_def retD_def rowsAffected_def)

lemma succeeds_liftD [simp]: "succeeds (liftD r) c \<longleftrightarrow> (\<exists>x. r = Inr x)"
  by (auto simp: succeeds_def liftD_def)

lemma succeeds_bindD:
  "succeeds m c \<Longrightarrow> (\<And>x c'. m c = (Inr x, c') \<Longrightarrow> succeeds (k x) c') \<Longrightarrow> succeeds (bindD m k) c"
  unfolding succeeds_def bindD_Inr by blast

lemma bindD_liftD: "bindD (liftD (Inr x)) k = k x"
  by (rule ext) (simp add: bindD_def liftD_def)

lemma succeeds_if: "succeeds m c \<Longrightarrow> succeeds m' c \<Longrightarrow> succeeds (if b then m else m') c"
  by simp

lemma succeeds_closeWithError [simp]: "succeeds (closeWithError no_faults context m) c \<longleftrightarrow> succeeds m c"
  by (simp add: succeeds_def closeWithError_Inr no_faults_def)

lemma succeeds_with_tx [simp]: "succeeds (with_tx no_faults m) c \<longleftrightarrow> succeeds m (c\<lparr>calls := Suc (calls c)\<rparr>)"
  by (simp add: succeeds_def with_tx_Inr no_faults_def)

lemma succeeds_queryRowsD:
  "(\<And>c'. tabs c' = tabs c \<Longrightarrow> succeeds (k (q (tabs c))) c') \<Longrightarrow> succeeds (queryRowsD no_faults context q k) c"
  unfolding queryRowsD_def by (intro succeeds_bindD) (auto simp: queryD_Inr intro!: succeeds_bindD)

section \<open>Reads\<close>

text \<open>\<open>yields m t x\<close>: on tables \<open>t\<close> the call returns \<open>x\<close> and changes nothing.\<close>

definition yields :: "('t, 'a) dbop \<Rightarrow> 't \<Rightarrow> 'a \<Rightarrow> bool" where
  "yields m t x \<longleftrightarrow> (\<forall>c. tabs c = t \<longrightarrow> (\<exists>c'. m c = (Inr x, c') \<and> tabs c' = t))"

lemma yields_fst: "yields m (tabs c) x \<Longrightarrow> fst (m c) = Inr x"
  unfolding yields_def by (metis fst_conv)

lemma yields_retD: "yields (retD x) t x"
  by (simp add: yields_def retD_def)

lemma yields_liftD: "r = Inr x \<Longrightarrow> yields (liftD r) t x"
  by (simp add: yields_def liftD_def)

lemma yields_queryD: "yields (queryD no_faults q) t (q t)"
  by (simp add: yields_def)

lemma yields_queryRowD: "q t = Some x \<Longrightarrow> yields (queryRowD no_faults q) t x"
  by (simp add: yields_def)

lemma yields_bindD: "yields m t x \<Longrightarrow> yields (k x) t y \<Longrightarrow> yields (bindD m k) t y"
  unfolding yields_def bindD_Inr by blast

lemma yields_closeWithError: "yields m t x \<Longrightarrow> yields (closeWithError no_faults context m) t x"
  unfolding yields_def by (auto simp: closeWithError_Inr no_faults_def)

lemma yields_queryRowsD: "yields (k (q t)) t x \<Longrightarrow> yields (queryRowsD no_faults context q k) t x"
  unfolding queryRowsD_def
  by (intro yields_bindD [OF yields_queryD] yields_closeWithError)

lemma yields_run: "yields m (tabs c) x \<Longrightarrow> \<exists>c'. m c = (Inr x, c') \<and> tabs c' = tabs c"
  by (simp add: yields_def)

lemma scan_all_map: "(\<And>r. r \<in> set rs \<Longrightarrow> \<exists>x. f r = Inr x) \<Longrightarrow> scan_all f rs = Inr (map (projr \<circ> f) rs)"
proof (induction rs)
  case (Cons r rs)
  then obtain x where "f r = Inr x" by (meson list.set_intros(1))
  then show ?case using Cons by simp
qed simp

end
