(* ===== verification/Tables.thy ===== *)
theory Tables
  imports Approval GoTime Database "HOL-Library.Product_Lexorder"
begin

text \<open>
  The SQLite schema of \<open>Store.init\<close> (\<open>src/store/store.go\<close>) as lists of rows, and one function per
  SQL statement of \<open>src/store\<close>.  A table is the list of its rows in rowid order; an
  \<open>ORDER BY\<close> is a sort by the same key, bytewise on \<open>TEXT\<close>.  Every statement function takes the
  statement's bound parameters and the tables, and returns the new tables (with the affected rows
  or the \<open>RETURNING\<close> row where the code reads them).
\<close>

section \<open>Schema\<close>

text \<open>
  A row of \<open>fingerprints\<close>.  \<open>r_legacy\<close> holds the columns of a pre-gatekit gate schema that the
  store leaves in place, with their values as \<open>NULL\<close> or text.
\<close>

record fp_row =
  r_fp :: string
  r_status :: string
  r_label :: string
  r_first_seen :: string
  r_last_seen :: string
  r_count :: int
  r_meta :: string
  r_ranges :: "string option"
  r_legacy :: "(string \<times> string option) list"

record sighting_row =
  s_fp :: string
  s_ip :: string
  s_port :: int
  s_seen :: string

record alert_row =
  a_range :: string
  a_ip :: string
  a_fp :: string
  a_first_seen :: string

text \<open>\<open>legacy_columns\<close>: name and default value of the columns of \<open>r_legacy\<close>.\<close>

record tables =
  fingerprints :: "fp_row list"
  fingerprint_ips :: "(string \<times> string) list"
  fingerprint_ports :: "(string \<times> int) list"
  fingerprint_sightings :: "sighting_row list"
  blocked_range_alerts :: "alert_row list"
  meta_table :: "(string \<times> string) list"
  legacy_columns :: "(string \<times> string option) list"

definition empty_tables :: tables where
  "empty_tables = \<lparr>fingerprints = [], fingerprint_ips = [], fingerprint_ports = [],
     fingerprint_sightings = [], blocked_range_alerts = [], meta_table = [], legacy_columns = []\<rparr>"

text \<open>The three statuses (\<open>type Status string\<close>).\<close>

definition StatusPending :: string where "StatusPending = ''pending''"
definition StatusApproved :: string where "StatusApproved = ''approved''"
definition StatusBlocked :: string where "StatusBlocked = ''blocked''"

definition Valid :: "string \<Rightarrow> bool" where
  "Valid s \<longleftrightarrow> s = StatusPending \<or> s = StatusApproved \<or> s = StatusBlocked"

lemma status_distinct [simp]:
  "StatusPending \<noteq> StatusApproved" "StatusApproved \<noteq> StatusPending"
  "StatusPending \<noteq> StatusBlocked" "StatusBlocked \<noteq> StatusPending"
  "StatusApproved \<noteq> StatusBlocked" "StatusBlocked \<noteq> StatusApproved"
  by (simp_all add: StatusPending_def StatusApproved_def StatusBlocked_def)

lemma Valid_status [simp]: "Valid StatusPending" "Valid StatusApproved" "Valid StatusBlocked"
  by (simp_all add: Valid_def)

section \<open>Descending order\<close>

text \<open>\<open>ORDER BY last_seen DESC\<close>: a copy of a linear order with the comparison reversed.\<close>

datatype 'a desc = Desc (the_desc: 'a)

instantiation desc :: (linorder) linorder
begin

definition less_eq_desc :: "'a desc \<Rightarrow> 'a desc \<Rightarrow> bool" where
  "less_eq_desc a b \<longleftrightarrow> the_desc b \<le> the_desc a"

definition less_desc :: "'a desc \<Rightarrow> 'a desc \<Rightarrow> bool" where
  "less_desc a b \<longleftrightarrow> the_desc b < the_desc a"

instance
  by standard (auto simp: less_eq_desc_def less_desc_def desc.expand)

end

lemma Desc_le [simp]: "Desc a \<le> Desc b \<longleftrightarrow> b \<le> a" for a b :: "'a::linorder"
  by (simp add: less_eq_desc_def)

section \<open>Statements on fingerprints\<close>

definition find_fp :: "string \<Rightarrow> tables \<Rightarrow> fp_row option" where
  "find_fp fp t = find (\<lambda>r. r_fp r = fp) (fingerprints t)"

definition update_fp :: "string \<Rightarrow> (fp_row \<Rightarrow> fp_row) \<Rightarrow> tables \<Rightarrow> tables" where
  "update_fp fp f t = t\<lparr>fingerprints := map (\<lambda>r. if r_fp r = fp then f r else r) (fingerprints t)\<rparr>"

definition append_fp :: "fp_row \<Rightarrow> tables \<Rightarrow> tables" where
  "append_fp r t = t\<lparr>fingerprints := fingerprints t @ [r]\<rparr>"

text \<open>The upsert of \<open>Observe\<close>, with its \<open>RETURNING\<close> row.\<close>

definition upsert_observed :: "string \<Rightarrow> string \<Rightarrow> string \<Rightarrow> string \<Rightarrow> tables \<Rightarrow> fp_row \<times> tables" where
  "upsert_observed fp status now meta t =
     (case find_fp fp t of
        None \<Rightarrow>
          let r = \<lparr>r_fp = fp, r_status = status, r_label = [], r_first_seen = now, r_last_seen = now,
                   r_count = 1, r_meta = meta, r_ranges = None, r_legacy = legacy_columns t\<rparr>
          in (r, append_fp r t)
      | Some r \<Rightarrow>
          let f = (\<lambda>r. r\<lparr>r_last_seen := now, r_count := r_count r + 1, r_meta := meta\<rparr>)
          in (f r, update_fp fp f t))"

text \<open>The statements of \<open>SetStatus\<close>, \<open>UpsertStatus\<close> and \<open>SetLabel\<close>, with the affected rows.\<close>

definition update_status :: "string \<Rightarrow> string \<Rightarrow> tables \<Rightarrow> nat \<times> tables" where
  "update_status fp status t =
     (case find_fp fp t of
        None \<Rightarrow> (0, t)
      | Some r \<Rightarrow>
          if r_ranges r = None \<or> status \<noteq> ''approved''
          then (1, update_fp fp (\<lambda>r. r\<lparr>r_status := status, r_ranges := None\<rparr>) t)
          else (0, t))"

definition upsert_status :: "string \<Rightarrow> string \<Rightarrow> string \<Rightarrow> string \<Rightarrow> tables \<Rightarrow> nat \<times> tables" where
  "upsert_status fp status label now t =
     (case find_fp fp t of
        None \<Rightarrow>
          (1, append_fp \<lparr>r_fp = fp, r_status = status, r_label = label, r_first_seen = now,
                r_last_seen = now, r_count = 0, r_meta = ''{}'', r_ranges = None,
                r_legacy = legacy_columns t\<rparr> t)
      | Some r \<Rightarrow>
          if r_ranges r = None \<or> status \<noteq> ''approved''
          then (1, update_fp fp (\<lambda>r. r\<lparr>r_status := status, r_label := label, r_ranges := None\<rparr>) t)
          else (0, t))"

definition update_label :: "string \<Rightarrow> string \<Rightarrow> tables \<Rightarrow> nat \<times> tables" where
  "update_label fp label t =
     (case find_fp fp t of
        None \<Rightarrow> (0, t)
      | Some _ \<Rightarrow> (1, update_fp fp (\<lambda>r. r\<lparr>r_label := label\<rparr>) t))"

text \<open>The statement of \<open>ApplyDecisions\<close>.\<close>

definition upsert_decision ::
  "string \<Rightarrow> string \<Rightarrow> string \<Rightarrow> string option \<Rightarrow> string \<Rightarrow> tables \<Rightarrow> tables" where
  "upsert_decision fp status label ranges now t =
     (case find_fp fp t of
        None \<Rightarrow>
          append_fp \<lparr>r_fp = fp, r_status = status, r_label = label, r_first_seen = now,
                r_last_seen = now, r_count = 0, r_meta = ''{}'', r_ranges = ranges,
                r_legacy = legacy_columns t\<rparr> t
      | Some _ \<Rightarrow>
          update_fp fp (\<lambda>r. r\<lparr>r_status := status, r_label := label, r_ranges := ranges\<rparr>) t)"

text \<open>
  \<open>DELETE FROM fingerprints\<close> with \<open>ON DELETE CASCADE\<close> into the three history tables.  The number
  of affected rows counts \<open>fingerprints\<close> only.
\<close>

definition delete_fps :: "(fp_row \<Rightarrow> bool) \<Rightarrow> tables \<Rightarrow> nat \<times> tables" where
  "delete_fps P t =
     (let gone = map r_fp (filter P (fingerprints t))
      in (length gone,
          t\<lparr>fingerprints := filter (\<lambda>r. \<not> P r) (fingerprints t),
            fingerprint_ips := filter (\<lambda>(f, ip). f \<notin> set gone) (fingerprint_ips t),
            fingerprint_ports := filter (\<lambda>(f, p). f \<notin> set gone) (fingerprint_ports t),
            fingerprint_sightings := filter (\<lambda>s. s_fp s \<notin> set gone) (fingerprint_sightings t)\<rparr>))"

text \<open>
  The eviction of \<open>pruneToLimit\<close>.  \<open>ORDER BY last_seen ASC\<close> leaves the order of rows with the
  same \<open>last_seen\<close> to the engine: \<open>ord\<close> is the engine's ordering of the candidate rows.
\<close>

definition evicted :: "(fp_row list \<Rightarrow> fp_row list) \<Rightarrow> nat \<Rightarrow> tables \<Rightarrow> string list" where
  "evicted ord excess t =
     map r_fp (take excess (ord (filter (\<lambda>r. r_status r \<noteq> StatusApproved) (fingerprints t))))"

definition delete_oldest :: "(fp_row list \<Rightarrow> fp_row list) \<Rightarrow> nat \<Rightarrow> tables \<Rightarrow> nat \<times> tables" where
  "delete_oldest ord excess t =
     (let out = evicted ord excess t in delete_fps (\<lambda>r. r_fp r \<in> set out) t)"

section \<open>Statements on the history tables\<close>

abbreviation MaxMetadataBytes :: int where "MaxMetadataBytes \<equiv> 65536"
abbreviation MaxObservationValues :: nat where "MaxObservationValues \<equiv> 128"

definition insert_ip :: "string \<Rightarrow> string \<Rightarrow> tables \<Rightarrow> tables" where
  "insert_ip fp ip t =
     (if (fp, ip) \<in> set (fingerprint_ips t) then t
      else t\<lparr>fingerprint_ips := fingerprint_ips t @ [(fp, ip)]\<rparr>)"

definition insert_port :: "string \<Rightarrow> int \<Rightarrow> tables \<Rightarrow> tables" where
  "insert_port fp port t =
     (if (fp, port) \<in> set (fingerprint_ports t) then t
      else t\<lparr>fingerprint_ports := fingerprint_ports t @ [(fp, port)]\<rparr>)"

definition s_key :: "sighting_row \<Rightarrow> string \<times> string \<times> int" where
  "s_key s = (s_fp s, s_ip s, s_port s)"

definition upsert_sighting :: "string \<Rightarrow> string \<Rightarrow> int \<Rightarrow> string \<Rightarrow> tables \<Rightarrow> tables" where
  "upsert_sighting fp ip port now t =
     (if (fp, ip, port) \<in> s_key ` set (fingerprint_sightings t)
      then t\<lparr>fingerprint_sightings :=
             map (\<lambda>s. if s_key s = (fp, ip, port) then s\<lparr>s_seen := now\<rparr> else s) (fingerprint_sightings t)\<rparr>
      else t\<lparr>fingerprint_sightings := fingerprint_sightings t
                @ [\<lparr>s_fp = fp, s_ip = ip, s_port = port, s_seen = now\<rparr>]\<rparr>)"

text \<open>The ordered selections the code reads the history with.\<close>

definition ips_of :: "string \<Rightarrow> tables \<Rightarrow> string list" where
  "ips_of fp t = sort (map snd (filter (\<lambda>(f, ip). f = fp) (fingerprint_ips t)))"

definition ports_of :: "string \<Rightarrow> tables \<Rightarrow> int list" where
  "ports_of fp t = sort (map snd (filter (\<lambda>(f, p). f = fp) (fingerprint_ports t)))"

definition recent_first :: "sighting_row \<Rightarrow> string desc \<times> string \<times> int" where
  "recent_first s = (Desc (s_seen s), s_ip s, s_port s)"

definition sightings_of :: "string \<Rightarrow> tables \<Rightarrow> sighting_row list" where
  "sightings_of fp t = sort_key recent_first (filter (\<lambda>s. s_fp s = fp) (fingerprint_sightings t))"

text \<open>\<open>trimHistory\<close>: rows past \<open>OFFSET 128\<close> of one fingerprint's ordered history are deleted.\<close>

definition trim_sightings :: "string \<Rightarrow> tables \<Rightarrow> tables" where
  "trim_sightings fp t =
     (let over = map (\<lambda>s. (s_ip s, s_port s)) (drop MaxObservationValues (sightings_of fp t))
      in t\<lparr>fingerprint_sightings :=
           filter (\<lambda>s. \<not> (s_fp s = fp \<and> (s_ip s, s_port s) \<in> set over)) (fingerprint_sightings t)\<rparr>)"

definition trim_ips :: "string \<Rightarrow> tables \<Rightarrow> tables" where
  "trim_ips fp t =
     (let over = drop MaxObservationValues (ips_of fp t)
      in t\<lparr>fingerprint_ips := filter (\<lambda>(f, ip). \<not> (f = fp \<and> ip \<in> set over)) (fingerprint_ips t)\<rparr>)"

definition trim_ports :: "string \<Rightarrow> tables \<Rightarrow> tables" where
  "trim_ports fp t =
     (let over = drop MaxObservationValues (ports_of fp t)
      in t\<lparr>fingerprint_ports := filter (\<lambda>(f, p). \<not> (f = fp \<and> p \<in> set over)) (fingerprint_ports t)\<rparr>)"

text \<open>
  \<open>boundExistingHistory\<close>: the same for every fingerprint at once, a row being deleted when its
  \<open>ROW_NUMBER()\<close> in its fingerprint's partition is over the limit.
\<close>

definition bound_sightings :: "tables \<Rightarrow> tables" where
  "bound_sightings t = t\<lparr>fingerprint_sightings :=
     filter (\<lambda>s. s_key s \<notin> s_key ` set (drop MaxObservationValues (sightings_of (s_fp s) t)))
       (fingerprint_sightings t)\<rparr>"

definition bound_ips :: "tables \<Rightarrow> tables" where
  "bound_ips t = t\<lparr>fingerprint_ips :=
     filter (\<lambda>(f, ip). ip \<notin> set (drop MaxObservationValues (ips_of f t))) (fingerprint_ips t)\<rparr>"

definition bound_ports :: "tables \<Rightarrow> tables" where
  "bound_ports t = t\<lparr>fingerprint_ports :=
     filter (\<lambda>(f, p). p \<notin> set (drop MaxObservationValues (ports_of f t))) (fingerprint_ports t)\<rparr>"

definition clear_oversized_meta :: "tables \<Rightarrow> tables" where
  "clear_oversized_meta t = t\<lparr>fingerprints :=
     map (\<lambda>r. if MaxMetadataBytes < int (length (r_meta r)) then r\<lparr>r_meta := ''{}''\<rparr> else r) (fingerprints t)\<rparr>"

section \<open>Statements on the other tables\<close>

definition lookup_meta :: "string \<Rightarrow> tables \<Rightarrow> string option" where
  "lookup_meta key t = map_of (meta_table t) key"

definition upsert_meta :: "string \<Rightarrow> string \<Rightarrow> tables \<Rightarrow> tables" where
  "upsert_meta key val t =
     (case lookup_meta key t of
        None \<Rightarrow> t\<lparr>meta_table := meta_table t @ [(key, val)]\<rparr>
      | Some _ \<Rightarrow> t\<lparr>meta_table := map (\<lambda>(k, v). if k = key then (k, val) else (k, v)) (meta_table t)\<rparr>)"

text \<open>\<open>DELETE FROM meta WHERE key GLOB 'gatehub_cursor:*'\<close>.\<close>

definition delete_cursors :: "tables \<Rightarrow> tables" where
  "delete_cursors t =
     t\<lparr>meta_table := filter (\<lambda>(k, v). \<not> has_prefix k ''gatehub_cursor:'') (meta_table t)\<rparr>"

definition alert_recorded :: "string \<Rightarrow> string \<Rightarrow> tables \<Rightarrow> bool" where
  "alert_recorded rng ip t \<longleftrightarrow> list_ex (\<lambda>a. a_range a = rng \<and> a_ip a = ip) (blocked_range_alerts t)"

definition insert_alert :: "string \<Rightarrow> string \<Rightarrow> string \<Rightarrow> string \<Rightarrow> tables \<Rightarrow> nat \<times> tables" where
  "insert_alert rng ip fp now t =
     (if alert_recorded rng ip t then (0, t)
      else (1, t\<lparr>blocked_range_alerts := blocked_range_alerts t
                   @ [\<lparr>a_range = rng, a_ip = ip, a_fp = fp, a_first_seen = now\<rparr>]\<rparr>))"

definition delete_alert :: "string \<Rightarrow> string \<Rightarrow> tables \<Rightarrow> tables" where
  "delete_alert rng ip t = t\<lparr>blocked_range_alerts :=
     filter (\<lambda>a. \<not> (a_range a = rng \<and> a_ip a = ip)) (blocked_range_alerts t)\<rparr>"

section \<open>Keys and references\<close>

text \<open>
  What the schema's \<open>PRIMARY KEY\<close> and \<open>REFERENCES\<close> clauses say of the tables.
\<close>

definition fps :: "tables \<Rightarrow> string set" where
  "fps t = r_fp ` set (fingerprints t)"

definition keys_ok :: "tables \<Rightarrow> bool" where
  "keys_ok t \<longleftrightarrow>
     distinct (map r_fp (fingerprints t)) \<and>
     distinct (fingerprint_ips t) \<and> fst ` set (fingerprint_ips t) \<subseteq> fps t \<and>
     distinct (fingerprint_ports t) \<and> fst ` set (fingerprint_ports t) \<subseteq> fps t \<and>
     distinct (map s_key (fingerprint_sightings t)) \<and> s_fp ` set (fingerprint_sightings t) \<subseteq> fps t \<and>
     distinct (map fst (meta_table t)) \<and>
     distinct (map (\<lambda>a. (a_range a, a_ip a)) (blocked_range_alerts t))"

lemma keys_okD:
  assumes "keys_ok t"
  shows "distinct (map r_fp (fingerprints t))" "distinct (fingerprint_ips t)"
    "distinct (fingerprint_ports t)" "distinct (map s_key (fingerprint_sightings t))"
    "distinct (map fst (meta_table t))"
  using assms by (simp_all add: keys_ok_def)

lemma keys_ok_empty: "keys_ok empty_tables"
  by (simp add: keys_ok_def empty_tables_def)

section \<open>Looking up fingerprints\<close>

lemma find_distinct_key:
  "distinct (map f xs) \<Longrightarrow> x \<in> set xs \<Longrightarrow> find (\<lambda>y. f y = f x) xs = Some x"
  by (induction xs) (auto simp: rev_image_eqI)

lemma find_fp_SomeD: "find_fp fp t = Some r \<Longrightarrow> r \<in> set (fingerprints t) \<and> r_fp r = fp"
  by (auto simp: find_fp_def find_Some_iff)

lemma find_fp_None_iff: "find_fp fp t = None \<longleftrightarrow> fp \<notin> fps t"
  by (auto simp: find_fp_def find_None_iff fps_def)

lemma find_fp_Some_iff:
  "keys_ok t \<Longrightarrow> find_fp fp t = Some r \<longleftrightarrow> r \<in> set (fingerprints t) \<and> r_fp r = fp"
  using find_distinct_key [of r_fp "fingerprints t" r]
  by (auto simp: find_fp_def keys_ok_def find_Some_iff)

lemma find_map_key:
  assumes "\<And>r. key (f r) = key r"
  shows "find (\<lambda>r. key r = g) (map (\<lambda>r. if key r = k then f r else r) xs) =
    (if g = k then map_option f (find (\<lambda>r. key r = g) xs) else find (\<lambda>r. key r = g) xs)"
  using assms by (induction xs) auto

lemma find_filter_key:
  "distinct (map key xs) \<Longrightarrow>
    find (\<lambda>r. key r = g) (filter P xs) =
      (case find (\<lambda>r. key r = g) xs of None \<Rightarrow> None | Some r \<Rightarrow> if P r then Some r else None)"
  by (induction xs) (auto split: option.splits simp: find_Some_iff find_None_iff rev_image_eqI)

lemma find_append: "find P (xs @ ys) = (case find P xs of None \<Rightarrow> find P ys | Some x \<Rightarrow> Some x)"
  by (induction xs) auto

text \<open>\<open>row_update f\<close>: a change of a row that keeps its key, as every \<open>UPDATE\<close> of the store does.\<close>

definition row_update :: "(fp_row \<Rightarrow> fp_row) \<Rightarrow> bool" where
  "row_update f \<longleftrightarrow> (\<forall>r. r_fp (f r) = r_fp r)"

lemma find_fp_update_fp:
  "row_update f \<Longrightarrow> find_fp g (update_fp fp f t) = (if g = fp then map_option f (find_fp g t) else find_fp g t)"
  unfolding find_fp_def update_fp_def row_update_def by (simp add: find_map_key)

lemma find_fp_append_fp:
  "find_fp g (append_fp r t) =
     (case find_fp g t of None \<Rightarrow> if r_fp r = g then Some r else None | Some x \<Rightarrow> Some x)"
  by (simp add: find_fp_def append_fp_def find_append split: option.split)

lemma find_fp_delete_fps:
  "keys_ok t \<Longrightarrow> find_fp g (snd (delete_fps P t)) =
     (case find_fp g t of None \<Rightarrow> None | Some r \<Rightarrow> if P r then None else Some r)"
  by (simp add: find_fp_def delete_fps_def Let_def keys_ok_def find_filter_key split: option.splits)

lemma distinct_map_row_update:
  "row_update f \<Longrightarrow> map r_fp (map (\<lambda>r. if r_fp r = fp then f r else r) xs) = map r_fp xs"
  by (simp add: row_update_def)

lemma fps_update_fp [simp]: "row_update f \<Longrightarrow> fps (update_fp fp f t) = fps t"
  unfolding fps_def list.set_map [symmetric] update_fp_def
  by (simp add: distinct_map_row_update del: map_map list.set_map set_map)

lemma fps_append_fp [simp]: "fps (append_fp r t) = insert (r_fp r) (fps t)"
  by (simp add: fps_def append_fp_def)

text \<open>The tables each statement leaves alone.\<close>

lemma frame_fp [sql_simps]:
  "fingerprint_ips (update_fp fp f t) = fingerprint_ips t"
  "fingerprint_ports (update_fp fp f t) = fingerprint_ports t"
  "fingerprint_sightings (update_fp fp f t) = fingerprint_sightings t"
  "blocked_range_alerts (update_fp fp f t) = blocked_range_alerts t"
  "meta_table (update_fp fp f t) = meta_table t"
  "fingerprint_ips (append_fp r t) = fingerprint_ips t"
  "fingerprint_ports (append_fp r t) = fingerprint_ports t"
  "fingerprint_sightings (append_fp r t) = fingerprint_sightings t"
  "blocked_range_alerts (append_fp r t) = blocked_range_alerts t"
  "meta_table (append_fp r t) = meta_table t"
  "blocked_range_alerts (snd (delete_fps P t)) = blocked_range_alerts t"
  "meta_table (snd (delete_fps P t)) = meta_table t"
  by (simp_all add: update_fp_def append_fp_def delete_fps_def Let_def)

lemma frame_history [sql_simps]:
  "fingerprints (insert_ip fp ip t) = fingerprints t"
  "fingerprints (insert_port fp port t) = fingerprints t"
  "fingerprints (upsert_sighting fp ip port now t) = fingerprints t"
  "fingerprints (trim_sightings fp t) = fingerprints t"
  "fingerprints (trim_ips fp t) = fingerprints t"
  "fingerprints (trim_ports fp t) = fingerprints t"
  "fingerprints (bound_sightings t) = fingerprints t"
  "fingerprints (bound_ips t) = fingerprints t"
  "fingerprints (bound_ports t) = fingerprints t"
  "fingerprints (upsert_meta k v t) = fingerprints t"
  "fingerprints (delete_cursors t) = fingerprints t"
  "fingerprints (snd (insert_alert rng ip fp now t)) = fingerprints t"
  "fingerprints (delete_alert rng ip t) = fingerprints t"
  by (simp_all add: insert_ip_def insert_port_def upsert_sighting_def trim_sightings_def trim_ips_def
      trim_ports_def bound_sightings_def bound_ips_def bound_ports_def upsert_meta_def
      delete_cursors_def insert_alert_def delete_alert_def Let_def split: option.splits)

lemma frame_meta [sql_simps]:
  "meta_table (insert_ip fp ip t) = meta_table t"
  "meta_table (insert_port fp port t) = meta_table t"
  "meta_table (upsert_sighting fp ip port now t) = meta_table t"
  "meta_table (trim_sightings fp t) = meta_table t"
  "meta_table (trim_ips fp t) = meta_table t"
  "meta_table (trim_ports fp t) = meta_table t"
  by (simp_all add: insert_ip_def insert_port_def upsert_sighting_def trim_sightings_def trim_ips_def
      trim_ports_def Let_def)

lemma find_fp_frame: "fingerprints t = fingerprints u \<Longrightarrow> find_fp fp t = find_fp fp u"
  by (simp add: find_fp_def)

lemma fps_frame: "fingerprints t = fingerprints u \<Longrightarrow> fps t = fps u"
  by (simp add: fps_def)

lemmas find_fp_simps = find_fp_frame [OF frame_history(1)] find_fp_frame [OF frame_history(2)]
  find_fp_frame [OF frame_history(3)] find_fp_frame [OF frame_history(4)]
  find_fp_frame [OF frame_history(5)] find_fp_frame [OF frame_history(6)]
  find_fp_frame [OF frame_history(7)] find_fp_frame [OF frame_history(8)]
  find_fp_frame [OF frame_history(9)] find_fp_frame [OF frame_history(10)]
  find_fp_frame [OF frame_history(11)]

section \<open>Every statement keeps the keys\<close>

lemma keys_ok_update_fp: "keys_ok t \<Longrightarrow> row_update f \<Longrightarrow> keys_ok (update_fp fp f t)"
  unfolding keys_ok_def fps_update_fp frame_fp
  unfolding update_fp_def by (simp add: distinct_map_row_update del: map_map)

lemma keys_ok_append_fp: "keys_ok t \<Longrightarrow> r_fp r \<notin> fps t \<Longrightarrow> keys_ok (append_fp r t)"
  unfolding keys_ok_def fps_append_fp frame_fp
  by (auto simp: append_fp_def fps_def)

lemma keys_ok_delete_fps:
  assumes "keys_ok t"
  shows "keys_ok (snd (delete_fps P t))"
proof -
  let ?u = "snd (delete_fps P t)"
  have sub: "f \<in> fps t \<Longrightarrow> f \<notin> r_fp ` {r \<in> set (fingerprints t). P r} \<Longrightarrow> f \<in> fps ?u" for f
    by (auto simp: fps_def delete_fps_def Let_def)
  have "fst ` set (fingerprint_ips ?u) \<subseteq> fps ?u" "fst ` set (fingerprint_ports ?u) \<subseteq> fps ?u"
    "s_fp ` set (fingerprint_sightings ?u) \<subseteq> fps ?u"
    using assms sub by (auto simp: delete_fps_def Let_def keys_ok_def)
  then show ?thesis
    using assms by (simp add: keys_ok_def delete_fps_def Let_def distinct_map_filter)
qed

lemma keys_ok_insert_ip: "keys_ok t \<Longrightarrow> fp \<in> fps t \<Longrightarrow> keys_ok (insert_ip fp ip t)"
  by (auto simp: keys_ok_def insert_ip_def fps_def)

lemma keys_ok_insert_port: "keys_ok t \<Longrightarrow> fp \<in> fps t \<Longrightarrow> keys_ok (insert_port fp port t)"
  by (auto simp: keys_ok_def insert_port_def fps_def)

lemma s_key_seen: "map s_key (map (\<lambda>s. if P s then s\<lparr>s_seen := now\<rparr> else s) ss) = map s_key ss"
  "map s_fp (map (\<lambda>s. if P s then s\<lparr>s_seen := now\<rparr> else s) ss) = map s_fp ss"
  by (simp_all add: s_key_def)

lemma keys_ok_sightings:
  "keys_ok t \<Longrightarrow> distinct (map s_key ss) \<Longrightarrow> s_fp ` set ss \<subseteq> fps t \<Longrightarrow>
    keys_ok (t\<lparr>fingerprint_sightings := ss\<rparr>)"
  by (simp add: keys_ok_def fps_def)

lemma keys_ok_upsert_sighting:
  assumes "keys_ok t" "fp \<in> fps t"
  shows "keys_ok (upsert_sighting fp ip port now t)"
proof (cases "(fp, ip, port) \<in> s_key ` set (fingerprint_sightings t)")
  case True
  let ?ss = "map (\<lambda>s. if s_key s = (fp, ip, port) then s\<lparr>s_seen := now\<rparr> else s) (fingerprint_sightings t)"
  have "distinct (map s_key ?ss)" unfolding s_key_seen by (rule keys_okD(4) [OF assms(1)])
  moreover have "s_fp ` set ?ss = s_fp ` set (fingerprint_sightings t)"
    unfolding list.set_map [symmetric] s_key_seen ..
  then have "s_fp ` set ?ss \<subseteq> fps t" using assms(1) by (simp only: keys_ok_def)
  ultimately show ?thesis
    unfolding upsert_sighting_def using True keys_ok_sightings [OF assms(1)] by (simp only: if_True)
next
  case False
  then have "distinct (map s_key (fingerprint_sightings t
      @ [\<lparr>s_fp = fp, s_ip = ip, s_port = port, s_seen = now\<rparr>]))"
    using keys_okD(4) [OF assms(1)] by (simp add: s_key_def [of "\<lparr>s_fp = _, s_ip = _, s_port = _, s_seen = _\<rparr>"])
  moreover have "s_fp ` set (fingerprint_sightings t
      @ [\<lparr>s_fp = fp, s_ip = ip, s_port = port, s_seen = now\<rparr>]) \<subseteq> fps t"
    using assms by (simp add: keys_ok_def)
  ultimately show ?thesis
    unfolding upsert_sighting_def using False keys_ok_sightings [OF assms(1)] by (simp only: if_False)
qed

text \<open>A statement that only removes history rows keeps the keys.\<close>

lemma keys_ok_fewer:
  assumes ok: "keys_ok t" and "fingerprints u = fingerprints t"
    "\<exists>P. fingerprint_ips u = filter P (fingerprint_ips t)"
    "\<exists>P. fingerprint_ports u = filter P (fingerprint_ports t)"
    "\<exists>P. fingerprint_sightings u = filter P (fingerprint_sightings t)"
    "\<exists>P. meta_table u = filter P (meta_table t)"
    "\<exists>P. blocked_range_alerts u = filter P (blocked_range_alerts t)"
  shows "keys_ok u"
proof -
  obtain A B C D E where eqs: "fingerprint_ips u = filter A (fingerprint_ips t)"
    "fingerprint_ports u = filter B (fingerprint_ports t)"
    "fingerprint_sightings u = filter C (fingerprint_sightings t)"
    "meta_table u = filter D (meta_table t)"
    "blocked_range_alerts u = filter E (blocked_range_alerts t)"
    using assms by blast
  have sub: "f ` set (filter P xs) \<subseteq> S" if "f ` set xs \<subseteq> S" for f :: "'x \<Rightarrow> string" and P xs S
    using that by auto
  show ?thesis
    using ok unfolding keys_ok_def fps_frame [OF assms(2)] assms(2) eqs
    by (intro conjI; elim conjE; (simp only: distinct_filter distinct_map_filter sub)?)
qed

lemma same_filter: "\<exists>P. xs = filter P xs"
  by (rule exI [of _ "\<lambda>_. True"]) simp

lemma keys_ok_trim:
  assumes "keys_ok t"
  shows "keys_ok (trim_sightings fp t)" "keys_ok (trim_ips fp t)" "keys_ok (trim_ports fp t)"
    "keys_ok (bound_sightings t)" "keys_ok (bound_ips t)" "keys_ok (bound_ports t)"
    "keys_ok (delete_cursors t)" "keys_ok (delete_alert rng ip t)"
  unfolding trim_sightings_def trim_ips_def trim_ports_def bound_sightings_def bound_ips_def
        bound_ports_def delete_cursors_def delete_alert_def Let_def
  by (rule keys_ok_fewer [OF assms]; simp; blast intro: same_filter)+

lemma upsert_meta_keys: 
  "distinct (map fst (meta_table t)) \<Longrightarrow> distinct (map fst (meta_table (upsert_meta k v t)))"
proof -
  have "map fst (map (\<lambda>(k', v'). if k' = k then (k', v) else (k', v')) m) = map fst m" for m :: "(string \<times> string) list"
    by (induction m) auto
  then show "distinct (map fst (meta_table t)) \<Longrightarrow> distinct (map fst (meta_table (upsert_meta k v t)))"
    by (auto simp: upsert_meta_def lookup_meta_def map_of_eq_None_iff split: option.splits simp del: map_map)
qed

lemma keys_ok_upsert_meta: "keys_ok t \<Longrightarrow> keys_ok (upsert_meta k v t)"
  using upsert_meta_keys [of t k v]
  by (auto simp: keys_ok_def upsert_meta_def fps_def split: option.splits)

lemma keys_ok_insert_alert: "keys_ok t \<Longrightarrow> keys_ok (snd (insert_alert rng ip fp now t))"
  by (auto simp: keys_ok_def insert_alert_def alert_recorded_def list_ex_iff fps_def)

lemma keys_ok_rows:
  assumes "keys_ok t" "map r_fp rs = map r_fp (fingerprints t)"
  shows "keys_ok (t\<lparr>fingerprints := rs\<rparr>)"
proof -
  have "fps (t\<lparr>fingerprints := rs\<rparr>) = fps t"
    using arg_cong [OF assms(2), of set] by (simp add: fps_def)
  then show ?thesis using assms by (simp add: keys_ok_def)
qed

lemma map_r_fp_clear:
  "map r_fp (map (\<lambda>r. if MaxMetadataBytes < int (length (r_meta r)) then r\<lparr>r_meta := ''{}''\<rparr> else r) xs) = map r_fp xs"
  by (induction xs) auto

lemma keys_ok_clear_oversized_meta: "keys_ok t \<Longrightarrow> keys_ok (clear_oversized_meta t)"
  unfolding clear_oversized_meta_def by (erule keys_ok_rows) (rule map_r_fp_clear)

section \<open>Bounded history\<close>

text \<open>
  The contract of the three history tables: an ordered selection per fingerprint, a statement that
  cuts one selection back to its first 128 entries, and a statement that cuts all of them.
\<close>

locale bounded_history =
  fixes ok :: "'t \<Rightarrow> bool"
    and sel :: "'k \<Rightarrow> 't \<Rightarrow> 'a list"
    and trim :: "'k \<Rightarrow> 't \<Rightarrow> 't"
    and bound :: "'t \<Rightarrow> 't"
  assumes trim_ok: "ok t \<Longrightarrow> ok (trim k t)"
    and bound_ok: "ok t \<Longrightarrow> ok (bound t)"
    and sel_trim: "ok t \<Longrightarrow> sel k' (trim k t) = (if k' = k then take MaxObservationValues (sel k t) else sel k' t)"
    and sel_bound: "ok t \<Longrightarrow> sel k (bound t) = take MaxObservationValues (sel k t)"
begin

lemma length_trim: "ok t \<Longrightarrow> length (sel k (trim k t)) \<le> MaxObservationValues"
  by (simp add: sel_trim)

lemma length_trim_le: "ok t \<Longrightarrow> length (sel k' (trim k t)) \<le> length (sel k' t)"
  by (simp add: sel_trim)

lemma length_bound: "ok t \<Longrightarrow> length (sel k (bound t)) \<le> MaxObservationValues"
  by (simp add: sel_bound)

lemma trim_within: "ok t \<Longrightarrow> length (sel k t) \<le> MaxObservationValues \<Longrightarrow> sel k' (trim k t) = sel k' t"
  by (simp add: sel_trim)

lemma trim_bound: "ok t \<Longrightarrow> sel k' (trim k (bound t)) = sel k' (bound t)"
  by (simp add: sel_trim sel_bound bound_ok)

lemma set_trim: "ok t \<Longrightarrow> set (sel k' (trim k t)) \<subseteq> set (sel k' t)"
  by (simp add: sel_trim set_take_subset)

end

lemma filter_notin_drop: "distinct ys \<Longrightarrow> filter (\<lambda>x. x \<notin> set (drop n ys)) ys = take n ys"
proof -
  assume "distinct ys"
  then have "set (take n ys) \<inter> set (drop n ys) = {}" by (rule set_take_disj_set_drop_if_distinct) simp
  then have "filter (\<lambda>x. x \<notin> set (drop n ys)) (take n ys @ drop n ys) = take n ys"
    by (auto simp only: filter_append filter_True filter_False append_Nil2)
      (simp add: filter_id_conv disjoint_iff)
  then show ?thesis by simp
qed

text \<open>Deleting what lies past the offset of an ordered selection leaves its first entries.\<close>

lemma sort_key_keep:
  "distinct xs \<Longrightarrow> sort_key k (filter (\<lambda>x. x \<notin> set (drop n (sort_key k xs))) xs) = take n (sort_key k xs)"
  using filter_notin_drop [of "sort_key k xs" n] by (simp flip: filter_sort)

lemma map_snd_filter: "map snd (filter (\<lambda>(f, x). f = fp \<and> P x) ps) = filter P (map snd (filter (\<lambda>(f, x). f = fp) ps))"
  by (induction ps) auto

lemma distinct_snd_key: "distinct ps \<Longrightarrow> distinct (map snd (filter (\<lambda>(f, x). f = fp) ps))"
  by (induction ps) (auto simp: image_iff)

text \<open>The values of one key in a two-column table, and the two ways its surplus is deleted.\<close>

definition values_of :: "'k \<Rightarrow> ('k \<times> 'v::linorder) list \<Rightarrow> 'v list" where
  "values_of fp ps = sort (map snd (filter (\<lambda>(f, x). f = fp) ps))"

lemma pair_keep:
  assumes "distinct ps"
  shows "sort (map snd (filter (\<lambda>(f, x). f = fp \<and> x \<notin> set (drop n (values_of fp ps))) ps)) =
    take n (values_of fp ps)"
  using sort_key_keep [OF distinct_snd_key [OF assms, of fp], of "\<lambda>x. x" n]
  by (simp add: map_snd_filter values_of_def)

lemma pair_trim:
  assumes "distinct ps"
  shows "values_of g (filter (\<lambda>(f, x). \<not> (f = fp \<and> x \<in> set (drop n (values_of fp ps)))) ps) =
    (if g = fp then take n (values_of fp ps) else values_of g ps)"
proof -
  let ?Q = "\<lambda>x. x \<in> set (drop n (values_of fp ps))"
  have "filter (\<lambda>(f, x). f = g) (filter (\<lambda>(f, x). \<not> (f = fp \<and> ?Q x)) ps) =
     (if g = fp then filter (\<lambda>(f, x). f = fp \<and> \<not> ?Q x) ps else filter (\<lambda>(f, x). f = g) ps)"
    by (auto intro!: filter_cong)
  then show ?thesis
    using pair_keep [OF assms, of fp n] unfolding values_of_def [of g] by (simp split: if_splits)
qed

lemma pair_bound:
  assumes "distinct ps"
  shows "values_of g (filter (\<lambda>(f, x). x \<notin> set (drop n (values_of f ps))) ps) = take n (values_of g ps)"
proof -
  have "filter (\<lambda>(f, x). f = g) (filter (\<lambda>(f, x). x \<notin> set (drop n (values_of f ps))) ps) =
      filter (\<lambda>(f, x). f = g \<and> x \<notin> set (drop n (values_of g ps))) ps"
    by (auto intro!: filter_cong)
  then show ?thesis using pair_keep [OF assms, of g n] unfolding values_of_def [of g] by simp
qed

lemma ips_of_values: "ips_of fp t = values_of fp (fingerprint_ips t)"
  by (simp add: ips_of_def values_of_def)

lemma ports_of_values: "ports_of fp t = values_of fp (fingerprint_ports t)"
  by (simp add: ports_of_def values_of_def)

lemma set_columns:
  "fingerprint_ips (t\<lparr>fingerprint_ips := ips\<rparr>) = ips"
  "fingerprint_ports (t\<lparr>fingerprint_ports := ports\<rparr>) = ports"
  by simp_all

lemma ips_of_trim:
  assumes "keys_ok t"
  shows "ips_of g (trim_ips fp t) = (if g = fp then take MaxObservationValues (ips_of fp t) else ips_of g t)"
    "ips_of g (bound_ips t) = take MaxObservationValues (ips_of g t)"
  using pair_trim [OF keys_okD(2) [OF assms]] pair_bound [OF keys_okD(2) [OF assms]]
  by (simp_all only: ips_of_values trim_ips_def bound_ips_def Let_def set_columns)

lemma ports_of_trim:
  assumes "keys_ok t"
  shows "ports_of g (trim_ports fp t) = (if g = fp then take MaxObservationValues (ports_of fp t) else ports_of g t)"
    "ports_of g (bound_ports t) = take MaxObservationValues (ports_of g t)"
  using pair_trim [OF keys_okD(3) [OF assms]] pair_bound [OF keys_okD(3) [OF assms]]
  by (simp_all only: ports_of_values trim_ports_def bound_ports_def Let_def set_columns)

lemma s_key_partition:
  assumes "distinct (map s_key ss)"
  shows "distinct (filter (\<lambda>s. s_fp s = fp) ss)"
    "s \<in> set ss \<Longrightarrow> s' \<in> set ss \<Longrightarrow> s_key s = s_key s' \<Longrightarrow> s = s'"
  using assms by (auto simp: distinct_map inj_on_def)

lemma sightings_keep:
  assumes "distinct (map s_key ss)"
    and "over = drop n (sort_key recent_first (filter (\<lambda>s. s_fp s = fp) ss))"
  shows "sort_key recent_first (filter (\<lambda>s. s_fp s = fp \<and> s_key s \<notin> s_key ` set over) ss) =
    take n (sort_key recent_first (filter (\<lambda>s. s_fp s = fp) ss))"
proof -
  have sub: "set over \<subseteq> set ss"
    using set_drop_subset [of n "sort_key recent_first (filter (\<lambda>s. s_fp s = fp) ss)"] assms(2) by auto
  have "s_key s \<in> s_key ` set over \<longleftrightarrow> s \<in> set over" if "s \<in> set ss" for s
    using s_key_partition(2) [OF assms(1) that] sub by blast
  then have "filter (\<lambda>s. s_fp s = fp \<and> s_key s \<notin> s_key ` set over) ss =
      filter (\<lambda>s. s \<notin> set over) (filter (\<lambda>s. s_fp s = fp) ss)"
    by (auto intro!: filter_cong simp: conj_commute)
  then show ?thesis
    using sort_key_keep [OF s_key_partition(1) [OF assms(1)]] assms(2) by simp
qed

lemma sightings_of_fp: "s \<in> set (sightings_of fp t) \<Longrightarrow> s_fp s = fp"
  by (simp add: sightings_of_def)

lemma s_key_over: "s_fp s = fp \<Longrightarrow> (s_ip s, s_port s) \<in> (\<lambda>s. (s_ip s, s_port s)) ` set (drop n (sightings_of fp t))
    \<longleftrightarrow> s_key s \<in> s_key ` set (drop n (sightings_of fp t))"
proof -
  assume fp: "s_fp s = fp"
  have "s_fp s' = fp" if "s' \<in> set (drop n (sightings_of fp t))" for s'
    using that by (meson in_set_dropD sightings_of_fp)
  then show ?thesis using fp by (simp add: s_key_def image_iff cong: bex_cong)
qed

lemma sightings_of_trim:
  assumes "keys_ok t"
  shows "sightings_of g (trim_sightings fp t) =
    (if g = fp then take MaxObservationValues (sightings_of fp t) else sightings_of g t)"
proof (cases "g = fp")
  case True
  have "filter (\<lambda>s. s_fp s = fp) (fingerprint_sightings (trim_sightings fp t)) =
      filter (\<lambda>s. s_fp s = fp \<and> s_key s \<notin> s_key ` set (drop MaxObservationValues (sightings_of fp t)))
        (fingerprint_sightings t)"
    by (auto simp: trim_sightings_def Let_def s_key_over intro!: filter_cong)
  then show ?thesis
    using sightings_keep [OF keys_okD(4) [OF assms] refl, of fp MaxObservationValues] True
    by (simp add: sightings_of_def)
next
  case False
  then show ?thesis
    by (auto simp: sightings_of_def trim_sightings_def Let_def intro!: arg_cong [of _ _ "sort_key _"] filter_cong)
qed

lemma sightings_of_bound:
  assumes "keys_ok t"
  shows "sightings_of fp (bound_sightings t) = take MaxObservationValues (sightings_of fp t)"
proof -
  have "filter (\<lambda>s. s_fp s = fp) (fingerprint_sightings (bound_sightings t)) =
      filter (\<lambda>s. s_fp s = fp \<and> s_key s \<notin> s_key ` set (drop MaxObservationValues (sightings_of fp t)))
        (fingerprint_sightings t)"
    by (auto simp: bound_sightings_def intro!: filter_cong)
  then show ?thesis
    using sightings_keep [OF keys_okD(4) [OF assms] refl, of fp MaxObservationValues]
    by (simp add: sightings_of_def)
qed

interpretation ip_history: bounded_history keys_ok ips_of trim_ips bound_ips
  by unfold_locales (simp_all add: keys_ok_trim ips_of_trim)

interpretation port_history: bounded_history keys_ok ports_of trim_ports bound_ports
  by unfold_locales (simp_all add: keys_ok_trim ports_of_trim)

interpretation sighting_history: bounded_history keys_ok sightings_of trim_sightings bound_sightings
  by unfold_locales (simp_all add: keys_ok_trim sightings_of_trim sightings_of_bound)

section \<open>Eviction\<close>

text \<open>
  What \<open>ORDER BY last_seen ASC\<close> promises of the engine's ordering of a list of rows: the same
  rows, in nondecreasing order of their \<open>last_seen\<close> text.
\<close>

locale last_seen_order =
  fixes ord :: "fp_row list \<Rightarrow> fp_row list"
  assumes mset_ord: "mset (ord rs) = mset rs"
    and sorted_ord: "sorted (map r_last_seen (ord rs))"
begin

lemma set_ord [simp]: "set (ord rs) = set rs"
  using mset_ord mset_eq_setD by blast

lemma length_ord [simp]: "length (ord rs) = length rs"
  using mset_ord mset_eq_length by blast

text \<open>A row that is kept was last seen no earlier than every row that is evicted.\<close>

lemma take_oldest:
  assumes "r \<in> set (take n (ord rs))" "r' \<in> set rs" "r' \<notin> set (take n (ord rs))"
  shows "r_last_seen r \<le> r_last_seen r'"
proof -
  have "r' \<in> set (drop n (ord rs))"
    using assms(2,3) set_append [of "take n (ord rs)" "drop n (ord rs)"] by simp
  moreover have "sorted (map r_last_seen (take n (ord rs)) @ map r_last_seen (drop n (ord rs)))"
    using sorted_ord by (metis append_take_drop_id map_append)
  ultimately show ?thesis using assms(1) by (auto simp: sorted_append)
qed

end

interpretation rowid_ties: last_seen_order "sort_key r_last_seen"
  by unfold_locales simp_all

end
