(* ===== verification/Entries.thy ===== *)
theory Entries
  imports Tables
begin

text \<open>
  Stored entries as the API shows them (\<open>src/store/store.go\<close>): the records, the decoding of a
  \<open>fingerprints\<close> row by \<open>scanEntry\<close>, the encoding of a metadata bag, and the helpers that read the
  history tables.  A nil Go slice and an empty one are both \<open>[]\<close>; a nil \<open>Meta\<close> map is \<open>None\<close>.
\<close>

section \<open>Records\<close>

record sighting =
  sIP :: string
  sPort :: int
  sLastSeen :: time

record entry =
  eApprovalRanges :: "scope option"
  eFingerprint :: string
  eStatus :: string
  eLabel :: string
  eFirstSeen :: time
  eLastSeen :: time
  eCount :: int
  eIPs :: "string list"
  ePorts :: "int list"
  eSightings :: "sighting list"
  eMeta :: "(string \<times> json) list option"

record observation =
  oFingerprint :: string
  oIP :: string
  oPort :: int
  oMeta :: "(string \<times> json) list"

section \<open>Rows and entries\<close>

definition wrap_err :: "string \<Rightarrow> 'a result \<Rightarrow> 'a result" where
  "wrap_err context r = (case r of Inl e \<Rightarrow> Inl (Wrap context e) | Inr x \<Rightarrow> Inr x)"

text \<open>The \<open>approval_ranges\<close> column of \<open>scanEntry\<close>.\<close>

definition scan_ranges :: "string \<Rightarrow> string option \<Rightarrow> (scope option) result" where
  "scan_ranges status ranges =
     (case ranges of
        None \<Rightarrow> Inr None
      | Some s \<Rightarrow>
          (case json_Unmarshal_scope s of
             Inl e \<Rightarrow> Inl (Wrap ''decode approval_ranges'' e)
           | Inr None \<Rightarrow> Inl (Errorf ''non-null approval_ranges must contain CIDRs'' [])
           | Inr (Some sc) \<Rightarrow>
               if status \<noteq> StatusApproved then Inl (Errorf ''scope on non-approved entry'' [])
               else Inr (Some sc)))"

text \<open>The \<open>meta\<close> column: blank text leaves the map nil.\<close>

definition scan_meta :: "string \<Rightarrow> ((string \<times> json) list option) result" where
  "scan_meta s =
     (if TrimSpace s = [] then Inr None else wrap_err ''decode meta'' (json_Unmarshal_map s))"

definition scanEntry :: "fp_row \<Rightarrow> entry result" where
  "scanEntry r =
     (case scan_ranges (r_status r) (r_ranges r) of
        Inl e \<Rightarrow> Inl e
      | Inr sc \<Rightarrow>
          (case wrap_err ''decode first_seen'' (decodeTime (r_first_seen r)) of
             Inl e \<Rightarrow> Inl e
           | Inr firstSeen \<Rightarrow>
               (case wrap_err ''decode last_seen'' (decodeTime (r_last_seen r)) of
                  Inl e \<Rightarrow> Inl e
                | Inr lastSeen \<Rightarrow>
                    (case scan_meta (r_meta r) of
                       Inl e \<Rightarrow> Inl e
                     | Inr meta \<Rightarrow>
                         Inr \<lparr>eApprovalRanges = sc, eFingerprint = r_fp r, eStatus = r_status r,
                              eLabel = r_label r, eFirstSeen = firstSeen, eLastSeen = lastSeen,
                              eCount = r_count r, eIPs = [], ePorts = [], eSightings = [],
                              eMeta = meta\<rparr>))))"

definition encodeMeta :: "(string \<times> json) list \<Rightarrow> string result" where
  "encodeMeta meta = (if meta = [] then Inr ''{}'' else json_Marshal (JObj meta))"

definition scan_sighting :: "sighting_row \<Rightarrow> sighting result" where
  "scan_sighting s =
     (case decodeTime (s_seen s) of
        Inl e \<Rightarrow> Inl e
      | Inr seen \<Rightarrow> Inr \<lparr>sIP = s_ip s, sPort = s_port s, sLastSeen = seen\<rparr>)"

section \<open>Reading the history\<close>

type_synonym 'a storeop = "(tables, 'a) dbop"

definition listStringsFrom :: "faults \<Rightarrow> (tables \<Rightarrow> string list) \<Rightarrow> (string list) storeop" where
  "listStringsFrom flt q = queryRowsD flt ''close string rows'' q retD"

definition listIntsFrom :: "faults \<Rightarrow> (tables \<Rightarrow> int list) \<Rightarrow> (int list) storeop" where
  "listIntsFrom flt q = queryRowsD flt ''close int rows'' q retD"

definition listSightingsFrom :: "faults \<Rightarrow> (tables \<Rightarrow> sighting_row list) \<Rightarrow> (sighting list) storeop" where
  "listSightingsFrom flt q =
     queryRowsD flt ''close sighting rows'' q (\<lambda>rows. liftD (scan_all scan_sighting rows))"

text \<open>\<open>out[fp] = append(out[fp], v)\<close> over the rows, for the sweeps of \<open>List\<close>.\<close>

definition map_get :: "('k \<times> 'v list) list \<Rightarrow> 'k \<Rightarrow> 'v list" where
  "map_get m k = (case map_of m k of None \<Rightarrow> [] | Some v \<Rightarrow> v)"

definition group_rows :: "(string \<times> 'v) list \<Rightarrow> (string \<times> 'v list) list" where
  "group_rows rows = foldl (\<lambda>m (fp, v). map_put fp (map_get m fp @ [v]) m) [] rows"

definition allStrings :: "faults \<Rightarrow> (tables \<Rightarrow> (string \<times> string) list) \<Rightarrow> ((string \<times> string list) list) storeop" where
  "allStrings flt q = queryRowsD flt ''close string rows'' q (\<lambda>rows. retD (group_rows rows))"

definition allInts :: "faults \<Rightarrow> (tables \<Rightarrow> (string \<times> int) list) \<Rightarrow> ((string \<times> int list) list) storeop" where
  "allInts flt q =
     queryRowsD flt ''close int rows'' q (\<lambda>rows. retD (map (\<lambda>(fp, v). (fp, sort v)) (group_rows rows)))"

definition allSightings :: "faults \<Rightarrow> (tables \<Rightarrow> sighting_row list) \<Rightarrow> ((string \<times> sighting list) list) storeop" where
  "allSightings flt q =
     queryRowsD flt ''close sighting rows'' q (\<lambda>rows.
       case scan_all scan_sighting rows of
         Inl e \<Rightarrow> raiseD e
       | Inr ss \<Rightarrow> retD (group_rows (zip (map s_fp rows) ss)))"

section \<open>Well-formed rows\<close>

text \<open>A row the store can read back: a recognised status, and every column decodes.\<close>

definition row_ok :: "fp_row \<Rightarrow> bool" where
  "row_ok r \<longleftrightarrow> Valid (r_status r) \<and> (case scanEntry r of Inl _ \<Rightarrow> False | Inr _ \<Rightarrow> True)"

definition db_ok :: "tables \<Rightarrow> bool" where
  "db_ok t \<longleftrightarrow> keys_ok t \<and> list_all row_ok (fingerprints t)
     \<and> list_all (\<lambda>s. case scan_sighting s of Inl _ \<Rightarrow> False | Inr _ \<Rightarrow> True) (fingerprint_sightings t)"

text \<open>Every fingerprint's history within \<open>MaxObservationValues\<close>.\<close>

definition history_ok :: "tables \<Rightarrow> bool" where
  "history_ok t \<longleftrightarrow> (\<forall>fp. length (ips_of fp t) \<le> MaxObservationValues \<and>
     length (ports_of fp t) \<le> MaxObservationValues \<and> length (sightings_of fp t) \<le> MaxObservationValues)"

section \<open>Decoding lemmas\<close>

lemma wrap_err_Inr [simp]: "wrap_err ctxt r = Inr x \<longleftrightarrow> r = Inr x"
  by (simp add: wrap_err_def split: sum.splits)

lemma scanEntry_Inr:
  "scanEntry r = Inr e \<longleftrightarrow>
    (\<exists>sc first_seen last_seen meta.
       scan_ranges (r_status r) (r_ranges r) = Inr sc \<and> decodeTime (r_first_seen r) = Inr first_seen \<and>
       decodeTime (r_last_seen r) = Inr last_seen \<and> scan_meta (r_meta r) = Inr meta \<and>
       e = \<lparr>eApprovalRanges = sc, eFingerprint = r_fp r, eStatus = r_status r, eLabel = r_label r,
            eFirstSeen = first_seen, eLastSeen = last_seen, eCount = r_count r, eIPs = [], ePorts = [],
            eSightings = [], eMeta = meta\<rparr>)"
  unfolding scanEntry_def wrap_err_def by (auto split: sum.splits)

lemma scanEntry_fields:
  assumes "scanEntry r = Inr e"
  shows "eFingerprint e = r_fp r" "eStatus e = r_status r" "eLabel e = r_label r" "eCount e = r_count r"
    "eIPs e = []" "ePorts e = []" "eSightings e = []"
    "scan_ranges (r_status r) (r_ranges r) = Inr (eApprovalRanges e)"
    "decodeTime (r_first_seen r) = Inr (eFirstSeen e)" "decodeTime (r_last_seen r) = Inr (eLastSeen e)"
    "scan_meta (r_meta r) = Inr (eMeta e)"
  using assms unfolding scanEntry_Inr by auto

lemma row_ok_iff:
  "row_ok r \<longleftrightarrow> Valid (r_status r) \<and> (\<exists>sc. scan_ranges (r_status r) (r_ranges r) = Inr sc) \<and>
    (\<exists>x. decodeTime (r_first_seen r) = Inr x) \<and> (\<exists>x. decodeTime (r_last_seen r) = Inr x) \<and>
    (\<exists>m. scan_meta (r_meta r) = Inr m)"
proof -
  have "(case scanEntry r of Inl _ \<Rightarrow> False | Inr _ \<Rightarrow> True) \<longleftrightarrow> (\<exists>e. scanEntry r = Inr e)"
    by (auto split: sum.splits)
  then show ?thesis unfolding row_ok_def scanEntry_Inr by blast
qed

lemma row_ok_scan: "row_ok r \<Longrightarrow> \<exists>e. scanEntry r = Inr e"
  by (auto simp: row_ok_def split: sum.splits)

lemma scan_ranges_None [simp]: "scan_ranges s None = Inr None"
  by (simp add: scan_ranges_def)

lemma scan_ranges_Some:
  "scan_ranges s (Some j) = Inr sc \<Longrightarrow> s = StatusApproved \<and> (\<exists>x. sc = Some x)"
  by (auto simp: scan_ranges_def split: sum.splits option.splits if_splits)

lemma scan_meta_empty [simp]: "scan_meta ''{}'' = Inr (Some [])"
  by code_simp

lemma decodeTime_now: "four_digit_year now \<Longrightarrow> decodeTime (encodeTime now) = Inr now"
  using parse_encodeTime [of now "[]"] by (simp add: decodeTime_def)

text \<open>How the changes the store makes to a row keep it readable.\<close>

lemma row_ok_label [simp]: "row_ok (r\<lparr>r_label := l\<rparr>) = row_ok r"
  by (simp add: row_ok_iff)

lemma row_ok_unscoped: "row_ok r \<Longrightarrow> Valid s \<Longrightarrow> row_ok (r\<lparr>r_status := s, r_ranges := None\<rparr>)"
  by (simp add: row_ok_iff)

lemma row_ok_decision:
  "row_ok r \<Longrightarrow> Valid s \<Longrightarrow> scan_ranges s sc = Inr x \<Longrightarrow> row_ok (r\<lparr>r_status := s, r_label := l, r_ranges := sc\<rparr>)"
  by (simp add: row_ok_iff)

lemma row_ok_placeholder:
  assumes "four_digit_year now" "Valid s" "scan_ranges s sc = Inr x"
  shows "row_ok \<lparr>r_fp = fp, r_status = s, r_label = l, r_first_seen = encodeTime now,
    r_last_seen = encodeTime now, r_count = n, r_meta = ''{}'', r_ranges = sc, r_legacy = lc\<rparr>"
  using assms decodeTime_now [OF assms(1)] by (simp add: row_ok_iff)

lemma row_ok_clear_meta: "row_ok r \<Longrightarrow> row_ok (r\<lparr>r_meta := ''{}''\<rparr>)"
  by (simp add: row_ok_iff)

lemma scan_sighting_Inr:
  "scan_sighting s = Inr x \<longleftrightarrow> (\<exists>seen. decodeTime (s_seen s) = Inr seen \<and> x = \<lparr>sIP = s_ip s, sPort = s_port s, sLastSeen = seen\<rparr>)"
  by (auto simp: scan_sighting_def split: sum.splits)

section \<open>The database invariant\<close>

lemma case_sum_ok: "(case v of Inl _ \<Rightarrow> False | Inr _ \<Rightarrow> True) \<longleftrightarrow> (\<exists>x. v = Inr x)"
  by (auto split: sum.splits)

lemma db_ok_iff:
  "db_ok t \<longleftrightarrow> keys_ok t \<and> (\<forall>r\<in>set (fingerprints t). row_ok r) \<and>
     (\<forall>s\<in>set (fingerprint_sightings t). \<exists>x. decodeTime (s_seen s) = Inr x)"
  by (simp add: db_ok_def list_all_iff case_sum_ok scan_sighting_Inr)

lemma db_ok_keys: "db_ok t \<Longrightarrow> keys_ok t"
  by (simp add: db_ok_iff)

lemma db_ok_find: "db_ok t \<Longrightarrow> find_fp fp t = Some r \<Longrightarrow> row_ok r"
  using find_fp_SomeD by (fastforce simp: db_ok_iff)

lemma db_ok_empty: "db_ok empty_tables"
  by (simp add: db_ok_iff keys_ok_empty) (simp add: empty_tables_def)

lemma db_ok_update_fp:
  assumes "db_ok t" "row_update f" "\<And>r. find_fp fp t = Some r \<Longrightarrow> row_ok (f r)"
  shows "db_ok (update_fp fp f t)"
proof -
  have k: "keys_ok (update_fp fp f t)" using assms(1,2) by (simp add: db_ok_iff keys_ok_update_fp)
  have "row_ok r" if "r \<in> set (fingerprints (update_fp fp f t))" for r
  proof -
    obtain r0 where r0: "r0 \<in> set (fingerprints t)" "r = (if r_fp r0 = fp then f r0 else r0)"
      using \<open>r \<in> set (fingerprints (update_fp fp f t))\<close> by (auto simp: update_fp_def)
    have "r_fp r0 = fp \<Longrightarrow> find_fp fp t = Some r0"
      using assms(1) r0(1) by (simp add: find_fp_Some_iff db_ok_iff)
    then show ?thesis using assms(1,3) r0 by (auto simp: db_ok_iff)
  qed
  with k assms(1) show ?thesis by (simp add: db_ok_iff frame_fp)
qed

lemma db_ok_append_fp: "db_ok t \<Longrightarrow> find_fp (r_fp r) t = None \<Longrightarrow> row_ok r \<Longrightarrow> db_ok (append_fp r t)"
  by (auto simp: db_ok_iff keys_ok_append_fp find_fp_None_iff frame_fp) (auto simp: append_fp_def)

lemma db_ok_delete_fps: "db_ok t \<Longrightarrow> db_ok (snd (delete_fps P t))"
  by (auto simp: db_ok_iff keys_ok_delete_fps) (auto simp: delete_fps_def Let_def)

text \<open>Statements on the other tables.\<close>

lemma db_ok_fewer:
  assumes "db_ok t" "keys_ok u" "fingerprints u = fingerprints t"
    "set (fingerprint_sightings u) \<subseteq> set (fingerprint_sightings t)"
  shows "db_ok u"
  using assms by (auto simp: db_ok_iff)

lemma fewer_sightings:
  "set (fingerprint_sightings (trim_sightings fp t)) \<subseteq> set (fingerprint_sightings t)"
  "set (fingerprint_sightings (bound_sightings t)) \<subseteq> set (fingerprint_sightings t)"
  by (auto simp: trim_sightings_def bound_sightings_def Let_def)

lemma frame_sightings [sql_simps]:
  "fingerprint_sightings (trim_ips fp t) = fingerprint_sightings t"
  "fingerprint_sightings (trim_ports fp t) = fingerprint_sightings t"
  "fingerprint_sightings (bound_ips t) = fingerprint_sightings t"
  "fingerprint_sightings (bound_ports t) = fingerprint_sightings t"
  "fingerprint_sightings (delete_cursors t) = fingerprint_sightings t"
  "fingerprint_sightings (delete_alert rng ip t) = fingerprint_sightings t"
  by (simp_all add: trim_ips_def trim_ports_def bound_ips_def bound_ports_def delete_cursors_def
      delete_alert_def Let_def)

lemma db_ok_trim:
  assumes "db_ok t"
  shows "db_ok (trim_sightings fp t)" "db_ok (trim_ips fp t)" "db_ok (trim_ports fp t)"
    "db_ok (bound_sightings t)" "db_ok (bound_ips t)" "db_ok (bound_ports t)"
    "db_ok (delete_cursors t)" "db_ok (delete_alert rng ip t)"
  by (simp_all add: db_ok_fewer [OF assms] keys_ok_trim db_ok_keys [OF assms] fewer_sightings sql_simps)

lemma db_ok_insert_ip: "db_ok t \<Longrightarrow> fp \<in> fps t \<Longrightarrow> db_ok (insert_ip fp ip t)"
  by (rule db_ok_fewer) (simp_all add: db_ok_keys keys_ok_insert_ip frame_history, simp add: insert_ip_def)

lemma db_ok_insert_port: "db_ok t \<Longrightarrow> fp \<in> fps t \<Longrightarrow> db_ok (insert_port fp port t)"
  by (rule db_ok_fewer) (simp_all add: db_ok_keys keys_ok_insert_port frame_history, simp add: insert_port_def)

lemma db_ok_upsert_meta: "db_ok t \<Longrightarrow> db_ok (upsert_meta k v t)"
  by (rule db_ok_fewer)
    (simp_all add: db_ok_keys keys_ok_upsert_meta frame_history, simp add: upsert_meta_def split: option.splits)

lemma db_ok_insert_alert: "db_ok t \<Longrightarrow> db_ok (snd (insert_alert rng ip fp now t))"
  by (rule db_ok_fewer)
    (simp_all add: db_ok_keys keys_ok_insert_alert frame_history, simp add: insert_alert_def)

lemma db_ok_upsert_sighting:
  assumes "db_ok t" "fp \<in> fps t" "decodeTime now = Inr x"
  shows "db_ok (upsert_sighting fp ip port now t)"
proof -
  have "\<exists>x. decodeTime (s_seen s) = Inr x" if "s \<in> set (fingerprint_sightings (upsert_sighting fp ip port now t))" for s
    using that assms by (auto simp: upsert_sighting_def db_ok_iff split: if_splits)
  then show ?thesis
    using assms by (simp add: db_ok_iff frame_history keys_ok_upsert_sighting)
qed

lemma db_ok_clear_oversized_meta: "db_ok t \<Longrightarrow> db_ok (clear_oversized_meta t)"
proof -
  assume "db_ok t"
  then have "\<forall>r\<in>set (fingerprints (clear_oversized_meta t)). row_ok r"
    by (auto simp: clear_oversized_meta_def db_ok_iff row_ok_clear_meta)
  then show ?thesis
    using \<open>db_ok t\<close> keys_ok_clear_oversized_meta [of t] by (simp add: db_ok_iff clear_oversized_meta_def)
qed

section \<open>Reading back\<close>

lemma list_from_Inr:
  "listStringsFrom flt q c = (Inr xs, c') \<Longrightarrow> xs = q (tabs c)"
  "listIntsFrom flt q' c = (Inr ys, c') \<Longrightarrow> ys = q' (tabs c)"
  by (auto simp: listStringsFrom_def listIntsFrom_def queryRowsD_def dbop_Inr)

lemma listSightingsFrom_Inr:
  "listSightingsFrom flt q c = (Inr xs, c') \<Longrightarrow> scan_all scan_sighting (q (tabs c)) = Inr xs"
  by (auto simp: listSightingsFrom_def queryRowsD_def dbop_Inr)

lemma read_only_list:
  "read_only (listStringsFrom flt q)" "read_only (listIntsFrom flt q')" "read_only (listSightingsFrom flt q'')"
  unfolding listStringsFrom_def listIntsFrom_def listSightingsFrom_def by (intro read_onlyI)+

lemma map_of_group_rows:
  assumes "map_ok m"
  shows "map_get (foldl (\<lambda>m (fp, v). map_put fp (map_get m fp @ [v]) m) m rows) fp =
    map_get m fp @ map snd (filter (\<lambda>(f, v). f = fp) rows)"
  using assms
proof (induction rows arbitrary: m)
  case (Cons row rows)
  obtain f v where "row = (f, v)" by fastforce
  then show ?case
    using Cons.IH [OF map_ok_map_put [OF Cons.prems], of f "map_get m f @ [v]"] Cons.prems
    by (simp add: map_get_def)
qed simp

lemma map_get_group_rows: "map_get (group_rows rows) fp = map snd (filter (\<lambda>(f, v). f = fp) rows)"
  using map_of_group_rows [of "[]" rows fp] by (simp add: group_rows_def map_ok_def map_get_def)

end
