(* ===== verification/Store.thy ===== *)
theory Store
  imports Entries
begin

text \<open>
  The operations of \<open>src/store/store.go\<close>, \<open>src/store/limits.go\<close> and \<open>src/store/decisions.go\<close> on
  an open store, statement by statement.  \<open>flt\<close> says which database calls fail, \<open>ord\<close> is the
  engine's order of rows with equal \<open>last_seen\<close>, and \<open>now\<close> is the value of \<open>time.Now()\<close>.  The reader
  pool and the writer see the same committed tables, so both act on \<open>tabs\<close>.
\<close>

section \<open>Limits\<close>

definition trimHistory :: "faults \<Rightarrow> string \<Rightarrow> unit storeop" where
  "trimHistory flt fp =
     bindD (execD flt (\<lambda>t. ((), trim_sightings fp t))) (\<lambda>_.
     bindD (execD flt (\<lambda>t. ((), trim_ips fp t))) (\<lambda>_.
     execD flt (\<lambda>t. ((), trim_ports fp t))))"

definition boundExistingHistory :: "faults \<Rightarrow> unit storeop" where
  "boundExistingHistory flt =
     with_tx flt
       (bindD (execD flt (\<lambda>t. ((), clear_oversized_meta t))) (\<lambda>_.
        bindD (execD flt (\<lambda>t. ((), bound_sightings t))) (\<lambda>_.
        bindD (execD flt (\<lambda>t. ((), bound_ips t))) (\<lambda>_.
        execD flt (\<lambda>t. ((), bound_ports t))))))"

definition pruneToLimit :: "faults \<Rightarrow> (fp_row list \<Rightarrow> fp_row list) \<Rightarrow> int \<Rightarrow> int storeop" where
  "pruneToLimit flt ord max_rows =
     bindD (queryD flt (\<lambda>t. int (length (fingerprints t)))) (\<lambda>total.
       let excess = total - max_rows
       in if excess \<le> 0 then retD 0
          else bindD (execD flt (delete_oldest ord (nat excess))) (\<lambda>n. rowsAffected flt n))"

definition PruneToLimit :: "faults \<Rightarrow> (fp_row list \<Rightarrow> fp_row list) \<Rightarrow> int \<Rightarrow> int storeop" where
  "PruneToLimit flt ord max_rows =
     (if max_rows \<le> 0 then retD 0 else with_tx flt (pruneToLimit flt ord max_rows))"

section \<open>Observing and reading\<close>

text \<open>The three history queries of \<open>Observe\<close>, \<open>Get\<close> and \<open>ListPage\<close>.\<close>

definition attach_history :: "faults \<Rightarrow> string \<Rightarrow> entry \<Rightarrow> entry storeop" where
  "attach_history flt fp e =
     bindD (listStringsFrom flt (ips_of fp)) (\<lambda>ips.
     bindD (listIntsFrom flt (ports_of fp)) (\<lambda>ports.
     bindD (listSightingsFrom flt (sightings_of fp)) (\<lambda>sightings.
     retD (e\<lparr>eIPs := ips, ePorts := ports, eSightings := sightings\<rparr>))))"

definition observe_tx ::
  "faults \<Rightarrow> (fp_row list \<Rightarrow> fp_row list) \<Rightarrow> int \<Rightarrow> string \<Rightarrow> observation \<Rightarrow> string \<Rightarrow> string \<Rightarrow> entry storeop" where
  "observe_tx flt ord maxFingerprints now obs status metaJSON =
     (let fp = oFingerprint obs; ip = oIP obs; port = oPort obs
      in bindD (execD flt (upsert_observed fp status now metaJSON)) (\<lambda>row.
         bindD (liftD (scanEntry row)) (\<lambda>e.
         bindD (if ip \<noteq> [] then execD flt (\<lambda>t. ((), insert_ip fp ip t)) else retD ()) (\<lambda>_.
         bindD (if port \<noteq> 0 then execD flt (\<lambda>t. ((), insert_port fp port t)) else retD ()) (\<lambda>_.
         bindD (if ip \<noteq> [] then execD flt (\<lambda>t. ((), upsert_sighting fp ip port now t)) else retD ()) (\<lambda>_.
         bindD (trimHistory flt fp) (\<lambda>_.
         bindD (attach_history flt fp e) (\<lambda>e'.
         bindD (if eCount e = 1 \<and> 0 < maxFingerprints then pruneToLimit flt ord maxFingerprints else retD 0) (\<lambda>_.
         retD e')))))))))"

definition Observe ::
  "faults \<Rightarrow> (fp_row list \<Rightarrow> fp_row list) \<Rightarrow> int \<Rightarrow> time \<Rightarrow> observation \<Rightarrow> bool \<Rightarrow> entry storeop" where
  "Observe flt ord maxFingerprints now obs blockUnknown =
     (if oFingerprint obs = [] then raiseD (Errorf ''empty fingerprint'' [])
      else case encodeMeta (oMeta obs) of
             Inl e \<Rightarrow> raiseD e
           | Inr metaJSON \<Rightarrow>
               if MaxMetadataBytes < int (length metaJSON)
               then raiseD (Errorf ''metadata exceeds %d bytes'' [dec MaxMetadataBytes])
               else with_tx flt (observe_tx flt ord maxFingerprints (encodeTime now) obs
                      (if blockUnknown then StatusBlocked else StatusPending) metaJSON))"

definition Get :: "faults \<Rightarrow> string \<Rightarrow> entry storeop" where
  "Get flt fp =
     bindD (queryRowD flt (find_fp fp)) (\<lambda>row.
     bindD (liftD (scanEntry row)) (\<lambda>e. attach_history flt fp e))"

text \<open>The map \<open>List\<close> returns, in key order.\<close>

definition put_entries :: "entry list \<Rightarrow> (string \<times> entry) list" where
  "put_entries es = foldl (\<lambda>m e. map_put (eFingerprint e) e m) [] es"

definition List :: "faults \<Rightarrow> ((string \<times> entry) list) storeop" where
  "List flt =
     queryRowsD flt ''close fingerprint rows'' fingerprints (\<lambda>rows.
       bindD (liftD (scan_all scanEntry rows)) (\<lambda>es.
       bindD (allStrings flt (\<lambda>t. sort_key snd (fingerprint_ips t))) (\<lambda>ips.
       bindD (allInts flt (\<lambda>t. sort_key snd (fingerprint_ports t))) (\<lambda>ports.
       bindD (allSightings flt (\<lambda>t. sort_key (\<lambda>s. (s_fp s, recent_first s)) (fingerprint_sightings t))) (\<lambda>sightings.
       retD (map (\<lambda>(fp, e). (fp, e\<lparr>eIPs := map_get ips fp, ePorts := map_get ports fp,
                   eSightings := map_get sightings fp\<rparr>)) (put_entries es)))))))"

definition LastFingerprint :: "faults \<Rightarrow> string storeop" where
  "LastFingerprint flt = queryD flt (\<lambda>t. fold max (map r_fp (fingerprints t)) [])"

definition page_rows :: "string \<Rightarrow> string \<Rightarrow> nat \<Rightarrow> tables \<Rightarrow> fp_row list" where
  "page_rows after through limit t =
     take limit (sort_key r_fp (filter (\<lambda>r. after < r_fp r \<and> r_fp r \<le> through) (fingerprints t)))"

fun attach_all :: "faults \<Rightarrow> entry list \<Rightarrow> (entry list) storeop" where
  "attach_all flt [] = retD []"
| "attach_all flt (e # es) =
     bindD (attach_history flt (eFingerprint e) e) (\<lambda>e'. bindD (attach_all flt es) (\<lambda>es'. retD (e' # es')))"

definition ListPage :: "faults \<Rightarrow> string \<Rightarrow> string \<Rightarrow> int \<Rightarrow> (entry list) storeop" where
  "ListPage flt after through limit =
     (if limit < 1 \<or> 128 < limit then raiseD (Errorf ''page size must be between 1 and 128'' [])
      else queryRowsD flt ''close fingerprint rows'' (page_rows after through (nat limit)) (\<lambda>rows.
             bindD (liftD (scan_all scanEntry rows)) (\<lambda>es.
             bindD (queryD flt (\<lambda>_. ())) (\<lambda>_. attach_all flt es))))"

section \<open>Verdicts\<close>

definition requireAffected :: "faults \<Rightarrow> nat \<Rightarrow> string \<Rightarrow> unit storeop" where
  "requireAffected flt res fp =
     bindD (rowsAffected flt res) (\<lambda>n.
       if n = 0 then raiseD (Errorf ''unknown fingerprint %q'' [fp]) else retD ())"

definition SetStatus :: "faults \<Rightarrow> string \<Rightarrow> string \<Rightarrow> unit storeop" where
  "SetStatus flt fp status =
     (if \<not> Valid status then raiseD (Errorf ''invalid status %q'' [status])
      else bindD (execD flt (update_status fp status)) (\<lambda>res. requireAffected flt res fp))"

definition UpsertStatus :: "faults \<Rightarrow> time \<Rightarrow> string \<Rightarrow> string \<Rightarrow> string \<Rightarrow> unit storeop" where
  "UpsertStatus flt now fp status label =
     (if \<not> Valid status then raiseD (Errorf ''invalid status %q'' [status])
      else bindD (execD flt (upsert_status fp status label (encodeTime now))) (\<lambda>res. requireAffected flt res fp))"

definition SetLabel :: "faults \<Rightarrow> string \<Rightarrow> string \<Rightarrow> unit storeop" where
  "SetLabel flt fp label =
     bindD (execD flt (update_label fp label)) (\<lambda>res. requireAffected flt res fp)"

definition Delete :: "faults \<Rightarrow> string \<Rightarrow> unit storeop" where
  "Delete flt fp =
     bindD (execD flt (delete_fps (\<lambda>r. r_fp r = fp))) (\<lambda>res. requireAffected flt res fp)"

section \<open>Decisions of the control plane\<close>

record decision =
  dFingerprint :: string
  dStatus :: string
  dLabel :: string
  dApprovalRanges :: "scope option"

definition Decision_Validate :: "decision \<Rightarrow> unit result" where
  "Decision_Validate d =
     (if dFingerprint d = [] \<or> \<not> Valid (dStatus d) then Inl (Errorf ''invalid fingerprint decision'' [])
      else if dApprovalRanges d \<noteq> None \<and> dStatus d \<noteq> StatusApproved
      then Inl (Errorf ''approval_ranges requires approved status'' [])
      else Scope_Validate (dApprovalRanges d))"

text \<open>The first loop of \<open>ApplyDecisions\<close>: every decision valid, and its scope as JSON text.\<close>

definition decision_scope :: "decision \<Rightarrow> (string option) result" where
  "decision_scope d =
     (case Decision_Validate d of
        Inl e \<Rightarrow> Inl e
      | Inr _ \<Rightarrow>
          (case dApprovalRanges d of
             None \<Rightarrow> Inr None
           | Some sc \<Rightarrow> (case Scope_MarshalJSON sc of Inl e \<Rightarrow> Inl e | Inr b \<Rightarrow> Inr (Some b))))"

fun write_decisions :: "faults \<Rightarrow> string \<Rightarrow> (decision \<times> string option) list \<Rightarrow> unit storeop" where
  "write_decisions flt now [] = retD ()"
| "write_decisions flt now ((d, sc) # ds) =
     bindD (execD flt (\<lambda>t. ((), upsert_decision (dFingerprint d) (dStatus d) (dLabel d) sc now t))) (\<lambda>_.
       write_decisions flt now ds)"

definition ApplyDecisions :: "faults \<Rightarrow> time \<Rightarrow> decision list \<Rightarrow> string \<Rightarrow> string \<Rightarrow> unit storeop" where
  "ApplyDecisions flt now decisions cursorKey cursor =
     bindD (liftD (scan_all decision_scope decisions)) (\<lambda>scopes.
     with_tx flt
       (bindD (write_decisions flt (encodeTime now) (zip decisions scopes)) (\<lambda>_.
        if cursorKey \<noteq> [] \<and> cursor \<noteq> [] then execD flt (\<lambda>t. ((), upsert_meta cursorKey cursor t))
        else retD ())))"

section \<open>Meta keys\<close>

definition GetMeta :: "faults \<Rightarrow> string \<Rightarrow> string storeop" where
  "GetMeta flt key =
     catchD (queryRowD flt (lookup_meta key)) (\<lambda>e. if e = ErrNoRows then retD [] else raiseD e)"

definition SetMeta :: "faults \<Rightarrow> string \<Rightarrow> string \<Rightarrow> unit storeop" where
  "SetMeta flt key val = execD flt (\<lambda>t. ((), upsert_meta key val t))"

definition ResetFingerprints :: "faults \<Rightarrow> int storeop" where
  "ResetFingerprints flt =
     with_tx flt
       (bindD (execD flt (delete_fps (\<lambda>_. True))) (\<lambda>res.
        bindD (rowsAffected flt res) (\<lambda>count.
        bindD (execD flt (\<lambda>t. ((), delete_cursors t))) (\<lambda>_. retD count))))"

definition MetaFingerprintMethod :: string where
  "MetaFingerprintMethod = ''fingerprint_method''"

definition ReconcileFingerprintMethod :: "faults \<Rightarrow> string \<Rightarrow> bool \<Rightarrow> int storeop" where
  "ReconcileFingerprintMethod flt method reset =
     bindD (GetMeta flt MetaFingerprintMethod) (\<lambda>stored.
       if stored = method then retD 0
       else if stored = [] then bindD (SetMeta flt MetaFingerprintMethod method) (\<lambda>_. retD 0)
       else if \<not> reset then
         bindD (queryD flt (\<lambda>t. int (length (fingerprints t)))) (\<lambda>stale.
           raiseD (Errorf ''database holds %d fingerprints computed with method %q, but %q is configured; approvals and blocks do not carry over''
             [dec stale, stored, method]))
       else bindD (ResetFingerprints flt) (\<lambda>deleted.
            bindD (SetMeta flt MetaFingerprintMethod method) (\<lambda>_. retD deleted)))"

section \<open>Blocked-range alerts\<close>

definition RecordBlockedRangeAlert :: "faults \<Rightarrow> time \<Rightarrow> string \<Rightarrow> string \<Rightarrow> string \<Rightarrow> bool storeop" where
  "RecordBlockedRangeAlert flt now rangeName ip fp =
     bindD (execD flt (insert_alert rangeName ip fp (encodeTime now))) (\<lambda>res.
     bindD (rowsAffected flt res) (\<lambda>n. retD (0 < n)))"

definition HasBlockedRangeAlert :: "faults \<Rightarrow> string \<Rightarrow> string \<Rightarrow> bool storeop" where
  "HasBlockedRangeAlert flt rangeName ip =
     catchD (queryRowD flt (\<lambda>t. if alert_recorded rangeName ip t then Some True else None))
       (\<lambda>e. if e = ErrNoRows then retD False else raiseD e)"

definition ForgetBlockedRangeAlert :: "faults \<Rightarrow> string \<Rightarrow> string \<Rightarrow> unit storeop" where
  "ForgetBlockedRangeAlert flt rangeName ip = execD flt (\<lambda>t. ((), delete_alert rangeName ip t))"

section \<open>Resolving a fingerprint prefix\<close>

text \<open>
  SQLite's \<open>LIKE \<dots> ESCAPE '\'\<close> on texts without NUL: ASCII letters compare without case, \<open>%\<close>
  matches any text, \<open>_\<close> one UTF-8 character, and a character after the escape matches itself.
\<close>

definition fold_case :: "char \<Rightarrow> char" where
  "fold_case c = (let n = of_char c :: nat in if 65 \<le> n \<and> n \<le> 90 then char_of (n + 32) else c)"

definition skip_char_utf8 :: "char \<Rightarrow> string \<Rightarrow> string" where
  "skip_char_utf8 c s =
     (if (192::nat) \<le> of_char c then dropWhile (\<lambda>d. (128::nat) \<le> of_char d \<and> of_char d < (192::nat)) s else s)"

function like :: "string \<Rightarrow> string \<Rightarrow> bool" where
  "like [] s = (s = [])"
| "like (p # ps) s =
     (if p = CHR ''%'' then like ps s \<or> (if s = [] then False else like (p # ps) (tl s))
      else if s = [] then False
      else if p = CHR ''_'' then like ps (skip_char_utf8 (hd s) (tl s))
      else if p = CHR 0x5C then ps \<noteq> [] \<and> fold_case (hd s) = fold_case (hd ps) \<and> like (tl ps) (tl s)
      else fold_case (hd s) = fold_case p \<and> like ps (tl s))"
  by pat_completeness auto
termination
  by (relation "measures [\<lambda>(p, s). length p, \<lambda>(p, s). length s]") auto

declare like.simps(2) [simp del]

definition escape_like :: "string \<Rightarrow> string" where
  "escape_like q =
     concat (map (\<lambda>c. if c = CHR 0x5C \<or> c = CHR ''%'' \<or> c = CHR ''_'' then [CHR 0x5C, c] else [c]) q)"

definition like_matches :: "string \<Rightarrow> tables \<Rightarrow> string list" where
  "like_matches pattern t = take 2 (sort (filter (like pattern) (map r_fp (fingerprints t))))"

definition ResolveFingerprint :: "faults \<Rightarrow> string \<Rightarrow> string storeop" where
  "ResolveFingerprint flt query0 =
     (let query = TrimSpace query0
      in if query = [] then raiseD (Errorf ''empty fingerprint'' [])
         else
           catchD (queryRowD flt (\<lambda>t. map_option r_fp (find_fp query t)))
             (\<lambda>e. if e \<noteq> ErrNoRows then raiseD e
                  else queryRowsD flt ''close fingerprint rows'' (like_matches (escape_like query @ ''%''))
                         (\<lambda>matches.
                            case matches of
                              [] \<Rightarrow> raiseD (Errorf ''no fingerprint matching %q'' [query])
                            | [m] \<Rightarrow> retD m
                            | _ \<Rightarrow> raiseD (Errorf ''fingerprint prefix %q is ambiguous'' [query]))))"

section \<open>What a successful call did\<close>

text \<open>The tables after the history statements, and after eviction, as functions of the tables before.\<close>

definition record_history :: "string \<Rightarrow> string \<Rightarrow> int \<Rightarrow> string \<Rightarrow> tables \<Rightarrow> tables" where
  "record_history fp ip port now t =
     (let t1 = (if ip \<noteq> [] then insert_ip fp ip t else t);
          t2 = (if port \<noteq> 0 then insert_port fp port t1 else t1);
          t3 = (if ip \<noteq> [] then upsert_sighting fp ip port now t2 else t2)
      in trim_ports fp (trim_ips fp (trim_sightings fp t3)))"

definition pruned :: "(fp_row list \<Rightarrow> fp_row list) \<Rightarrow> int \<Rightarrow> tables \<Rightarrow> tables" where
  "pruned ord max_rows t =
     (let excess = int (length (fingerprints t)) - max_rows
      in if excess \<le> 0 then t else snd (delete_oldest ord (nat excess) t))"

lemma execD_unit: "execD flt (\<lambda>t. ((), f t)) c = (Inr u, c') \<Longrightarrow> tabs c' = f (tabs c)"
  by (simp add: execD_Inr)

lemma when_execD:
  "(if b then execD flt (\<lambda>t. ((), f t)) else retD ()) c = (Inr u, c') \<Longrightarrow> tabs c' = (if b then f (tabs c) else tabs c)"
  by (auto simp: execD_Inr retD_Inr split: if_splits)

lemma read_only_Inr: "read_only m \<Longrightarrow> m c = (Inr x, c') \<Longrightarrow> tabs c' = tabs c"
  unfolding read_only_def by (metis snd_conv)

lemma trimHistory_Inr:
  "trimHistory flt fp c = (Inr u, c') \<Longrightarrow> tabs c' = trim_ports fp (trim_ips fp (trim_sightings fp (tabs c)))"
  by (auto simp: trimHistory_def bindD_Inr dest!: execD_unit)

lemma read_only_attach_history: "read_only (attach_history flt fp e)"
  unfolding attach_history_def by (intro read_onlyI read_only_list)

lemma attach_history_Inr:
  assumes "attach_history flt fp e c = (Inr e', c')"
  shows "tabs c' = tabs c"
    "\<exists>ss. scan_all scan_sighting (sightings_of fp (tabs c)) = Inr ss \<and>
       e' = e\<lparr>eIPs := ips_of fp (tabs c), ePorts := ports_of fp (tabs c), eSightings := ss\<rparr>"
proof -
  show "tabs c' = tabs c" using read_only_Inr [OF read_only_attach_history assms] .
  obtain ips c1 ports c2 ss c3 where run: "listStringsFrom flt (ips_of fp) c = (Inr ips, c1)"
    "listIntsFrom flt (ports_of fp) c1 = (Inr ports, c2)"
    "listSightingsFrom flt (sightings_of fp) c2 = (Inr ss, c3)"
    "e' = e\<lparr>eIPs := ips, ePorts := ports, eSightings := ss\<rparr>"
    using assms by (auto simp: attach_history_def bindD_Inr retD_Inr)
  have "tabs c1 = tabs c" "tabs c2 = tabs c1"
    using read_only_Inr [OF read_only_list(1) run(1)] read_only_Inr [OF read_only_list(2) run(2)] .
  then show "\<exists>ss. scan_all scan_sighting (sightings_of fp (tabs c)) = Inr ss \<and>
       e' = e\<lparr>eIPs := ips_of fp (tabs c), ePorts := ports_of fp (tabs c), eSightings := ss\<rparr>"
    using run(4) list_from_Inr(1) [OF run(1)] list_from_Inr(2) [OF run(2)] listSightingsFrom_Inr [OF run(3)]
    by auto
qed

lemma pruneToLimit_Inr:
  assumes "pruneToLimit flt ord n c = (Inr k, c')"
  shows "tabs c' = pruned ord n (tabs c)"
    "k = (if int (length (fingerprints (tabs c))) \<le> n then 0
          else int (fst (delete_oldest ord (nat (int (length (fingerprints (tabs c))) - n)) (tabs c))))"
  using assms by (auto simp: pruneToLimit_def pruned_def bindD_Inr queryD_Inr Let_def execD_Inr
      rowsAffected_Inr retD_Inr split: if_splits)

lemma observe_tx_Inr:
  assumes "observe_tx flt ord n now obs status metaJSON c = (Inr e, c')"
  obtains row t e0 u ss where "upsert_observed (oFingerprint obs) status now metaJSON (tabs c) = (row, t)"
    "scanEntry row = Inr e0" "u = record_history (oFingerprint obs) (oIP obs) (oPort obs) now t"
    "tabs c' = (if eCount e0 = 1 \<and> 0 < n then pruned ord n u else u)"
    "scan_all scan_sighting (sightings_of (oFingerprint obs) u) = Inr ss"
    "e = e0\<lparr>eIPs := ips_of (oFingerprint obs) u, ePorts := ports_of (oFingerprint obs) u, eSightings := ss\<rparr>"
proof -
  let ?fp = "oFingerprint obs" and ?ip = "oIP obs" and ?port = "oPort obs"
  obtain row c1 e0 c2 c3 c4 c5 c6 k u1 u2 u3 u4 where run:
    "execD flt (upsert_observed ?fp status now metaJSON) c = (Inr row, c1)" "scanEntry row = Inr e0"
    "(if ?ip \<noteq> [] then execD flt (\<lambda>t. ((), insert_ip ?fp ?ip t)) else retD ()) c1 = (Inr u1, c2)"
    "(if ?port \<noteq> 0 then execD flt (\<lambda>t. ((), insert_port ?fp ?port t)) else retD ()) c2 = (Inr u2, c3)"
    "(if ?ip \<noteq> [] then execD flt (\<lambda>t. ((), upsert_sighting ?fp ?ip ?port now t)) else retD ()) c3 = (Inr u3, c4)"
    "trimHistory flt ?fp c4 = (Inr u4, c5)" "attach_history flt ?fp e0 c5 = (Inr e, c6)"
    "(if eCount e0 = 1 \<and> 0 < n then pruneToLimit flt ord n else retD 0) c6 = (Inr k, c')"
    using assms unfolding observe_tx_def Let_def bindD_Inr liftD_Inr retD_Inr by blast
  define t where "t = snd (upsert_observed ?fp status now metaJSON (tabs c))"
  have t: "upsert_observed ?fp status now metaJSON (tabs c) = (row, t)" "tabs c1 = t"
    using run(1) by (auto simp: execD_Inr t_def)
  have u: "tabs c5 = record_history ?fp ?ip ?port now t"
    using trimHistory_Inr [OF run(6)] when_execD [OF run(3)] when_execD [OF run(4)] when_execD [OF run(5)] t(2)
    by (simp add: record_history_def Let_def split: if_splits)
  have "tabs c' = (if eCount e0 = 1 \<and> 0 < n then pruned ord n (tabs c6) else tabs c6)"
    using run(8) pruneToLimit_Inr(1) by (auto simp: retD_Inr split: if_splits)
  with attach_history_Inr [OF run(7)] u that t(1) run(2) show ?thesis by auto
qed

lemma Observe_Inr:
  assumes "Observe flt ord n now obs bu c = (Inr e, c')"
  obtains metaJSON c1 where "oFingerprint obs \<noteq> []" "encodeMeta (oMeta obs) = Inr metaJSON"
    "int (length metaJSON) \<le> MaxMetadataBytes"
    "observe_tx flt ord n (encodeTime now) obs (if bu then StatusBlocked else StatusPending) metaJSON
       (c\<lparr>calls := Suc (calls c)\<rparr>) = (Inr e, c1)" "tabs c' = tabs c1"
proof -
  obtain metaJSON where m: "encodeMeta (oMeta obs) = Inr metaJSON"
    using assms by (auto simp: Observe_def raiseD_Inr split: if_splits sum.splits)
  show ?thesis
    using assms m that [of metaJSON]
    by (auto simp: Observe_def raiseD_Inr with_tx_Inr not_less split: if_splits sum.splits)
qed

section \<open>Fingerprints after the history statements and after eviction\<close>

lemma find_fp_record_history [simp]: "find_fp g (record_history fp ip port now t) = find_fp g t"
  by (simp add: record_history_def Let_def find_fp_simps)

lemma fingerprints_record_history [simp]: "fingerprints (record_history fp ip port now t) = fingerprints t"
  by (simp add: record_history_def Let_def frame_history)

lemma keys_ok_record_history:
  assumes "keys_ok t" "fp \<in> fps t"
  shows "keys_ok (record_history fp ip port now t)"
proof -
  have mono: "fp \<in> fps (insert_ip fp ip t)" "fp \<in> fps (insert_port fp port u)"
    if "fp \<in> fps u" for u
    using assms(2) that by (simp_all add: fps_def frame_history)
  show ?thesis
    using assms mono
    by (simp add: record_history_def Let_def keys_ok_trim keys_ok_insert_ip keys_ok_insert_port keys_ok_upsert_sighting)
qed

lemma db_ok_record_history:
  assumes "db_ok t" "fp \<in> fps t" "decodeTime now = Inr x"
  shows "db_ok (record_history fp ip port now t)"
proof -
  have mono: "fp \<in> fps (insert_ip fp ip t)" "fp \<in> fps (insert_port fp port u)"
    if "fp \<in> fps u" for u
    using assms(2) that by (simp_all add: fps_def frame_history)
  show ?thesis
    using assms mono
    by (simp add: record_history_def Let_def db_ok_trim db_ok_insert_ip db_ok_insert_port db_ok_upsert_sighting)
qed

lemma keys_ok_pruned: "keys_ok t \<Longrightarrow> keys_ok (pruned ord n t)"
  by (simp add: pruned_def delete_oldest_def Let_def keys_ok_delete_fps)

lemma db_ok_pruned: "db_ok t \<Longrightarrow> db_ok (pruned ord n t)"
  by (simp add: pruned_def delete_oldest_def Let_def db_ok_delete_fps)

lemma find_fp_pruned:
  assumes "keys_ok t" "find_fp g (pruned ord n t) = Some r"
  shows "find_fp g t = Some r"
  using assms by (auto simp: pruned_def delete_oldest_def Let_def find_fp_delete_fps split: if_splits option.splits)

lemma row_update_simps [simp]:
  "row_update (\<lambda>r. r\<lparr>r_last_seen := a, r_count := g r, r_meta := m\<rparr>)"
  "row_update (\<lambda>r. r\<lparr>r_status := s, r_ranges := k\<rparr>)"
  "row_update (\<lambda>r. r\<lparr>r_status := s, r_label := l, r_ranges := k\<rparr>)"
  "row_update (\<lambda>r. r\<lparr>r_label := l\<rparr>)"
  by (simp_all add: row_update_def)

lemma upsert_observed_find:
  assumes "upsert_observed fp status now meta t = (row, t')"
  shows "find_fp g t' = (if g = fp then Some row else find_fp g t)"
  using assms
  by (auto simp: upsert_observed_def Let_def find_fp_append_fp find_fp_update_fp split: option.splits)

lemma upsert_observed_keys:
  "keys_ok t \<Longrightarrow> upsert_observed fp status now meta t = (row, t') \<Longrightarrow> keys_ok t'"
  by (auto simp: upsert_observed_def Let_def keys_ok_update_fp keys_ok_append_fp find_fp_None_iff split: option.splits)

lemma upsert_observed_db_ok:
  assumes "db_ok t" "upsert_observed fp status now meta t = (row, t')" "scanEntry row = Inr e" "Valid status"
  shows "db_ok t'"
proof (cases "find_fp fp t")
  case None
  then have "t' = append_fp row t" "r_fp row = fp" "r_status row = status"
    using assms(2) by (auto simp: upsert_observed_def Let_def)
  then show ?thesis using assms None by (simp add: db_ok_append_fp row_ok_def)
next
  case (Some r)
  let ?f = "\<lambda>r. r\<lparr>r_last_seen := now, r_count := r_count r + 1, r_meta := meta\<rparr>"
  have "t' = update_fp fp ?f t" "row = ?f r"
    using assms(2) Some by (auto simp: upsert_observed_def Let_def)
  moreover have "Valid (r_status r)" using db_ok_find [OF assms(1) Some] by (simp add: row_ok_def)
  ultimately show ?thesis
    using assms(1,3) Some by (auto intro!: db_ok_update_fp simp: row_ok_def)
qed

end
