(* ===== verification/Eviction.thy ===== *)
theory Eviction
  imports Store
begin

text \<open>
  The cap on stored fingerprints: \<open>pruneToLimit\<close> and \<open>PruneToLimit\<close> of \<open>src/store/store.go\<close>.  The
  lemmas are proved once for every ordering of ties the engine may choose, inside the locale
  \<open>last_seen_order\<close>.
\<close>

section \<open>Eviction\<close>

text \<open>What the rows past the cap lose, for every order the engine may choose.\<close>

definition candidates :: "tables \<Rightarrow> fp_row list" where
  "candidates t = filter (\<lambda>r. r_status r \<noteq> StatusApproved) (fingerprints t)"

context last_seen_order
begin

lemma evicted_candidates: "set (evicted ord k t) \<subseteq> r_fp ` set (candidates t)"
  unfolding evicted_def candidates_def using set_take_subset by fastforce

lemma distinct_evicted: "keys_ok t \<Longrightarrow> distinct (evicted ord k t)"
proof -
  assume "keys_ok t"
  then have "distinct (map r_fp (candidates t))"
    by (simp add: candidates_def distinct_map_filter keys_okD)
  then have "distinct (map r_fp (ord (candidates t)))"
    by (metis mset_eq_imp_distinct_iff mset_map mset_ord)
  then show ?thesis by (simp add: evicted_def candidates_def take_map [symmetric])
qed

lemma length_evicted: "length (evicted ord k t) = min k (length (candidates t))"
  by (simp add: evicted_def candidates_def min.commute)

lemma approved_not_evicted:
  assumes "keys_ok t" "r \<in> set (fingerprints t)" "r_status r = StatusApproved"
  shows "r_fp r \<notin> set (evicted ord k t)"
proof
  assume "r_fp r \<in> set (evicted ord k t)"
  then obtain r' where "r' \<in> set (candidates t)" "r_fp r' = r_fp r"
    using evicted_candidates [of k t] by (metis imageE subsetD)
  moreover from this have "r' \<in> set (fingerprints t)" by (simp add: candidates_def)
  then have "r' = r"
    using calculation assms(1,2) keys_okD(1) by (metis distinct_map inj_onD)
  ultimately show False using assms(3) by (simp add: candidates_def)
qed

lemma delete_oldest_count:
  assumes "keys_ok t"
  shows "length (filter (\<lambda>r. r_fp r \<in> set (evicted ord k t)) (fingerprints t)) = min k (length (candidates t))"
proof -
  let ?rs = "filter (\<lambda>r. r_fp r \<in> set (evicted ord k t)) (fingerprints t)"
  have "set (map r_fp ?rs) = set (evicted ord k t)"
    using evicted_candidates [of k t] by (auto simp: candidates_def)
  moreover have "distinct (map r_fp ?rs)" by (simp add: distinct_map_filter keys_okD assms)
  ultimately have "length (map r_fp ?rs) = length (evicted ord k t)"
    using distinct_evicted [OF assms, of k] by (metis distinct_card)
  then show ?thesis by (simp add: length_evicted)
qed

lemma fst_delete_oldest: "keys_ok t \<Longrightarrow> fst (delete_oldest ord k t) = min k (length (candidates t))"
  by (simp add: delete_oldest_def delete_fps_def Let_def delete_oldest_count)

lemma fingerprints_delete_oldest:
  "fingerprints (snd (delete_oldest ord k t)) = filter (\<lambda>r. r_fp r \<notin> set (evicted ord k t)) (fingerprints t)"
  by (simp add: delete_oldest_def delete_fps_def Let_def)

lemma length_delete_oldest:
  assumes "keys_ok t"
  shows "length (fingerprints (snd (delete_oldest ord k t))) + min k (length (candidates t)) = length (fingerprints t)"
  using sum_length_filter_compl [of "\<lambda>r. r_fp r \<in> set (evicted ord k t)" "fingerprints t"]
  by (simp add: fingerprints_delete_oldest delete_oldest_count [OF assms] add.commute)

lemma evicted_all:
  assumes "keys_ok t" "length (candidates t) \<le> k" "r \<in> set (fingerprints t)" "r_fp r \<notin> set (evicted ord k t)"
  shows "r_status r = StatusApproved"
proof (rule ccontr)
  assume "r_status r \<noteq> StatusApproved"
  then have "r \<in> set (candidates t)" using assms(3) by (simp add: candidates_def)
  moreover have "take k (ord (candidates t)) = ord (candidates t)" using assms(2) by simp
  ultimately show False using assms(4) by (simp add: evicted_def candidates_def)
qed

lemma evicted_oldest:
  assumes "keys_ok t" "r \<in> set (fingerprints t)" "r_fp r \<in> set (evicted ord k t)"
    "r' \<in> set (fingerprints t)" "r_status r' \<noteq> StatusApproved" "r_fp r' \<notin> set (evicted ord k t)"
  shows "r_last_seen r \<le> r_last_seen r'"
proof -
  obtain r0 where r0: "r0 \<in> set (take k (ord (candidates t)))" "r_fp r0 = r_fp r"
    using assms(3) by (auto simp: evicted_def candidates_def)
  then have "r0 \<in> set (ord (candidates t))" by (meson in_set_takeD)
  then have "r0 \<in> set (fingerprints t)" by (simp add: candidates_def)
  then have "r0 = r" using r0(2) assms(1,2) keys_okD(1) by (metis distinct_map inj_onD)
  moreover have "r' \<notin> set (take k (ord (candidates t)))"
    using assms(6) by (auto simp: evicted_def candidates_def)
  moreover have "r' \<in> set (candidates t)" using assms(4,5) by (simp add: candidates_def)
  ultimately show ?thesis using r0(1) take_oldest by blast
qed

lemma find_fp_pruned_approved:
  assumes "keys_ok t" "find_fp g t = Some r" "r_status r = StatusApproved"
  shows "find_fp g (pruned ord n t) = Some r"
proof -
  have "r_fp r \<notin> set (evicted ord k t)" for k
    using assms approved_not_evicted find_fp_SomeD by blast
  then show ?thesis
    using assms(1,2) by (simp add: pruned_def delete_oldest_def Let_def find_fp_delete_fps)
qed

lemma pruned_bound:
  assumes "keys_ok t" "0 < n"
  shows "int (length (fingerprints (pruned ord n t))) \<le> n \<or>
    (\<forall>r\<in>set (fingerprints (pruned ord n t)). r_status r = StatusApproved)"
proof (cases "int (length (fingerprints t)) \<le> n")
  case False
  define k where "k = nat (int (length (fingerprints t)) - n)"
  have p: "pruned ord n t = snd (delete_oldest ord k t)" using False by (simp add: pruned_def k_def Let_def)
  show ?thesis
  proof (cases "length (candidates t) \<le> k")
    case True
    then show ?thesis
      using evicted_all [OF assms(1) True] by (auto simp: p fingerprints_delete_oldest)
  next
    case small: False
    then have "length (fingerprints (pruned ord n t)) + k = length (fingerprints t)"
      using length_delete_oldest [OF assms(1), of k] by (simp add: p)
    then have "int (length (fingerprints (pruned ord n t))) \<le> n" using False by (simp add: k_def)
    then show ?thesis ..
  qed
qed (simp add: pruned_def)

lemma pruned_not_below:
  assumes "keys_ok t" "0 < n"
  shows "min n (int (length (fingerprints t))) \<le> int (length (fingerprints (pruned ord n t)))"
proof (cases "int (length (fingerprints t)) \<le> n")
  case False
  then show ?thesis
    using length_delete_oldest [OF assms(1), of "nat (int (length (fingerprints t)) - n)"] assms(2)
    by (simp add: pruned_def Let_def)
qed (simp add: pruned_def)

end

lemma set_pruned: "set (fingerprints (pruned ord n t)) \<subseteq> set (fingerprints t)"
  by (auto simp: pruned_def delete_oldest_def delete_fps_def Let_def)

text \<open>Small stores for the concrete cases below.\<close>

definition sample_row :: "string \<Rightarrow> string \<Rightarrow> string \<Rightarrow> int \<Rightarrow> string option \<Rightarrow> fp_row" where
  "sample_row fp status seen n ranges = \<lparr>r_fp = fp, r_status = status, r_label = ''x'', r_first_seen = seen,
     r_last_seen = seen, r_count = n, r_meta = ''{}'', r_ranges = ranges, r_legacy = []\<rparr>"

definition sample_store :: "tables conn" where
  "sample_store = \<lparr>tabs = empty_tables\<lparr>fingerprints :=
     [sample_row ''aa'' StatusPending ''2026-01-02T00:00:00Z'' 3 None,
      sample_row ''ab'' StatusApproved ''2026-01-01T00:00:00Z'' 2 (Some [CHR ''['', CHR 0x22, CHR ''1'', CHR ''0'', CHR ''.'',
        CHR ''0'', CHR ''.'', CHR ''0'', CHR ''.'', CHR ''0'', CHR ''/'', CHR ''8'', CHR 0x22, CHR '']'']),
      sample_row ''ac'' StatusBlocked ''2026-01-03T00:00:00Z'' 1 None]\<rparr>, calls = 0\<rparr>"

abbreviation sample_now :: time where "sample_now \<equiv> 63903081600 * second"

lemma sample_store_ok: "db_ok (tabs sample_store)"
  by code_simp



end
