(* ===== verification/Observing.thy ===== *)
theory Observing
  imports Eviction
begin

text \<open>
  \<open>Observe\<close>, the operation on the gate's hot path: what it stores and returns, what it keeps, its
  bounds, and that it succeeds on every valid observation when the database does.
\<close>

section \<open>Success without faults\<close>

lemma succeeds_list:
  "succeeds (listStringsFrom no_faults q) c" "succeeds (listIntsFrom no_faults q') c"
  unfolding listStringsFrom_def listIntsFrom_def by (auto intro!: succeeds_queryRowsD)

lemma sightings_decode: "db_ok t \<Longrightarrow> \<exists>ss. scan_all scan_sighting (sightings_of fp t) = Inr ss"
  by (rule scan_all_total) (auto simp: db_ok_iff sightings_of_def scan_sighting_Inr)

lemma succeeds_sightings: "db_ok (tabs c) \<Longrightarrow> succeeds (listSightingsFrom no_faults (sightings_of fp)) c"
  unfolding listSightingsFrom_def using sightings_decode by (auto intro!: succeeds_queryRowsD)

lemma succeeds_attach_history:
  assumes "db_ok (tabs c)"
  shows "succeeds (attach_history no_faults fp e) c"
  unfolding attach_history_def
proof (intro succeeds_bindD succeeds_list)
  fix ips c1 ports c2
  assume "listStringsFrom no_faults (ips_of fp) c = (Inr ips, c1)"
    "listIntsFrom no_faults (ports_of fp) c1 = (Inr ports, c2)"
  then have "tabs c2 = tabs c" using read_only_Inr read_only_list(1,2) by metis
  then show "succeeds (listSightingsFrom no_faults (sightings_of fp)) c2"
    using assms by (simp add: succeeds_sightings)
qed simp

lemma succeeds_trimHistory: "succeeds (trimHistory no_faults fp) c"
  unfolding trimHistory_def by (auto intro!: succeeds_bindD)

lemma succeeds_pruneToLimit: "succeeds (pruneToLimit no_faults ord n) c"
  unfolding pruneToLimit_def Let_def by (auto intro!: succeeds_bindD)

lemma upsert_observed_scan:
  assumes "db_ok t" "decodeTime now = Inr x" "scan_meta m = Inr y"
    "upsert_observed fp (if bu then StatusBlocked else StatusPending) now m t = (row, t')"
  shows "\<exists>e. scanEntry row = Inr e"
proof (cases "find_fp fp t")
  case None
  then show ?thesis using assms by (auto simp: upsert_observed_def Let_def scanEntry_Inr)
next
  case (Some r)
  then have "row = r\<lparr>r_last_seen := now, r_count := r_count r + 1, r_meta := m\<rparr>" and "row_ok r"
    using assms db_ok_find by (auto simp: upsert_observed_def Let_def)
  then show ?thesis using assms(2,3) by (auto simp: scanEntry_Inr row_ok_iff)
qed

text \<open>The state the history queries of \<open>Observe\<close> read is well formed.\<close>

lemma succeeds_observe_tx:
  assumes "db_ok (tabs c)" "decodeTime now = Inr x" "scan_meta m = Inr y"
  shows "succeeds (observe_tx no_faults ord n now obs (if bu then StatusBlocked else StatusPending) m) c"
proof -
  let ?fp = "oFingerprint obs" and ?ip = "oIP obs" and ?port = "oPort obs"
  obtain row t where o: "upsert_observed ?fp (if bu then StatusBlocked else StatusPending) now m (tabs c) = (row, t)"
    by fastforce
  obtain e where e: "scanEntry row = Inr e" using upsert_observed_scan [OF assms o] by blast
  have ok: "db_ok t" using upsert_observed_db_ok [OF assms(1) o e] by simp
  have fp: "?fp \<in> fps t" using upsert_observed_find [OF o, of ?fp] find_fp_None_iff [of ?fp t] by auto
  have read: "succeeds (attach_history no_faults ?fp e) c'"
    if "tabs c' = record_history ?fp ?ip ?port now t" for c'
    using that db_ok_record_history [OF ok fp assms(2)] by (simp add: succeeds_attach_history)
  show ?thesis
    unfolding observe_tx_def Let_def
  proof (rule succeeds_bindD)
    fix row' c1
    assume "execD no_faults (upsert_observed ?fp (if bu then StatusBlocked else StatusPending) now m) c = (Inr row', c1)"
    then have r: "row' = row" and t: "tabs c1 = t" using o by (auto simp: execD_Inr)
    have "tabs c6 = record_history ?fp ?ip ?port now t"
      if "(if ?ip \<noteq> [] then execD no_faults (\<lambda>t. ((), insert_ip ?fp ?ip t)) else retD ()) c1 = (Inr u1, c2)"
        "(if ?port \<noteq> 0 then execD no_faults (\<lambda>t. ((), insert_port ?fp ?port t)) else retD ()) c2 = (Inr u2, c3)"
        "(if ?ip \<noteq> [] then execD no_faults (\<lambda>t. ((), upsert_sighting ?fp ?ip ?port now t)) else retD ()) c3 = (Inr u3, c5)"
        "trimHistory no_faults ?fp c5 = (Inr u4, c6)" for u1 u2 u3 u4 c2 c3 c5 c6
      using trimHistory_Inr [OF that(4)] when_execD [OF that(1)] when_execD [OF that(2)] when_execD [OF that(3)] t
      by (simp add: record_history_def Let_def)
    then show "succeeds (bindD (liftD (scanEntry row')) (\<lambda>e.
         bindD (if ?ip \<noteq> [] then execD no_faults (\<lambda>t. ((), insert_ip ?fp ?ip t)) else retD ()) (\<lambda>_.
         bindD (if ?port \<noteq> 0 then execD no_faults (\<lambda>t. ((), insert_port ?fp ?port t)) else retD ()) (\<lambda>_.
         bindD (if ?ip \<noteq> [] then execD no_faults (\<lambda>t. ((), upsert_sighting ?fp ?ip ?port now t)) else retD ()) (\<lambda>_.
         bindD (trimHistory no_faults ?fp) (\<lambda>_.
         bindD (attach_history no_faults ?fp e) (\<lambda>e'.
         bindD (if eCount e = 1 \<and> 0 < n then pruneToLimit no_faults ord n else retD 0) (\<lambda>_.
         retD e')))))))) c1"
      unfolding r e bindD_liftD
      by (intro succeeds_bindD succeeds_if succeeds_basic succeeds_trimHistory succeeds_pruneToLimit read)
  qed simp
qed

lemma succeeds_Observe:
  assumes "db_ok (tabs c)" "four_digit_year now" "oFingerprint obs \<noteq> []" "encodeMeta (oMeta obs) = Inr m"
    "int (length m) \<le> MaxMetadataBytes" "scan_meta m = Inr y"
  shows "\<exists>e c'. Observe no_faults ord n now obs bu c = (Inr e, c')"
proof -
  have "succeeds (observe_tx no_faults ord n (encodeTime now) obs (if bu then StatusBlocked else StatusPending) m)
      (c\<lparr>calls := Suc (calls c)\<rparr>)"
    using succeeds_observe_tx [OF _ decodeTime_now [OF assms(2)] assms(6)] assms(1) by simp
  then have "succeeds (Observe no_faults ord n now obs bu) c"
    using assms(3-5) by (simp add: Observe_def)
  then show ?thesis by (simp add: succeeds_def)
qed

section \<open>Observing\<close>

text \<open>Whatever fails inside \<open>Observe\<close>, the transaction leaves nothing behind.\<close>

lemma atomic_Observe: "atomic (Observe flt ord n now obs bu)"
  unfolding Observe_def by (auto simp: atomic_raiseD atomic_with_tx split: sum.split)

text \<open>What a successful observation stored and returned, for a fingerprint seen before and a new one.\<close>

lemma Observe_stored:
  assumes "Observe flt ord n now obs bu c = (Inr e, c')"
  obtains row t e0 u m where
    "encodeMeta (oMeta obs) = Inr m" "oFingerprint obs \<noteq> []"
    "upsert_observed (oFingerprint obs) (if bu then StatusBlocked else StatusPending) (encodeTime now) m (tabs c) = (row, t)"
    "scanEntry row = Inr e0" "u = record_history (oFingerprint obs) (oIP obs) (oPort obs) (encodeTime now) t"
    "tabs c' = (if r_count row = 1 \<and> 0 < n then pruned ord n u else u)"
    "\<exists>ss. e = e0\<lparr>eIPs := ips_of (oFingerprint obs) u, ePorts := ports_of (oFingerprint obs) u, eSightings := ss\<rparr>
        \<and> scan_all scan_sighting (sightings_of (oFingerprint obs) u) = Inr ss"
proof -
  obtain m c1 where o: "oFingerprint obs \<noteq> []" "encodeMeta (oMeta obs) = Inr m"
    "observe_tx flt ord n (encodeTime now) obs (if bu then StatusBlocked else StatusPending) m
       (c\<lparr>calls := Suc (calls c)\<rparr>) = (Inr e, c1)" "tabs c' = tabs c1"
    using assms by (rule Observe_Inr)
  obtain row t e0 u ss where "upsert_observed (oFingerprint obs) (if bu then StatusBlocked else StatusPending)
      (encodeTime now) m (tabs c) = (row, t)"
    "scanEntry row = Inr e0" "u = record_history (oFingerprint obs) (oIP obs) (oPort obs) (encodeTime now) t"
    "tabs c1 = (if eCount e0 = 1 \<and> 0 < n then pruned ord n u else u)"
    "scan_all scan_sighting (sightings_of (oFingerprint obs) u) = Inr ss"
    "e = e0\<lparr>eIPs := ips_of (oFingerprint obs) u, ePorts := ports_of (oFingerprint obs) u, eSightings := ss\<rparr>"
    using o(3) by (rule observe_tx_Inr) simp
  with o scanEntry_fields(4) show ?thesis by (intro that) auto
qed

lemma observe_again:
  assumes "find_fp (oFingerprint obs) (tabs c) = Some r" "Observe flt ord n now obs bu c = (Inr e, c')"
  shows "eStatus e = r_status r \<and> eLabel e = r_label r \<and> eCount e = r_count r + 1
    \<and> decodeTime (r_first_seen r) = Inr (eFirstSeen e)
    \<and> scan_ranges (r_status r) (r_ranges r) = Inr (eApprovalRanges e)"
proof -
  obtain row t e0 u m where o:
    "upsert_observed (oFingerprint obs) (if bu then StatusBlocked else StatusPending) (encodeTime now) m (tabs c) = (row, t)"
    "scanEntry row = Inr e0"
    "\<exists>ss. e = e0\<lparr>eIPs := ips_of (oFingerprint obs) u, ePorts := ports_of (oFingerprint obs) u, eSightings := ss\<rparr>
        \<and> scan_all scan_sighting (sightings_of (oFingerprint obs) u) = Inr ss"
    using assms(2) by (rule Observe_stored)
  have "row = r\<lparr>r_last_seen := encodeTime now, r_count := r_count r + 1, r_meta := m\<rparr>"
    using o(1) assms(1) by (auto simp: upsert_observed_def Let_def)
  then show ?thesis using scanEntry_fields [OF o(2)] o(3) by auto
qed

text \<open>C5: seeing a known fingerprint again never changes its verdict: status, label, first sighting and
  approval scope of the returned entry are those stored before, the count is one more, and the
  stored row differs from the old one only in its last sighting, count and metadata.  An approved
  row is never evicted by the observation, and neither is any row when no cap is set.\<close>

theorem Observe_repeat:
  assumes "last_seen_order ord" "keys_ok (tabs c)" "find_fp (oFingerprint obs) (tabs c) = Some r"
    and "Observe flt ord n now obs bu c = (Inr e, c')"
  shows "eStatus e = r_status r \<and> eLabel e = r_label r \<and> eCount e = r_count r + 1
    \<and> decodeTime (r_first_seen r) = Inr (eFirstSeen e)
    \<and> scan_ranges (r_status r) (r_ranges r) = Inr (eApprovalRanges e)
    \<and> (\<exists>m. encodeMeta (oMeta obs) = Inr m \<and> scan_meta m = Inr (eMeta e) \<and>
        find_fp (oFingerprint obs) (tabs c') \<in>
          {None, Some (r\<lparr>r_last_seen := encodeTime now, r_count := r_count r + 1, r_meta := m\<rparr>)})
    \<and> (r_status r = StatusApproved \<or> n \<le> 0 \<or> r_count r \<noteq> 0 \<longrightarrow> find_fp (oFingerprint obs) (tabs c') \<noteq> None)"
proof -
  let ?fp = "oFingerprint obs"
  obtain row t e0 u m where o: "encodeMeta (oMeta obs) = Inr m"
    "upsert_observed ?fp (if bu then StatusBlocked else StatusPending) (encodeTime now) m (tabs c) = (row, t)"
    "scanEntry row = Inr e0" "u = record_history ?fp (oIP obs) (oPort obs) (encodeTime now) t"
    "tabs c' = (if r_count row = 1 \<and> 0 < n then pruned ord n u else u)"
    "\<exists>ss. e = e0\<lparr>eIPs := ips_of ?fp u, ePorts := ports_of ?fp u, eSightings := ss\<rparr>
        \<and> scan_all scan_sighting (sightings_of ?fp u) = Inr ss"
    using assms(4) by (rule Observe_stored)
  have row: "row = r\<lparr>r_last_seen := encodeTime now, r_count := r_count r + 1, r_meta := m\<rparr>"
    using o(2) assms(3) by (auto simp: upsert_observed_def Let_def)
  have e: "eMeta e = eMeta e0" using o(6) by auto
  have found: "find_fp ?fp u = Some row"
    using upsert_observed_find [OF o(2)] by (simp add: o(4))
  have ku: "keys_ok u"
    using upsert_observed_keys [OF assms(2) o(2)] upsert_observed_find [OF o(2), of ?fp] find_fp_None_iff [of ?fp t]
    by (simp add: o(4) keys_ok_record_history)
  have stored: "find_fp ?fp (tabs c') \<in> {None, Some row}"
    using found find_fp_pruned [OF ku] o(5) by (cases "find_fp ?fp (pruned ord n u)") auto
  have kept: "r_status r = StatusApproved \<or> n \<le> 0 \<or> r_count r \<noteq> 0 \<Longrightarrow> find_fp ?fp (tabs c') \<noteq> None"
    using found last_seen_order.find_fp_pruned_approved [OF assms(1) ku found] o(5) by (auto simp: row)
  show ?thesis
    using observe_again [OF assms(3,4)] scanEntry_fields(11) [OF o(3)] e stored kept o(1) by (auto simp: row)
qed

lemma sample_observation:
  "\<exists>e c'. Observe no_faults (sort_key r_last_seen) 2 sample_now
      \<lparr>oFingerprint = x # fp, oIP = ''192.0.2.1'', oPort = 443, oMeta = []\<rparr> bu sample_store = (Inr e, c')"
proof (rule succeeds_Observe [OF sample_store_ok])
  show "four_digit_year sample_now" by code_simp
  show "encodeMeta (oMeta \<lparr>oFingerprint = x # fp, oIP = ''192.0.2.1'', oPort = 443, oMeta = []\<rparr>) = Inr ''{}''"
    by (simp add: encodeMeta_def)
qed simp_all

theorem Observe_repeat_witness:
  "\<exists>e c'. Observe no_faults (sort_key r_last_seen) 2 sample_now
      \<lparr>oFingerprint = ''ab'', oIP = ''192.0.2.1'', oPort = 443, oMeta = []\<rparr> True sample_store = (Inr e, c')
    \<and> eStatus e = StatusApproved \<and> eCount e = 3"
proof -
  obtain e c' where run: "Observe no_faults (sort_key r_last_seen) 2 sample_now
      \<lparr>oFingerprint = ''ab'', oIP = ''192.0.2.1'', oPort = 443, oMeta = []\<rparr> True sample_store = (Inr e, c')"
    using sample_observation by blast
  define r where "r = the (find_fp ''ab'' (tabs sample_store))"
  have "find_fp ''ab'' (tabs sample_store) = Some r" "r_status r = StatusApproved" "r_count r = 2"
    unfolding r_def by code_simp+
  then show ?thesis
    using Observe_repeat [OF rowid_ties.last_seen_order_axioms db_ok_keys [OF sample_store_ok] _ run, of r] run
    by simp
qed



text \<open>An observation that fails, at whatever call of the transaction, leaves every table as it
  was.\<close>

theorem Observe_atomic:
  assumes "Observe flt ord n now obs bu c = (Inl err, c')"
  shows "tabs c' = tabs c"
  using atomic_Observe assms unfolding atomic_def by blast

theorem Observe_atomic_witness:
  "tabs (snd (Observe (\<lambda>k. if k = 1 then Some ''disk full'' else None) (sort_key r_last_seen) 2 sample_now
      \<lparr>oFingerprint = ''ab'', oIP = ''192.0.2.1'', oPort = 443, oMeta = []\<rparr> True sample_store)) = tabs sample_store"
proof -
  let ?run = "Observe (\<lambda>k. if k = 1 then Some ''disk full'' else None) (sort_key r_last_seen) 2 sample_now
      \<lparr>oFingerprint = ''ab'', oIP = ''192.0.2.1'', oPort = 443, oMeta = []\<rparr> True sample_store"
  have "fst ?run = Inl (External ''disk full'')"
    by (simp add: Observe_def encodeMeta_def with_tx_def observe_tx_def bindD_def execD_def
        rollbackTransaction_def sample_store_def Let_def)
  then have "?run = (Inl (External ''disk full''), snd ?run)" by (metis prod.collapse)
  then show ?thesis by (rule Observe_atomic)
qed



section \<open>Bounds\<close>

text \<open>The row cap: at most \<open>n\<close> rows, or none left that could be evicted.\<close>

definition cap_ok :: "int \<Rightarrow> tables \<Rightarrow> bool" where
  "cap_ok n t \<longleftrightarrow> int (length (fingerprints t)) \<le> n \<or> list_all (\<lambda>r. r_status r = StatusApproved) (fingerprints t)"

lemma cap_ok_update:
  assumes "cap_ok n t" "\<And>r. r_status (f r) = r_status r"
  shows "cap_ok n (update_fp fp f t)"
  using assms by (auto simp: cap_ok_def update_fp_def list_all_iff)

text \<open>C16: with a cap of \<open>n > 0\<close> rows configured, a store that is within the cap, or full of approved
  rows only, stays so under every observation, of new and of known fingerprints.\<close>

theorem Observe_cap:
  assumes "last_seen_order ord" "keys_ok (tabs c)" "0 < n" "cap_ok n (tabs c)"
    and "Observe flt ord n now obs bu c = (r, c')"
  shows "cap_ok n (tabs c')"
proof (cases r)
  case (Inl err)
  then show ?thesis using assms(4,5) atomic_Observe unfolding atomic_def by metis
next
  case (Inr e)
  let ?fp = "oFingerprint obs"
  obtain row t e0 u m where o:
    "upsert_observed ?fp (if bu then StatusBlocked else StatusPending) (encodeTime now) m (tabs c) = (row, t)"
    "u = record_history ?fp (oIP obs) (oPort obs) (encodeTime now) t"
    "tabs c' = (if r_count row = 1 \<and> 0 < n then pruned ord n u else u)"
    using assms(5) unfolding Inr by (rule Observe_stored)
  have ku: "keys_ok u"
    using upsert_observed_keys [OF assms(2) o(1)] upsert_observed_find [OF o(1), of ?fp] find_fp_None_iff [of ?fp t]
    by (simp add: o(2) keys_ok_record_history)
  show ?thesis
  proof (cases "r_count row = 1")
    case True
    then show ?thesis
      using last_seen_order.pruned_bound [OF assms(1) ku assms(3)] o(3) assms(3) by (auto simp: cap_ok_def list_all_iff)
  next
    case False
    then have "t = update_fp ?fp (\<lambda>r. r\<lparr>r_last_seen := encodeTime now, r_count := r_count r + 1, r_meta := m\<rparr>) (tabs c)"
      using o(1) by (auto simp: upsert_observed_def Let_def split: option.splits)
    then have "cap_ok n t" using cap_ok_update [OF assms(4)] by simp
    then show ?thesis using False o(2,3) by (simp add: cap_ok_def)
  qed
qed

theorem Observe_cap_witness:
  "cap_ok 3 (tabs (snd (Observe no_faults (sort_key r_last_seen) 3 sample_now
      \<lparr>oFingerprint = ''zz'', oIP = ''192.0.2.1'', oPort = 443, oMeta = []\<rparr> True sample_store)))"
proof (rule Observe_cap [OF rowid_ties.last_seen_order_axioms db_ok_keys [OF sample_store_ok]])
  show "cap_ok 3 (tabs sample_store)" by code_simp
qed (simp, rule prod.collapse [symmetric])

lemma sorted_distinct_eq: "sorted xs \<Longrightarrow> distinct xs \<Longrightarrow> sorted ys \<Longrightarrow> distinct ys \<Longrightarrow> set xs = set ys \<Longrightarrow> xs = ys"
  by (metis sorted_distinct_set_unique)

lemma set_values_of: "set (values_of fp ps) = {x. (fp, x) \<in> set ps}"
  by (force simp: values_of_def)

lemma values_of_sorted_distinct: "distinct ps \<Longrightarrow> sorted (values_of fp ps) \<and> distinct (values_of fp ps)"
  by (simp add: values_of_def distinct_snd_key)

lemma values_of_sorted_list:
  "distinct ps \<Longrightarrow> set (values_of fp ps) = S \<Longrightarrow> values_of fp ps = sorted_list_of_set S"
  using values_of_sorted_distinct [of ps fp] sorted_list_of_set.idem_if_sorted_distinct by metis

lemma frame_columns:
  "fingerprint_ips (insert_port fp port t) = fingerprint_ips t"
  "fingerprint_ips (upsert_sighting fp ip port now t) = fingerprint_ips t"
  "fingerprint_ips (trim_sightings fp t) = fingerprint_ips t"
  "fingerprint_ips (trim_ports fp t) = fingerprint_ips t"
  "fingerprint_ports (insert_ip fp ip t) = fingerprint_ports t"
  "fingerprint_ports (upsert_sighting fp ip port now t) = fingerprint_ports t"
  "fingerprint_ports (trim_sightings fp t) = fingerprint_ports t"
  "fingerprint_ports (trim_ips fp t) = fingerprint_ports t"
  by (simp_all add: insert_port_def upsert_sighting_def trim_sightings_def trim_ports_def insert_ip_def
      trim_ips_def Let_def)

lemma ips_of_record_history:
  assumes "keys_ok t" "fp \<in> fps t"
  shows "ips_of fp (record_history fp ip port now t) =
    take MaxObservationValues (sorted_list_of_set (set (ips_of fp t) \<union> (if ip = [] then {} else {ip})))"
proof -
  define t1 where "t1 = (if ip \<noteq> [] then insert_ip fp ip t else t)"
  define t3 where "t3 = (let t2 = (if port \<noteq> 0 then insert_port fp port t1 else t1)
      in if ip \<noteq> [] then upsert_sighting fp ip port now t2 else t2)"
  have k1: "keys_ok t1" "fp \<in> fps t1" using assms by (simp_all add: t1_def keys_ok_insert_ip fps_def frame_history)
  have k3: "keys_ok t3" using k1
    by (simp add: t3_def Let_def keys_ok_insert_port keys_ok_upsert_sighting fps_def frame_history)
  have ips: "fingerprint_ips t3 = fingerprint_ips t1"
    by (simp add: t3_def Let_def frame_columns)
  have "ips_of fp (record_history fp ip port now t) = ips_of fp (trim_ips fp (trim_sightings fp t3))"
    by (simp add: record_history_def t1_def t3_def Let_def ips_of_values frame_columns)
  also have "\<dots> = take MaxObservationValues (values_of fp (fingerprint_ips t1))"
    using ip_history.sel_trim [OF keys_ok_trim(1) [OF k3], of fp fp fp] ips by (simp add: ips_of_values frame_columns)
  also have "set (values_of fp (fingerprint_ips t1)) = set (ips_of fp t) \<union> (if ip = [] then {} else {ip})"
    by (auto simp: set_values_of ips_of_values t1_def insert_ip_def)
  then have "values_of fp (fingerprint_ips t1) =
      sorted_list_of_set (set (ips_of fp t) \<union> (if ip = [] then {} else {ip}))"
    by (rule values_of_sorted_list [OF keys_okD(2) [OF k1(1)]])
  finally show ?thesis .
qed

lemma ports_of_record_history:
  assumes "keys_ok t" "fp \<in> fps t"
  shows "ports_of fp (record_history fp ip port now t) =
    take MaxObservationValues (sorted_list_of_set (set (ports_of fp t) \<union> (if port = 0 then {} else {port})))"
proof -
  define t1 where "t1 = (if ip \<noteq> [] then insert_ip fp ip t else t)"
  define t2 where "t2 = (if port \<noteq> 0 then insert_port fp port t1 else t1)"
  define t3 where "t3 = (if ip \<noteq> [] then upsert_sighting fp ip port now t2 else t2)"
  have k1: "keys_ok t1" "fp \<in> fps t1" using assms by (simp_all add: t1_def keys_ok_insert_ip fps_def frame_history)
  have k2: "keys_ok t2" "fp \<in> fps t2" using k1 by (simp_all add: t2_def keys_ok_insert_port fps_def frame_history)
  have k3: "keys_ok t3" using k2 by (simp add: t3_def keys_ok_upsert_sighting)
  have "ports_of fp (record_history fp ip port now t) = ports_of fp (trim_ports fp (trim_ips fp (trim_sightings fp t3)))"
    by (simp add: record_history_def t1_def t2_def t3_def Let_def)
  also have "\<dots> = take MaxObservationValues (values_of fp (fingerprint_ports t2))"
    using port_history.sel_trim [OF keys_ok_trim(2) [OF keys_ok_trim(1) [OF k3]], of fp fp fp fp]
    by (simp add: ports_of_values frame_columns t3_def)
  also have "set (values_of fp (fingerprint_ports t2)) = set (ports_of fp t) \<union> (if port = 0 then {} else {port})"
    by (auto simp: set_values_of ports_of_values t1_def t2_def insert_port_def frame_columns)
  then have "values_of fp (fingerprint_ports t2) =
      sorted_list_of_set (set (ports_of fp t) \<union> (if port = 0 then {} else {port}))"
    by (rule values_of_sorted_list [OF keys_okD(3) [OF k2(1)]])
  finally show ?thesis .
qed

lemma sightings_of_record_history:
  assumes "keys_ok t" "fp \<in> fps t"
  shows "\<exists>t2. fingerprint_sightings t2 = fingerprint_sightings t \<and>
    sightings_of fp (record_history fp ip port now t) =
      take MaxObservationValues (sightings_of fp (if ip \<noteq> [] then upsert_sighting fp ip port now t2 else t2))"
proof -
  define t1 where "t1 = (if ip \<noteq> [] then insert_ip fp ip t else t)"
  define t2 where "t2 = (if port \<noteq> 0 then insert_port fp port t1 else t1)"
  define t3 where "t3 = (if ip \<noteq> [] then upsert_sighting fp ip port now t2 else t2)"
  have k1: "keys_ok t1" "fp \<in> fps t1" using assms by (simp_all add: t1_def keys_ok_insert_ip fps_def frame_history)
  have k2: "keys_ok t2" "fp \<in> fps t2" using k1 by (simp_all add: t2_def keys_ok_insert_port fps_def frame_history)
  have k3: "keys_ok t3" using k2 by (simp add: t3_def keys_ok_upsert_sighting)
  have "sightings_of fp (record_history fp ip port now t) = sightings_of fp (trim_sightings fp t3)"
    by (simp add: record_history_def t1_def t2_def t3_def Let_def sightings_of_def frame_sightings)
  also have "\<dots> = take MaxObservationValues (sightings_of fp t3)"
    using sighting_history.sel_trim [OF k3, of fp fp] by simp
  finally have "sightings_of fp (record_history fp ip port now t) = take MaxObservationValues (sightings_of fp t3)" .
  moreover have "fingerprint_sightings t2 = fingerprint_sightings t"
    by (simp add: t1_def t2_def insert_ip_def insert_port_def)
  ultimately show ?thesis unfolding t3_def by blast
qed

lemma hd_sort_key:
  assumes "x \<in> set xs" "\<And>y. y \<in> set xs \<Longrightarrow> y \<noteq> x \<Longrightarrow> k x < k y"
  shows "\<exists>ys. sort_key k xs = x # ys"
proof (cases "sort_key k xs")
  case Nil
  then have "set xs = {}" by (metis set_sort list.set(1))
  then show ?thesis using assms(1) by simp
next
  case (Cons z zs)
  then have z: "z \<in> set xs" and x: "x \<in> set (z # zs)" using assms(1) by (metis set_sort list.set_intros(1))+
  have "sorted (map k (z # zs))" using sorted_sort_key [of k xs] unfolding Cons .
  then have "k z \<le> k x" using x by auto
  then have "z = x" using assms(2) [OF z] by force
  then show ?thesis using Cons by blast
qed

text \<open>A pair observed after every other sighting of the fingerprint leads the list.\<close>

lemma newest_first:
  assumes "\<And>s. s \<in> set (fingerprint_sightings t) \<Longrightarrow> s_fp s = fp \<Longrightarrow> s_key s \<noteq> (fp, ip, port) \<Longrightarrow> s_seen s < now"
  shows "\<exists>ys. sightings_of fp (upsert_sighting fp ip port now t) = \<lparr>s_fp = fp, s_ip = ip, s_port = port, s_seen = now\<rparr> # ys"
  unfolding sightings_of_def
proof (rule hd_sort_key)
  let ?x = "\<lparr>s_fp = fp, s_ip = ip, s_port = port, s_seen = now\<rparr>"
  have eq: "s\<lparr>s_seen := now\<rparr> = ?x" if "s_key s = (fp, ip, port)" for s
    using that by (cases s) (simp add: s_key_def)
  have mem: "y \<in> set (fingerprint_sightings (upsert_sighting fp ip port now t)) \<longleftrightarrow>
      y = ?x \<or> y \<in> set (fingerprint_sightings t) \<and> s_key y \<noteq> (fp, ip, port)" for y
    using eq by (force simp: upsert_sighting_def image_iff s_key_def [of ?x])
  show "?x \<in> set (filter (\<lambda>s. s_fp s = fp) (fingerprint_sightings (upsert_sighting fp ip port now t)))"
    using mem [of ?x] by simp
  show "recent_first ?x < recent_first y"
    if "y \<in> set (filter (\<lambda>s. s_fp s = fp) (fingerprint_sightings (upsert_sighting fp ip port now t)))" "y \<noteq> ?x" for y
    using that assms [of y] mem [of y] by (simp add: recent_first_def less_prod_def' less_desc_def)
qed



end
