(* ===== verification/Verdicts.thy ===== *)
theory Verdicts
  imports Observing
begin

text \<open>
  How verdicts change: the status and label setters of \<open>src/store/store.go\<close> and the batches of
  control-plane decisions of \<open>src/store/decisions.go\<close>.
\<close>

section \<open>Status and label changes\<close>

lemma update_status_find:
  assumes "update_status fp s t = (n, t')"
  shows "n = 0 \<Longrightarrow> t' = t"
    "n \<noteq> 0 \<Longrightarrow> \<exists>r. find_fp fp t = Some r \<and> (s = ''approved'' \<longrightarrow> r_ranges r = None) \<and>
       t' = update_fp fp (\<lambda>r. r\<lparr>r_status := s, r_ranges := None\<rparr>) t"
  using assms by (auto simp: update_status_def split: option.splits if_splits)

lemma requireAffected_Inr:
  "requireAffected flt n fp c = (Inr u, c') \<longleftrightarrow> flt (calls c) = None \<and> n \<noteq> 0 \<and> c' = c\<lparr>calls := Suc (calls c)\<rparr>"
  by (auto simp: requireAffected_def bindD_Inr rowsAffected_Inr raiseD_Inr retD_Inr split: if_splits)

lemma read_only_requireAffected: "read_only (requireAffected flt n fp)"
  unfolding requireAffected_def
  by (intro read_only_bindD read_only_rowsAffected) (simp add: read_only_raiseD read_only_retD)

lemma write_then_check:
  assumes "bindD (execD flt f) (\<lambda>res. requireAffected flt res fp) c = (r, c')"
  shows "tabs c' = tabs c \<or> tabs c' = snd (f (tabs c))"
    "r = Inr u \<Longrightarrow> tabs c' = snd (f (tabs c)) \<and> fst (f (tabs c)) \<noteq> 0"
    "fst (f (tabs c)) = 0 \<Longrightarrow> \<exists>e. r = Inl e"
proof -
  show "tabs c' = tabs c \<or> tabs c' = snd (f (tabs c))"
  proof (cases "flt (calls c)")
    case None
    define c1 where "c1 = \<lparr>tabs = snd (f (tabs c)), calls = Suc (calls c)\<rparr>"
    have "requireAffected flt (fst (f (tabs c))) fp c1 = (r, c')"
      using assms None by (simp add: bindD_def execD_def c1_def)
    then have "tabs c' = tabs c1" using read_only_requireAffected unfolding read_only_def by (metis snd_conv)
    then show ?thesis by (simp add: c1_def)
  qed (use assms in \<open>auto simp: bindD_def execD_def\<close>)
  show "r = Inr u \<Longrightarrow> tabs c' = snd (f (tabs c)) \<and> fst (f (tabs c)) \<noteq> 0"
    using assms by (auto simp: bindD_Inr execD_Inr requireAffected_Inr)
  show "\<exists>e. r = Inl e" if "fst (f (tabs c)) = 0"
    using assms that by (cases r) (auto simp: bindD_Inr execD_Inr requireAffected_Inr)
qed

text \<open>C2: the status setters cannot turn a restricted approval into an unrestricted one: approving a
  row that has a scope, by \<open>SetStatus\<close> or \<open>UpsertStatus\<close>, is always an error and changes
  nothing.\<close>

theorem restricted_approval_kept:
  assumes "find_fp fp (tabs c) = Some r" "r_ranges r \<noteq> None"
  shows "(\<exists>e. fst (SetStatus flt fp StatusApproved c) = Inl e) \<and> tabs (snd (SetStatus flt fp StatusApproved c)) = tabs c
    \<and> (\<exists>e. fst (UpsertStatus flt now fp StatusApproved label c) = Inl e)
    \<and> tabs (snd (UpsertStatus flt now fp StatusApproved label c)) = tabs c"
proof -
  have none: "update_status fp StatusApproved (tabs c) = (0, tabs c)"
    "upsert_status fp StatusApproved label (encodeTime now) (tabs c) = (0, tabs c)"
    using assms by (simp_all add: update_status_def upsert_status_def StatusApproved_def)
  have "\<exists>e. fst (bindD (execD flt f) (\<lambda>res. requireAffected flt res fp) c) = Inl e \<and>
      tabs (snd (bindD (execD flt f) (\<lambda>res. requireAffected flt res fp) c)) = tabs c"
    if "f (tabs c) = (0, tabs c)" for f
  proof -
    obtain r c' where run: "bindD (execD flt f) (\<lambda>res. requireAffected flt res fp) c = (r, c')" by fastforce
    show ?thesis using write_then_check(1,3) [OF run] that run by auto
  qed
  then show ?thesis using none by (simp add: SetStatus_def UpsertStatus_def)
qed

theorem restricted_approval_kept_witness:
  "tabs (snd (SetStatus no_faults ''ab'' StatusApproved sample_store)) = tabs sample_store"
proof -
  define r where "r = the (find_fp ''ab'' (tabs sample_store))"
  have "find_fp ''ab'' (tabs sample_store) = Some r" "r_ranges r \<noteq> None" unfolding r_def by code_simp+
  then show ?thesis using restricted_approval_kept [of "''ab''" sample_store r no_faults] by blast
qed

text \<open>A restriction can still be lost in two steps: blocking a restricted approval clears its scope
  and approving it again stores an unrestricted approval.\<close>

theorem reapproval_broadens:
  "\<exists>c1 c2. SetStatus no_faults ''ab'' StatusBlocked sample_store = (Inr (), c1)
    \<and> SetStatus no_faults ''ab'' StatusApproved c1 = (Inr (), c2)
    \<and> map_option r_ranges (find_fp ''ab'' (tabs sample_store)) \<noteq> Some None
    \<and> map_option (\<lambda>r. (r_status r, r_ranges r)) (find_fp ''ab'' (tabs c2)) = Some (StatusApproved, None)"
proof -
  define c1 where "c1 = snd (SetStatus no_faults ''ab'' StatusBlocked sample_store)"
  define c2 where "c2 = snd (SetStatus no_faults ''ab'' StatusApproved c1)"
  have "SetStatus no_faults ''ab'' StatusBlocked sample_store = (Inr (), c1)" unfolding c1_def by code_simp
  moreover have "SetStatus no_faults ''ab'' StatusApproved c1 = (Inr (), c2)" unfolding c1_def c2_def by code_simp
  moreover have "map_option r_ranges (find_fp ''ab'' (tabs sample_store)) \<noteq> Some None" by code_simp
  moreover have "map_option (\<lambda>r. (r_status r, r_ranges r)) (find_fp ''ab'' (tabs c2)) = Some (StatusApproved, None)"
    unfolding c1_def c2_def by code_simp
  ultimately show ?thesis by blast
qed

text \<open>A successful \<open>SetStatus\<close> writes the status of exactly one existing row and clears its scope; its
  label, history, counts and times, and all other rows, are unchanged.  It only succeeds for one
  of the three statuses and a stored fingerprint.\<close>

theorem SetStatus_spec:
  assumes "SetStatus flt fp s c = (Inr (), c')"
  shows "Valid s \<and> (\<exists>r. find_fp fp (tabs c) = Some r \<and> (s = StatusApproved \<longrightarrow> r_ranges r = None) \<and>
      (\<forall>g. find_fp g (tabs c') = (if g = fp then Some (r\<lparr>r_status := s, r_ranges := None\<rparr>) else find_fp g (tabs c))))
    \<and> fingerprint_ips (tabs c') = fingerprint_ips (tabs c) \<and> fingerprint_ports (tabs c') = fingerprint_ports (tabs c)
    \<and> fingerprint_sightings (tabs c') = fingerprint_sightings (tabs c) \<and> meta_table (tabs c') = meta_table (tabs c)"
proof -
  have v: "Valid s" and run: "bindD (execD flt (update_status fp s)) (\<lambda>res. requireAffected flt res fp) c = (Inr (), c')"
    using assms by (auto simp: SetStatus_def raiseD_Inr split: if_splits)
  have ok: "tabs c' = snd (update_status fp s (tabs c))" "fst (update_status fp s (tabs c)) \<noteq> 0"
    using write_then_check(2) [OF run] by simp_all
  obtain r where r: "find_fp fp (tabs c) = Some r" "s = ''approved'' \<longrightarrow> r_ranges r = None"
    "tabs c' = update_fp fp (\<lambda>r. r\<lparr>r_status := s, r_ranges := None\<rparr>) (tabs c)"
    using update_status_find(2) [OF prod.collapse [symmetric] ok(2)] ok(1) by auto
  then show ?thesis
    using v by (simp add: frame_fp find_fp_update_fp StatusApproved_def)
qed

theorem SetStatus_spec_witness:
  "find_fp ''aa'' (tabs (snd (SetStatus no_faults ''aa'' StatusApproved sample_store))) =
     Some (sample_row ''aa'' StatusApproved ''2026-01-02T00:00:00Z'' 3 None)"
proof -
  have "SetStatus no_faults ''aa'' StatusApproved sample_store =
      (Inr (), snd (SetStatus no_faults ''aa'' StatusApproved sample_store))" by code_simp
  from SetStatus_spec [OF this]
  obtain r where "find_fp ''aa'' (tabs sample_store) = Some r"
    "find_fp ''aa'' (tabs (snd (SetStatus no_faults ''aa'' StatusApproved sample_store))) =
       Some (r\<lparr>r_status := StatusApproved, r_ranges := None\<rparr>)" by auto
  moreover have "find_fp ''aa'' (tabs sample_store) = Some (sample_row ''aa'' StatusPending ''2026-01-02T00:00:00Z'' 3 None)"
    by code_simp
  ultimately show ?thesis by (auto simp: sample_row_def)
qed

section \<open>Applying decisions\<close>

definition apply_decisions :: "string \<Rightarrow> (decision \<times> string option) list \<Rightarrow> tables \<Rightarrow> tables" where
  "apply_decisions now dss t =
     foldl (\<lambda>t (d, sc). upsert_decision (dFingerprint d) (dStatus d) (dLabel d) sc now t) t dss"

text \<open>The effect on one row: its verdict is replaced, everything observed about it is kept.\<close>

definition decide_row :: "string \<Rightarrow> (string \<times> string option) list \<Rightarrow> decision \<times> string option \<Rightarrow> fp_row option \<Rightarrow> fp_row" where
  "decide_row now lc ds ro =
     (case ds of (d, sc) \<Rightarrow>
        (case ro of
           None \<Rightarrow> \<lparr>r_fp = dFingerprint d, r_status = dStatus d, r_label = dLabel d, r_first_seen = now,
                r_last_seen = now, r_count = 0, r_meta = ''{}'', r_ranges = sc, r_legacy = lc\<rparr>
         | Some r \<Rightarrow> r\<lparr>r_status := dStatus d, r_label := dLabel d, r_ranges := sc\<rparr>))"

lemma upsert_decision_find:
  "find_fp g (upsert_decision (dFingerprint d) (dStatus d) (dLabel d) sc now t) =
     (if g = dFingerprint d then Some (decide_row now (legacy_columns t) (d, sc) (find_fp g t)) else find_fp g t)"
  by (auto simp: upsert_decision_def decide_row_def find_fp_append_fp find_fp_update_fp split: option.splits)

lemma upsert_decision_frame [sql_simps]:
  "legacy_columns (upsert_decision fp s l sc now t) = legacy_columns t"
  "meta_table (upsert_decision fp s l sc now t) = meta_table t"
  "fingerprint_ips (upsert_decision fp s l sc now t) = fingerprint_ips t"
  "fingerprint_ports (upsert_decision fp s l sc now t) = fingerprint_ports t"
  "fingerprint_sightings (upsert_decision fp s l sc now t) = fingerprint_sightings t"
  "blocked_range_alerts (upsert_decision fp s l sc now t) = blocked_range_alerts t"
  by (simp_all add: upsert_decision_def append_fp_def update_fp_def split: option.splits)

lemma keys_ok_upsert_decision: "keys_ok t \<Longrightarrow> keys_ok (upsert_decision fp s l sc now t)"
  by (simp add: upsert_decision_def keys_ok_append_fp keys_ok_update_fp find_fp_None_iff split: option.splits)

lemma write_decisions_Inr:
  "write_decisions flt now dss c = (Inr u, c') \<Longrightarrow> tabs c' = apply_decisions now dss (tabs c)"
proof (induction flt now dss arbitrary: c rule: write_decisions.induct)
  case (2 flt now d sc ds)
  from "2.prems" obtain c1 u1 where
    "execD flt (\<lambda>t. ((), upsert_decision (dFingerprint d) (dStatus d) (dLabel d) sc now t)) c = (Inr u1, c1)"
    "write_decisions flt now ds c1 = (Inr u, c')" by (auto simp: bindD_Inr)
  then show ?case using "2.IH" [of c1] execD_unit by (fastforce simp: apply_decisions_def)
qed (simp add: apply_decisions_def retD_Inr)

lemma apply_decisions_frame:
  "legacy_columns (apply_decisions now dss t) = legacy_columns t \<and> meta_table (apply_decisions now dss t) = meta_table t
   \<and> fingerprint_ips (apply_decisions now dss t) = fingerprint_ips t
   \<and> fingerprint_ports (apply_decisions now dss t) = fingerprint_ports t
   \<and> fingerprint_sightings (apply_decisions now dss t) = fingerprint_sightings t
   \<and> blocked_range_alerts (apply_decisions now dss t) = blocked_range_alerts t"
  unfolding apply_decisions_def by (induction dss arbitrary: t) (auto simp: upsert_decision_frame)

lemma keys_ok_apply_decisions: "keys_ok t \<Longrightarrow> keys_ok (apply_decisions now dss t)"
  unfolding apply_decisions_def by (induction dss arbitrary: t) (auto simp: keys_ok_upsert_decision)

text \<open>The decisions of a batch for one fingerprint, of which the last one wins.\<close>

definition decisions_for :: "string \<Rightarrow> (decision \<times> string option) list \<Rightarrow> (decision \<times> string option) list" where
  "decisions_for fp dss = filter (\<lambda>(d, sc). dFingerprint d = fp) dss"

lemma decide_row_last:
  "decide_row now lc x (Some (decide_row now lc y ro)) = decide_row now lc x ro" if "dFingerprint (fst x) = dFingerprint (fst y)"
  using that by (cases x; cases y; cases ro) (simp_all add: decide_row_def)

lemma apply_decisions_find:
  "find_fp g (apply_decisions now dss t) =
     (if decisions_for g dss = [] then find_fp g t
      else Some (decide_row now (legacy_columns t) (last (decisions_for g dss)) (find_fp g t)))"
proof (induction dss rule: rev_induct)
  case (snoc x dss)
  obtain d sc where x: "x = (d, sc)" by fastforce
  let ?u = "apply_decisions now dss t"
  have step: "find_fp g (apply_decisions now (dss @ [x]) t) =
      (if g = dFingerprint d then Some (decide_row now (legacy_columns t) (d, sc) (find_fp g ?u)) else find_fp g ?u)"
    using upsert_decision_find [of g d sc now ?u] apply_decisions_frame [of now dss t]
    by (simp add: apply_decisions_def x)
  show ?case
  proof (cases "g = dFingerprint d")
    case True
    have "dFingerprint (fst (last (decisions_for g dss))) = g" if "decisions_for g dss \<noteq> []"
      using last_in_set [OF that] by (auto simp: decisions_for_def)
    then show ?thesis
      using snoc step True decide_row_last [of "(d, sc)" "last (decisions_for g dss)"]
      by (auto simp: decisions_for_def x)
  next
    case False
    then show ?thesis using snoc step by (simp add: decisions_for_def x)
  qed
qed (simp add: apply_decisions_def decisions_for_def)

text \<open>The meta table as a key-value store.\<close>

locale kv_store =
  fixes get :: "'k \<Rightarrow> 's \<Rightarrow> 'v option" and put :: "'k \<Rightarrow> 'v \<Rightarrow> 's \<Rightarrow> 's"
  assumes get_put: "get k (put k' v s) = (if k = k' then Some v else get k s)"
begin

lemma get_put_same: "get k (put k v s) = Some v"
  by (simp add: get_put)

lemma get_put_other: "k \<noteq> k' \<Longrightarrow> get k (put k' v s) = get k s"
  by (simp add: get_put)

lemma get_put_twice: "get k (put k1 v (put k1 w s)) = get k (put k1 v s)"
  by (simp add: get_put)

end

lemma lookup_upsert_meta: "lookup_meta k (upsert_meta k' v t) = (if k = k' then Some v else lookup_meta k t)"
proof -
  have "map_of (map (\<lambda>(a, b). if a = k' then (a, v) else (a, b)) m) k =
      (if k = k' then map_option (\<lambda>_. v) (map_of m k) else map_of m k)" for m :: "(string \<times> string) list"
    by (induction m) auto
  then show ?thesis
    by (auto simp: upsert_meta_def lookup_meta_def map_add_def split: option.splits)
qed

interpretation meta_kv: kv_store lookup_meta upsert_meta
  by unfold_locales (rule lookup_upsert_meta)

text \<open>What a successful \<open>ApplyDecisions\<close> did to the tables.\<close>

lemma ApplyDecisions_Inr:
  assumes "ApplyDecisions flt now ds key cur c = (Inr u, c')"
  obtains scopes where "scan_all decision_scope ds = Inr scopes"
    "tabs c' = (if key \<noteq> [] \<and> cur \<noteq> [] then upsert_meta key cur (apply_decisions (encodeTime now) (zip ds scopes) (tabs c))
       else apply_decisions (encodeTime now) (zip ds scopes) (tabs c))"
proof -
  obtain scopes c1 c2 u1 c3 where run: "scan_all decision_scope ds = Inr scopes"
    "write_decisions flt (encodeTime now) (zip ds scopes) (c\<lparr>calls := Suc (calls c)\<rparr>) = (Inr u1, c2)"
    "(if key \<noteq> [] \<and> cur \<noteq> [] then execD flt (\<lambda>t. ((), upsert_meta key cur t)) else retD ()) c2 = (Inr u, c3)"
    "tabs c' = tabs c3"
    using assms by (auto simp: ApplyDecisions_def bindD_Inr liftD_Inr with_tx_Inr)
  have "tabs c2 = apply_decisions (encodeTime now) (zip ds scopes) (tabs c)"
    using write_decisions_Inr [OF run(2)] by simp
  then show ?thesis using that run(1,4) when_execD [OF run(3)] by auto
qed

lemma atomic_ApplyDecisions: "atomic (ApplyDecisions flt now ds key cur)"
  unfolding ApplyDecisions_def by (intro atomic_bindD read_only_liftD atomic_with_tx)

text \<open>C19: a batch of decisions is all or nothing: when \<open>ApplyDecisions\<close> returns an error, for an invalid
  member, a statement that fails or a commit that fails, neither decisions nor cursor have
  changed; and an invalid member always is an error.\<close>

theorem ApplyDecisions_atomic:
  "(\<forall>err c'. ApplyDecisions flt now ds key cur c = (Inl err, c') \<longrightarrow> tabs c' = tabs c)
   \<and> ((\<exists>d\<in>set ds. \<exists>err. Decision_Validate d = Inl err) \<longrightarrow> (\<exists>err. fst (ApplyDecisions flt now ds key cur c) = Inl err))"
proof -
  have "\<exists>err. fst (ApplyDecisions flt now ds key cur c) = Inl err"
    if d: "d \<in> set ds" "Decision_Validate d = Inl err" for d err
  proof (rule ccontr)
    assume no: "\<not> ?thesis"
    obtain r c' where rc: "ApplyDecisions flt now ds key cur c = (r, c')" by fastforce
    then obtain u where "r = Inr u" using no by (cases r) auto
    with rc have "ApplyDecisions flt now ds key cur c = (Inr u, c')" by simp
    then obtain scopes where "scan_all decision_scope ds = Inr scopes" by (rule ApplyDecisions_Inr)
    moreover obtain i where "i < length ds" "d = ds ! i" using d(1) by (metis in_set_conv_nth)
    ultimately obtain sc where "decision_scope d = Inr sc" by (auto simp: scan_all_Inr list_all2_conv_all_nth)
    then show False using d(2) by (simp add: decision_scope_def)
  qed
  then show ?thesis using atomic_ApplyDecisions unfolding atomic_def by blast
qed

theorem ApplyDecisions_atomic_witness:
  "tabs (snd (ApplyDecisions no_faults sample_now
     [\<lparr>dFingerprint = ''aa'', dStatus = StatusApproved, dLabel = [], dApprovalRanges = None\<rparr>,
      \<lparr>dFingerprint = ''ac'', dStatus = ''maybe'', dLabel = [], dApprovalRanges = None\<rparr>] ''k'' ''7'' sample_store)) = tabs sample_store"
proof -
  let ?run = "ApplyDecisions no_faults sample_now
     [\<lparr>dFingerprint = ''aa'', dStatus = StatusApproved, dLabel = [], dApprovalRanges = None\<rparr>,
      \<lparr>dFingerprint = ''ac'', dStatus = ''maybe'', dLabel = [], dApprovalRanges = None\<rparr>] ''k'' ''7'' sample_store"
  have "Decision_Validate \<lparr>dFingerprint = ''ac'', dStatus = ''maybe'', dLabel = [], dApprovalRanges = None\<rparr> =
      Inl (Errorf ''invalid fingerprint decision'' [])" by code_simp
  then obtain err where "fst ?run = Inl err" using ApplyDecisions_atomic by (metis list.set_intros)
  then have "?run = (Inl err, snd ?run)" by (metis prod.collapse)
  then show ?thesis using ApplyDecisions_atomic by blast
qed

lemma decision_scope_scan:
  assumes "decision_scope d = Inr sc" "\<forall>s. dApprovalRanges d = Some s \<longrightarrow> scope_ok s"
  shows "Valid (dStatus d)" "scan_ranges (dStatus d) sc = Inr (dApprovalRanges d)"
proof -
  have val: "Decision_Validate d = Inr ()"
    using assms(1) by (auto simp: decision_scope_def split: sum.splits)
  then show "Valid (dStatus d)" by (auto simp: Decision_Validate_def split: if_splits)
  show "scan_ranges (dStatus d) sc = Inr (dApprovalRanges d)"
  proof (cases "dApprovalRanges d")
    case None
    then show ?thesis using assms(1) val by (simp add: decision_scope_def)
  next
    case (Some s)
    then obtain j where j: "Scope_MarshalJSON s = Inr j" "json_Unmarshal_scope j = Inr (Some s)"
      using scope_json_roundtrip assms(2) by blast
    have "dStatus d = StatusApproved" using val Some by (auto simp: Decision_Validate_def split: if_splits)
    then show ?thesis using assms(1) val Some j by (auto simp: decision_scope_def scan_ranges_def)
  qed
qed

lemma decisions_for_zip:
  assumes "length ds = length scopes"
  shows "map fst (decisions_for fp (zip ds scopes)) = filter (\<lambda>d. dFingerprint d = fp) ds"
  using assms unfolding decisions_for_def by (induction ds scopes rule: list_induct2) auto

lemma db_ok_upsert_decision:
  "db_ok t \<Longrightarrow> four_digit_year now \<Longrightarrow> Valid s \<Longrightarrow> scan_ranges s sc = Inr x \<Longrightarrow> db_ok (upsert_decision fp s l sc (encodeTime now) t)"
  using db_ok_find [of t fp]
  by (auto simp: upsert_decision_def row_update_def row_ok_decision row_ok_placeholder intro!: db_ok_append_fp db_ok_update_fp split: option.splits)

lemma db_ok_apply_decisions:
  "db_ok t \<Longrightarrow> four_digit_year now \<Longrightarrow> \<forall>(d, sc)\<in>set dss. Valid (dStatus d) \<and> (\<exists>x. scan_ranges (dStatus d) sc = Inr x)
    \<Longrightarrow> db_ok (apply_decisions (encodeTime now) dss t)"
  unfolding apply_decisions_def by (induction dss arbitrary: t) (auto intro: db_ok_upsert_decision)

text \<open>Row \<open>r\<close> carries decision \<open>d\<close> on top of what was stored before, \<open>r0\<close>.\<close>

definition decided :: "string \<Rightarrow> decision \<Rightarrow> fp_row option \<Rightarrow> fp_row \<Rightarrow> bool" where
  "decided now d r0 r \<longleftrightarrow>
     r_status r = dStatus d \<and> r_label r = dLabel d \<and> scan_ranges (r_status r) (r_ranges r) = Inr (dApprovalRanges d) \<and>
     (case r0 of
        None \<Rightarrow> r_count r = 0 \<and> r_first_seen r = now \<and> r_last_seen r = now \<and> r_meta r = ''{}''
      | Some r0 \<Rightarrow> r_count r = r_count r0 \<and> r_first_seen r = r_first_seen r0 \<and> r_last_seen r = r_last_seen r0
          \<and> r_meta r = r_meta r0)"

lemma decide_row_decided:
  "scan_ranges (dStatus d) sc = Inr (dApprovalRanges d) \<Longrightarrow> decided now d r0 (decide_row now lc (d, sc) r0)"
  by (simp add: decided_def decide_row_def split: option.splits)

lemma ApplyDecisions_rows:
  assumes "ApplyDecisions flt now ds key cur c = (Inr u, c')"
    and "\<forall>d\<in>set ds. \<forall>s. dApprovalRanges d = Some s \<longrightarrow> scope_ok s"
  shows "(\<forall>fp. case filter (\<lambda>d. dFingerprint d = fp) ds of
        [] \<Rightarrow> find_fp fp (tabs c') = find_fp fp (tabs c)
      | d # rest \<Rightarrow> \<exists>r. find_fp fp (tabs c') = Some r \<and> decided (encodeTime now) (last (d # rest)) (find_fp fp (tabs c)) r)
    \<and> (key \<noteq> [] \<and> cur \<noteq> [] \<longrightarrow> lookup_meta key (tabs c') = Some cur)
    \<and> fingerprint_ips (tabs c') = fingerprint_ips (tabs c) \<and> fingerprint_ports (tabs c') = fingerprint_ports (tabs c)
    \<and> fingerprint_sightings (tabs c') = fingerprint_sightings (tabs c)"
proof -
  obtain scopes where sc: "scan_all decision_scope ds = Inr scopes" and t':
    "tabs c' = (if key \<noteq> [] \<and> cur \<noteq> [] then upsert_meta key cur (apply_decisions (encodeTime now) (zip ds scopes) (tabs c))
       else apply_decisions (encodeTime now) (zip ds scopes) (tabs c))"
    using assms(1) by (rule ApplyDecisions_Inr)
  have all: "list_all2 (\<lambda>d s. decision_scope d = Inr s) ds scopes" using sc by (simp add: scan_all_Inr)
  let ?dss = "zip ds scopes"
  have names: "map fst (decisions_for fp ?dss) = filter (\<lambda>d. dFingerprint d = fp) ds" for fp
    by (rule decisions_for_zip [OF list_all2_lengthD [OF all]])
  have find: "find_fp fp (tabs c') = (if decisions_for fp ?dss = [] then find_fp fp (tabs c)
      else Some (decide_row (encodeTime now) (legacy_columns (tabs c)) (last (decisions_for fp ?dss)) (find_fp fp (tabs c))))" for fp
    by (simp add: t' find_fp_simps apply_decisions_find)
  have row: "\<exists>r. find_fp fp (tabs c') = Some r \<and> decided (encodeTime now) (last (d # rest)) (find_fp fp (tabs c)) r"
    if f: "filter (\<lambda>d. dFingerprint d = fp) ds = d # rest" for fp d rest
  proof -
    have ne: "decisions_for fp ?dss \<noteq> []" using names [of fp] f by auto
    obtain dl sl where l: "last (decisions_for fp ?dss) = (dl, sl)" by fastforce
    have dl: "dl = last (d # rest)" using names [of fp] f ne l by (metis fst_conv last_map)
    have "(dl, sl) \<in> set ?dss" using last_in_set [OF ne] l by (simp add: decisions_for_def)
    then have "decision_scope dl = Inr sl" "dl \<in> set ds"
      using all by (auto simp: list_all2_iff dest: set_zip_leftD)
    then have "scan_ranges (dStatus dl) sl = Inr (dApprovalRanges dl)" using decision_scope_scan(2) assms(2) by blast
    then show ?thesis unfolding dl [symmetric] using find [of fp] ne l decide_row_decided by simp
  qed
  have "find_fp fp (tabs c') = find_fp fp (tabs c)" if "filter (\<lambda>d. dFingerprint d = fp) ds = []" for fp
    using find [of fp] that names [of fp] by simp
  with row have "\<forall>fp. case filter (\<lambda>d. dFingerprint d = fp) ds of [] \<Rightarrow> find_fp fp (tabs c') = find_fp fp (tabs c)
      | d # rest \<Rightarrow> \<exists>r. find_fp fp (tabs c') = Some r \<and> decided (encodeTime now) (last (d # rest)) (find_fp fp (tabs c)) r"
    by (simp split: list.split)
  moreover have "fingerprint_ips (upsert_meta key cur t) = fingerprint_ips t \<and> fingerprint_ports (upsert_meta key cur t) = fingerprint_ports t
      \<and> fingerprint_sightings (upsert_meta key cur t) = fingerprint_sightings t" for t
    by (simp add: upsert_meta_def split: option.splits)
  ultimately show ?thesis
    using apply_decisions_frame [of "encodeTime now" ?dss "tabs c"] by (simp add: t' meta_kv.get_put_same)
qed

text \<open>C7: what a successful batch leaves behind.  A fingerprint without a decision keeps its row.  For a
  fingerprint with decisions the last one wins: status and label are its own, its scope is what
  reading the row back gives (none removes a restriction), and count, times and metadata
  are those of the row before, or those of a placeholder created now.  A nonempty cursor is stored
  under a nonempty key.  Addresses, ports and sightings are untouched.\<close>

theorem ApplyDecisions_spec:
  assumes "ApplyDecisions flt now ds key cur c = (Inr u, c')"
    and "\<forall>d\<in>set ds. \<forall>s. dApprovalRanges d = Some s \<longrightarrow> scope_ok s"
  shows "(\<forall>fp. case filter (\<lambda>d. dFingerprint d = fp) ds of
        [] \<Rightarrow> find_fp fp (tabs c') = find_fp fp (tabs c)
      | d # rest \<Rightarrow> \<exists>r. find_fp fp (tabs c') = Some r \<and> decided (encodeTime now) (last (d # rest)) (find_fp fp (tabs c)) r)
    \<and> (key \<noteq> [] \<and> cur \<noteq> [] \<longrightarrow> lookup_meta key (tabs c') = Some cur)
    \<and> fingerprint_ips (tabs c') = fingerprint_ips (tabs c) \<and> fingerprint_ports (tabs c') = fingerprint_ports (tabs c)
    \<and> fingerprint_sightings (tabs c') = fingerprint_sightings (tabs c)"
  by (rule ApplyDecisions_rows [OF assms])

definition sample_scope :: scope where
  "sample_scope = \<lparr>prefixes = [Prefix (Addr4 0x0A000000) 8]\<rparr>"

definition sample_decision :: decision where
  "sample_decision = \<lparr>dFingerprint = ''aa'', dStatus = StatusApproved, dLabel = ''desk'', dApprovalRanges = Some sample_scope\<rparr>"

lemma sample_scope_ok: "scope_ok sample_scope"
  by code_simp

lemma succeeds_write_decisions: "succeeds (write_decisions no_faults now dss) c"
proof (induction dss arbitrary: c)
  case (Cons x dss)
  then show ?case by (cases x) (auto intro!: succeeds_bindD)
qed simp

lemma succeeds_ApplyDecisions:
  "scan_all decision_scope ds = Inr scopes \<Longrightarrow> \<exists>c'. ApplyDecisions no_faults now ds key cur c = (Inr (), c')"
proof -
  assume "scan_all decision_scope ds = Inr scopes"
  then have "succeeds (ApplyDecisions no_faults now ds key cur) c"
    unfolding ApplyDecisions_def by (auto simp: bindD_liftD succeeds_write_decisions intro!: succeeds_bindD)
  then show ?thesis by (auto simp: succeeds_def)
qed

lemma sample_decision_applies: "\<exists>c'. ApplyDecisions no_faults now [sample_decision] ''k'' ''7'' c = (Inr (), c')"
proof (rule succeeds_ApplyDecisions)
  show "scan_all decision_scope [sample_decision] = Inr [Some (projr (Scope_MarshalJSON sample_scope))]" by code_simp
qed

theorem ApplyDecisions_spec_witness:
  "\<exists>c'. ApplyDecisions no_faults sample_now [sample_decision] ''k'' ''7'' sample_store = (Inr (), c')
    \<and> (\<exists>r. find_fp ''aa'' (tabs c') = Some r \<and> decided (encodeTime sample_now) sample_decision (find_fp ''aa'' (tabs sample_store)) r)
    \<and> lookup_meta ''k'' (tabs c') = Some ''7''"
proof -
  obtain c' where run: "ApplyDecisions no_faults sample_now [sample_decision] ''k'' ''7'' sample_store = (Inr (), c')"
    using sample_decision_applies by blast
  have "\<forall>d\<in>set [sample_decision]. \<forall>s. dApprovalRanges d = Some s \<longrightarrow> scope_ok s"
    using sample_scope_ok by (simp add: sample_decision_def)
  from ApplyDecisions_spec [OF run this] show ?thesis
    using run by (auto simp: sample_decision_def dest: spec [of _ "''aa''"])
qed

section \<open>Repeating a batch\<close>

lemma rows_eqI:
  assumes "map r_fp xs = map r_fp ys" "distinct (map r_fp xs)"
    and "\<And>fp. find (\<lambda>r. r_fp r = fp) xs = find (\<lambda>r. r_fp r = fp) ys"
  shows "xs = ys"
proof (rule nth_equalityI)
  show len: "length xs = length ys" using assms(1) by (metis length_map)
  fix i
  assume i: "i < length xs"
  have "find (\<lambda>r. r_fp r = r_fp (xs ! i)) xs = Some (xs ! i)"
    using find_distinct_key [OF assms(2)] i by simp
  moreover have "r_fp (ys ! i) = r_fp (xs ! i)" using assms(1) i len by (metis nth_map)
  then have "find (\<lambda>r. r_fp r = r_fp (xs ! i)) ys = Some (ys ! i)"
    using find_distinct_key [of r_fp ys "ys ! i"] assms(1,2) i len by simp
  ultimately show "xs ! i = ys ! i" using assms(3) by simp
qed

lemma apply_decisions_known:
  "\<forall>x\<in>set dss. dFingerprint (fst x) \<in> fps t \<Longrightarrow>
    map r_fp (fingerprints (apply_decisions now dss t)) = map r_fp (fingerprints t)"
proof (induction dss arbitrary: t)
  case (Cons x dss)
  obtain d sc where x: "x = (d, sc)" by fastforce
  define u where "u = upsert_decision (dFingerprint d) (dStatus d) (dLabel d) sc now t"
  obtain r where "find_fp (dFingerprint d) t = Some r"
    using Cons.prems find_fp_None_iff [of "dFingerprint d" t] x by (cases "find_fp (dFingerprint d) t") auto
  then have "map r_fp (fingerprints u) = map r_fp (fingerprints t)"
    by (simp add: u_def upsert_decision_def update_fp_def)
  moreover from this have "fps u = fps t" by (metis fps_def list.set_map)
  moreover have "apply_decisions now (x # dss) t = apply_decisions now dss u"
    by (simp add: apply_decisions_def x u_def)
  ultimately show ?case using Cons by simp
qed (simp add: apply_decisions_def)

lemma apply_decisions_again:
  assumes "keys_ok t" "\<And>g. find_fp g t = (if decisions_for g dss = [] then f g else Some (decide_row now lc (last (decisions_for g dss)) (f g)))"
  shows "apply_decisions now' dss t = t"
proof -
  have known: "dFingerprint (fst x) \<in> fps t" if "x \<in> set dss" for x
  proof -
    have "x \<in> set (decisions_for (dFingerprint (fst x)) dss)" using that by (auto simp: decisions_for_def)
    then have "find_fp (dFingerprint (fst x)) t \<noteq> None" using assms(2) [of "dFingerprint (fst x)"] by auto
    then show ?thesis by (simp add: find_fp_None_iff)
  qed
  have idem: "decide_row now' lc' x (Some (decide_row now lc x ro)) = decide_row now lc x ro" for lc' x ro
    by (cases x; cases ro) (simp_all add: decide_row_def)
  have same: "find_fp g (apply_decisions now' dss t) = find_fp g t" for g
    using assms(2) [of g] by (simp add: apply_decisions_find idem)
  have "fingerprints (apply_decisions now' dss t) = fingerprints t"
  proof (rule rows_eqI)
    show names: "map r_fp (fingerprints (apply_decisions now' dss t)) = map r_fp (fingerprints t)"
      by (rule apply_decisions_known) (simp add: known)
    show "distinct (map r_fp (fingerprints (apply_decisions now' dss t)))"
      using keys_okD(1) [OF assms(1)] by (simp add: names)
  qed (use same in \<open>simp add: find_fp_def\<close>)
  then show ?thesis
    using apply_decisions_frame [of now' dss t] by (intro tables.equality) simp_all
qed

lemma upsert_meta_same:
  assumes "distinct (map fst (meta_table t))" "lookup_meta k t = Some v"
  shows "upsert_meta k v t = t"
proof -
  have "map (\<lambda>(a, b). if a = k then (a, v) else (a, b)) (meta_table t) = meta_table t"
    using assms(2) map_of_is_SomeI [OF assms(1)] by (intro map_idI) (force simp: lookup_meta_def)
  then show ?thesis using assms(2) by (simp add: upsert_meta_def)
qed

text \<open>C20: retrying a batch is idempotent: applied again to the store it produced, at whatever later
  time, the same batch with the same cursor changes no table at all.\<close>

theorem ApplyDecisions_idempotent:
  assumes "keys_ok (tabs c)" "ApplyDecisions flt now ds key cur c = (Inr u, c1)"
    and "ApplyDecisions flt' now' ds key cur c1 = (Inr u', c2)"
  shows "tabs c2 = tabs c1"
proof -
  obtain scopes where s1: "scan_all decision_scope ds = Inr scopes" and t1:
    "tabs c1 = (if key \<noteq> [] \<and> cur \<noteq> [] then upsert_meta key cur (apply_decisions (encodeTime now) (zip ds scopes) (tabs c))
       else apply_decisions (encodeTime now) (zip ds scopes) (tabs c))"
    using assms(2) by (rule ApplyDecisions_Inr)
  obtain scopes' where s2: "scan_all decision_scope ds = Inr scopes'" and t2:
    "tabs c2 = (if key \<noteq> [] \<and> cur \<noteq> [] then upsert_meta key cur (apply_decisions (encodeTime now') (zip ds scopes') (tabs c1))
       else apply_decisions (encodeTime now') (zip ds scopes') (tabs c1))"
    using assms(3) by (rule ApplyDecisions_Inr)
  have sc: "scopes' = scopes" using s1 s2 by simp
  have k: "keys_ok (tabs c1)"
    using assms(1) by (simp add: t1 keys_ok_apply_decisions keys_ok_upsert_meta)
  have "find_fp g (tabs c1) = (if decisions_for g (zip ds scopes) = [] then find_fp g (tabs c)
      else Some (decide_row (encodeTime now) (legacy_columns (tabs c)) (last (decisions_for g (zip ds scopes))) (find_fp g (tabs c))))" for g
    by (simp add: t1 find_fp_simps apply_decisions_find)
  then have "apply_decisions (encodeTime now') (zip ds scopes) (tabs c1) = tabs c1"
    by (rule apply_decisions_again [OF k])
  moreover have "upsert_meta key cur (tabs c1) = tabs c1" if "key \<noteq> [] \<and> cur \<noteq> []"
    using that keys_okD(5) [OF k] by (intro upsert_meta_same) (simp_all add: t1 meta_kv.get_put_same)
  ultimately show ?thesis by (simp add: t2 sc)
qed

theorem ApplyDecisions_idempotent_witness:
  "\<exists>c1 c2. ApplyDecisions no_faults sample_now [sample_decision] ''k'' ''7'' sample_store = (Inr (), c1)
     \<and> ApplyDecisions no_faults (sample_now + second) [sample_decision] ''k'' ''7'' c1 = (Inr (), c2) \<and> tabs c2 = tabs c1"
proof -
  obtain c1 where c1: "ApplyDecisions no_faults sample_now [sample_decision] ''k'' ''7'' sample_store = (Inr (), c1)"
    using sample_decision_applies by blast
  obtain c2 where c2: "ApplyDecisions no_faults (sample_now + second) [sample_decision] ''k'' ''7'' c1 = (Inr (), c2)"
    using sample_decision_applies by blast
  show ?thesis
    using ApplyDecisions_idempotent [OF db_ok_keys [OF sample_store_ok] c1 c2] c1 c2 by blast
qed

section \<open>Placeholders\<close>

lemma upsert_status_find:
  assumes "upsert_status fp s label now t = (n, t')" "n \<noteq> 0"
  shows "\<exists>r. find_fp fp t' = Some r \<and> r_status r = s \<and> r_label r = label \<and> r_ranges r = None \<and>
    r_count r = (case find_fp fp t of None \<Rightarrow> 0 | Some r0 \<Rightarrow> r_count r0) \<and>
    r_first_seen r = (case find_fp fp t of None \<Rightarrow> now | Some r0 \<Rightarrow> r_first_seen r0)"
    "g \<noteq> fp \<Longrightarrow> find_fp g t' = find_fp g t"
  using assms by (auto simp: upsert_status_def find_fp_append_fp find_fp_update_fp split: option.splits if_splits)

lemma UpsertStatus_Inr:
  assumes "UpsertStatus flt now fp s label c = (Inr u, c')"
  shows "Valid s" "tabs c' = snd (upsert_status fp s label (encodeTime now) (tabs c))"
    "fst (upsert_status fp s label (encodeTime now) (tabs c)) \<noteq> 0"
proof -
  have v: "Valid s" and run: "bindD (execD flt (upsert_status fp s label (encodeTime now)))
      (\<lambda>res. requireAffected flt res fp) c = (Inr u, c')"
    using assms by (auto simp: UpsertStatus_def raiseD_Inr split: if_splits)
  then show "Valid s" "tabs c' = snd (upsert_status fp s label (encodeTime now) (tabs c))"
    "fst (upsert_status fp s label (encodeTime now) (tabs c)) \<noteq> 0"
    using write_then_check(2) [OF run] by simp_all
qed

text \<open>A verdict given before the first sighting survives it: after \<open>UpsertStatus\<close>, the next
  observation of the fingerprint returns that status and label without a scope, whatever the gate
  does with unknown clients, and its count is one more than before, so that a placeholder counts
  its first sighting as one.\<close>

theorem preapproval_survives:
  assumes "UpsertStatus flt now fp s label c = (Inr (), c1)" "oFingerprint obs = fp"
    and "Observe flt' ord n now' obs bu c1 = (Inr e, c2)"
  shows "eStatus e = s \<and> eLabel e = label \<and> eApprovalRanges e = None
    \<and> eCount e = (case find_fp fp (tabs c) of None \<Rightarrow> 1 | Some r \<Rightarrow> r_count r + 1)"
proof -
  note up = UpsertStatus_Inr [OF assms(1)]
  obtain r where r: "find_fp fp (tabs c1) = Some r" "r_status r = s" "r_label r = label" "r_ranges r = None"
    "r_count r = (case find_fp fp (tabs c) of None \<Rightarrow> 0 | Some r0 \<Rightarrow> r_count r0)"
    using upsert_status_find(1) [OF prod.collapse [symmetric] up(3)] up(2) by auto
  show ?thesis
    using observe_again [of obs c1 r flt' ord n now' bu e c2] assms(2,3) r by (auto split: option.splits)
qed

theorem preapproval_survives_witness:
  "\<exists>c1 e c2. UpsertStatus no_faults sample_now ''zz'' StatusApproved ''lab'' sample_store = (Inr (), c1)
     \<and> Observe no_faults (sort_key r_last_seen) 0 sample_now
         \<lparr>oFingerprint = ''zz'', oIP = [], oPort = 0, oMeta = []\<rparr> True c1 = (Inr e, c2)
     \<and> eStatus e = StatusApproved \<and> eCount e = 1"
proof -
  define c1 where "c1 = snd (UpsertStatus no_faults sample_now ''zz'' StatusApproved ''lab'' sample_store)"
  have c1: "UpsertStatus no_faults sample_now ''zz'' StatusApproved ''lab'' sample_store = (Inr (), c1)"
    unfolding c1_def by code_simp
  have year: "four_digit_year sample_now" and none: "find_fp ''zz'' (tabs sample_store) = None" by code_simp+
  have "db_ok (tabs c1)"
    using UpsertStatus_Inr(2) [OF c1] none row_ok_placeholder [OF year] sample_store_ok
    by (simp add: upsert_status_def db_ok_append_fp)
  then obtain e c2 where c2: "Observe no_faults (sort_key r_last_seen) 0 sample_now
      \<lparr>oFingerprint = ''zz'', oIP = [], oPort = 0, oMeta = []\<rparr> True c1 = (Inr e, c2)"
    using succeeds_Observe [OF _ year, of c1 "\<lparr>oFingerprint = ''zz'', oIP = [], oPort = 0, oMeta = []\<rparr>" "''{}''" "Some []"
        "sort_key r_last_seen" 0 True]
    by (auto simp: encodeMeta_def)
  show ?thesis using preapproval_survives [OF c1 _ c2] c1 c2 none by simp
qed

end
