(* ===== verification/Reading.thy ===== *)
theory Reading
  imports Verdicts
begin

text \<open>
  Reads of the store: \<open>Get\<close>, \<open>List\<close> (\<open>src/store/store.go\<close>) and \<open>ListPage\<close>
  (\<open>src/store/limits.go\<close>) return the same view of a well-formed database.
\<close>

section \<open>What a row reads as\<close>

definition sighting_of :: "sighting_row \<Rightarrow> sighting" where
  "sighting_of s = projr (scan_sighting s)"

definition entry_of :: "tables \<Rightarrow> fp_row \<Rightarrow> entry" where
  "entry_of t r = (projr (scanEntry r))\<lparr>eIPs := ips_of (r_fp r) t, ePorts := ports_of (r_fp r) t,
     eSightings := map sighting_of (sightings_of (r_fp r) t)\<rparr>"

lemma scan_sightings_map:
  assumes "db_ok t" "set rows \<subseteq> set (fingerprint_sightings t)"
  shows "scan_all scan_sighting rows = Inr (map sighting_of rows)"
proof -
  have "scan_all scan_sighting rows = Inr (map (projr \<circ> scan_sighting) rows)"
    using assms by (intro scan_all_map) (auto simp: db_ok_iff scan_sighting_Inr)
  then show ?thesis by (simp add: sighting_of_def comp_def)
qed

lemma scan_rows_map:
  assumes "db_ok t" "set rows \<subseteq> set (fingerprints t)"
  shows "scan_all scanEntry rows = Inr (map (\<lambda>r. projr (scanEntry r)) rows)"
proof -
  have "scan_all scanEntry rows = Inr (map (projr \<circ> scanEntry) rows)"
    using assms row_ok_scan by (intro scan_all_map) (auto simp: db_ok_iff)
  then show ?thesis by (simp add: comp_def)
qed

lemma yields_lists:
  "yields (listStringsFrom no_faults q) t (q t)" "yields (listIntsFrom no_faults q') t (q' t)"
  unfolding listStringsFrom_def listIntsFrom_def by (intro yields_queryRowsD yields_retD)+

lemma yields_listSightings:
  "db_ok t \<Longrightarrow> yields (listSightingsFrom no_faults (sightings_of fp)) t (map sighting_of (sightings_of fp t))"
  unfolding listSightingsFrom_def
  by (intro yields_queryRowsD yields_liftD scan_sightings_map [of t]) (auto simp: sightings_of_def)

lemma yields_attach_history:
  "db_ok t \<Longrightarrow> yields (attach_history no_faults fp e) t
     (e\<lparr>eIPs := ips_of fp t, ePorts := ports_of fp t, eSightings := map sighting_of (sightings_of fp t)\<rparr>)"
  unfolding attach_history_def by (intro yields_bindD [OF yields_lists(1)] yields_bindD [OF yields_lists(2)]
      yields_bindD [OF yields_listSightings] yields_retD)

lemma yields_Get:
  assumes "db_ok t" "find_fp fp t = Some r"
  shows "yields (Get no_faults fp) t (entry_of t r)"
proof -
  have fp: "r_fp r = fp" using find_fp_SomeD [OF assms(2)] by simp
  obtain e where e: "scanEntry r = Inr e" using row_ok_scan [OF db_ok_find [OF assms]] by blast
  show ?thesis
    unfolding Get_def using yields_attach_history [OF assms(1), of fp e]
    by (intro yields_bindD [OF yields_queryRowD [where q = "find_fp fp", OF assms(2)]] yields_bindD [OF yields_liftD [OF e]])
      (simp add: entry_of_def fp e)
qed

lemma Get_absent: "find_fp fp (tabs c) = None \<Longrightarrow> fst (Get no_faults fp c) = Inl ErrNoRows"
  by (simp add: Get_def bindD_def)



text \<open>C3: a stored scope is never read as unrestricted: when a row decodes, its entry has a scope exactly
  when the column is not NULL, that scope is well formed, and the row is approved; a corrupt scope
  is a decoding error.\<close>

theorem scope_never_lost:
  assumes "scanEntry r = Inr e"
  shows "(eApprovalRanges e = None \<longleftrightarrow> r_ranges r = None) \<and>
    (\<forall>s. eApprovalRanges e = Some s \<longrightarrow> scope_ok s \<and> eStatus e = StatusApproved)"
proof -
  have sc: "scan_ranges (r_status r) (r_ranges r) = Inr (eApprovalRanges e)" and st: "eStatus e = r_status r"
    using scanEntry_fields [OF assms] by simp_all
  have "scope_ok s" if "json_Unmarshal_scope j = Inr (Some s)" for j s
    using that Scope_New_scope_ok
    by (auto simp: json_Unmarshal_scope_def scope_of_json_def split: option.splits json.splits sum.splits)
  then show ?thesis
    using sc st by (auto simp: scan_ranges_def split: option.splits sum.splits if_splits) metis
qed

theorem scope_never_lost_witness:
  "\<exists>e. scanEntry (the (find_fp ''ab'' (tabs sample_store))) = Inr e \<and> eApprovalRanges e \<noteq> None"
proof -
  have ok: "row_ok (the (find_fp ''ab'' (tabs sample_store)))" and r: "r_ranges (the (find_fp ''ab'' (tabs sample_store))) \<noteq> None"
    by code_simp+
  obtain e where e: "scanEntry (the (find_fp ''ab'' (tabs sample_store))) = Inr e"
    using row_ok_scan [OF ok] by blast
  then show ?thesis using scope_never_lost [OF e] r by blast
qed

section \<open>Listing\<close>

lemma map_sort_key: "map k (sort_key k xs) = sort (map k xs)"
  by (rule sym, rule properties_for_sort) simp_all

lemma map_get_map: "map_get (map (\<lambda>(fp, v). (fp, f v)) m) k = (if k \<in> fst ` set m then f (map_get m k) else [])"
  by (induction m) (auto simp: map_get_def)

lemma listed_values: "map_get (group_rows (sort_key snd ps)) fp = values_of fp ps"
  by (simp add: map_get_group_rows values_of_def filter_sort [symmetric] flip: map_sort_key)

lemma listed_sorted_values:
  "map_get (map (\<lambda>(fp, v). (fp, sort v)) (group_rows (sort_key snd ps))) fp = values_of fp ps"
proof (cases "fp \<in> fst ` set (group_rows (sort_key snd ps))")
  case True
  then show ?thesis by (simp add: map_get_map listed_values) (simp add: values_of_def sort_key_id_if_sorted)
next
  case False
  then have "map_get (group_rows (sort_key snd ps)) fp = []"
    by (simp add: map_get_def map_of_eq_None_iff [THEN iffD2])
  then show ?thesis using False listed_values [of ps fp] by (simp add: map_get_map)
qed

lemma sort_key_partition:
  "filter (\<lambda>s. s_fp s = fp) (sort_key (\<lambda>s. (s_fp s, recent_first s)) ss) =
     sort_key recent_first (filter (\<lambda>s. s_fp s = fp) ss)"
proof (rule sym, rule properties_for_sort_key)
  let ?k = "\<lambda>s. (s_fp s, recent_first s)"
  show "mset (filter (\<lambda>s. s_fp s = fp) (sort_key ?k ss)) = mset (filter (\<lambda>s. s_fp s = fp) ss)" by simp
  have eq: "filter (\<lambda>x. recent_first y = recent_first x) (filter (\<lambda>s. s_fp s = fp) zs) = filter (\<lambda>x. ?k x = (fp, recent_first y)) zs" for y zs
    by (auto intro!: filter_cong)
  show "filter (\<lambda>x. recent_first y = recent_first x) (filter (\<lambda>s. s_fp s = fp) (sort_key ?k ss)) =
      filter (\<lambda>x. recent_first y = recent_first x) (filter (\<lambda>s. s_fp s = fp) ss)" for y
    unfolding eq by (rule sort_key_stable)
  have "sorted (map ?k (filter (\<lambda>s. s_fp s = fp) (sort_key ?k ss)))"
    by (simp add: filter_sort)
  then show "sorted (map recent_first (filter (\<lambda>s. s_fp s = fp) (sort_key ?k ss)))"
    by (auto simp: sorted_map elim: sorted_wrt_mono_rel [rotated])
qed

lemma listed_sightings:
  "map_get (group_rows (map (\<lambda>s. (s_fp s, sighting_of s)) (sort_key (\<lambda>s. (s_fp s, recent_first s)) (fingerprint_sightings t)))) fp =
     map sighting_of (sightings_of fp t)"
proof -
  have "map snd (filter (\<lambda>(f, v). f = fp) (map (\<lambda>s. (s_fp s, g s)) ss)) = map g (filter (\<lambda>s. s_fp s = fp) ss)" for g :: "sighting_row \<Rightarrow> sighting" and ss
    by (induction ss) auto
  then show ?thesis by (simp add: map_get_group_rows sort_key_partition sightings_of_def)
qed

lemma map_of_put_entries:
  "distinct (map eFingerprint es) \<Longrightarrow> map_ok (put_entries es) \<and> map_of (put_entries es) fp = find (\<lambda>e. eFingerprint e = fp) es"
proof (induction es rule: rev_induct)
  case (snoc e es)
  then show ?case
    by (auto simp: put_entries_def map_ok_map_put find_append find_None_iff split: option.splits)
      (auto simp: find_Some_iff, metis image_eqI nth_mem)
qed (simp add: put_entries_def map_ok_def)

lemma find_map_row: "(\<And>r. r \<in> set rows \<Longrightarrow> eFingerprint (h r) = r_fp r) \<Longrightarrow>
    find (\<lambda>e. eFingerprint e = fp) (map h rows) = map_option h (find (\<lambda>r. r_fp r = fp) rows)"
  by (induction rows) auto

lemma map_of_map_entry: "map_of (map (\<lambda>(k, v). (k, f k v)) m) k = map_option (f k) (map_of m k)"
  by (induction m) auto

lemma yields_List:
  assumes "db_ok t"
  shows "\<exists>m. yields (List no_faults) t m \<and> (\<forall>fp. map_of m fp = map_option (entry_of t) (find_fp fp t))"
proof -
  let ?es = "map (\<lambda>r. projr (scanEntry r)) (fingerprints t)"
  let ?ips = "group_rows (sort_key snd (fingerprint_ips t))"
  let ?ports = "map (\<lambda>(fp, v). (fp, sort v)) (group_rows (sort_key snd (fingerprint_ports t)))"
  let ?rows = "sort_key (\<lambda>s. (s_fp s, recent_first s)) (fingerprint_sightings t)"
  let ?sightings = "group_rows (map (\<lambda>s. (s_fp s, sighting_of s)) ?rows)"
  let ?out = "map (\<lambda>(fp, e). (fp, e\<lparr>eIPs := map_get ?ips fp, ePorts := map_get ?ports fp,
      eSightings := map_get ?sightings fp\<rparr>)) (put_entries ?es)"
  have key: "eFingerprint (projr (scanEntry r)) = r_fp r" if "r \<in> set (fingerprints t)" for r
    using that assms row_ok_scan scanEntry_fields(1) by (fastforce simp: db_ok_iff)
  have sights: "zip (map s_fp ?rows) (map sighting_of ?rows) = map (\<lambda>s. (s_fp s, sighting_of s)) ?rows"
    by (simp add: zip_map_map zip_same_conv_map)
  have "yields (List no_faults) t ?out"
    unfolding List_def allStrings_def allInts_def allSightings_def
  proof (intro yields_queryRowsD yields_bindD [OF yields_liftD [OF scan_rows_map [OF assms order_refl]]]
      yields_bindD [OF yields_queryRowsD [OF yields_retD]] yields_bindD [OF yields_queryRowsD])
    have ss: "scan_all scan_sighting ?rows = Inr (map sighting_of ?rows)"
      using scan_sightings_map [OF assms, of ?rows] by simp
    show "yields (case scan_all scan_sighting ?rows of Inl e \<Rightarrow> raiseD e
        | Inr ss \<Rightarrow> retD (group_rows (zip (map s_fp ?rows) ss))) t ?sightings"
      unfolding ss sum.case sights by (rule yields_retD)
  qed (rule yields_retD)
  moreover have "map_of ?out fp = map_option (entry_of t) (find_fp fp t)" for fp
  proof -
    have names: "map eFingerprint ?es = map r_fp (fingerprints t)" using key by simp
    have dist: "distinct (map eFingerprint ?es)" unfolding names by (rule keys_okD(1) [OF db_ok_keys [OF assms]])
    have found: "map_of (put_entries ?es) fp = map_option (\<lambda>r. projr (scanEntry r)) (find_fp fp t)"
      using map_of_put_entries [OF dist, of fp] find_map_row [of "fingerprints t" "\<lambda>r. projr (scanEntry r)" fp] key
      by (simp add: find_fp_def)
    then show ?thesis
      using find_fp_SomeD [of fp t]
      by (auto simp: map_of_map_entry option.map_comp listed_values listed_sorted_values listed_sightings
          entry_of_def ips_of_values ports_of_values intro!: map_option_cong)
  qed
  ultimately show ?thesis by blast
qed

text \<open>C23: the bulk listing agrees with single reads: on a well-formed database \<open>List\<close> succeeds with a map
  that holds, for every fingerprint, exactly the entry \<open>Get\<close> returns, and nothing else, although it
  gathers the histories in three sweeps.\<close>

theorem List_agrees_with_Get:
  assumes "db_ok (tabs c)"
  shows "\<exists>m c'. List no_faults c = (Inr m, c') \<and> tabs c' = tabs c \<and>
    (\<forall>fp. case map_of m fp of
       None \<Rightarrow> fst (Get no_faults fp c) = Inl ErrNoRows
     | Some e \<Rightarrow> fst (Get no_faults fp c) = Inr e)"
proof -
  obtain m where m: "yields (List no_faults) (tabs c) m" "\<forall>fp. map_of m fp = map_option (entry_of (tabs c)) (find_fp fp (tabs c))"
    using yields_List [OF assms] by blast
  obtain c' where c': "List no_faults c = (Inr m, c')" "tabs c' = tabs c" using yields_run [OF m(1)] by blast
  have "case map_of m fp of None \<Rightarrow> fst (Get no_faults fp c) = Inl ErrNoRows | Some e \<Rightarrow> fst (Get no_faults fp c) = Inr e" for fp
    using m(2) Get_absent [of fp c] yields_fst [OF yields_Get [OF assms, of fp]]
    by (cases "find_fp fp (tabs c)") auto
  then show ?thesis using c' by blast
qed

theorem List_agrees_with_Get_witness:
  "\<exists>m c'. List no_faults sample_store = (Inr m, c') \<and> tabs c' = tabs sample_store \<and>
    (\<forall>fp. case map_of m fp of
       None \<Rightarrow> fst (Get no_faults fp sample_store) = Inl ErrNoRows
     | Some e \<Rightarrow> fst (Get no_faults fp sample_store) = Inr e)"
  by (rule List_agrees_with_Get [OF sample_store_ok])

section \<open>Pages\<close>

lemma yields_attach_all:
  "db_ok t \<Longrightarrow> yields (attach_all no_faults es) t
     (map (\<lambda>e. e\<lparr>eIPs := ips_of (eFingerprint e) t, ePorts := ports_of (eFingerprint e) t,
        eSightings := map sighting_of (sightings_of (eFingerprint e) t)\<rparr>) es)"
proof (induction es)
  case (Cons e es)
  show ?case
    unfolding attach_all.simps list.map
    by (rule yields_bindD [OF yields_attach_history [OF Cons.prems]], rule yields_bindD [OF Cons.IH [OF Cons.prems]])
      (rule yields_retD)
qed (simp add: yields_retD)

lemma yields_ListPage:
  assumes "db_ok t" "1 \<le> limit" "limit \<le> 128"
  shows "yields (ListPage no_faults after through limit) t (map (entry_of t) (page_rows after through (nat limit) t))"
proof -
  let ?rows = "page_rows after through (nat limit) t"
  have sub: "set ?rows \<subseteq> set (fingerprints t)"
    using set_take_subset by (fastforce simp: page_rows_def)
  have key: "eFingerprint (projr (scanEntry r)) = r_fp r" if "r \<in> set ?rows" for r
    using that sub assms(1) row_ok_scan scanEntry_fields(1) by (fastforce simp: db_ok_iff)
  have "yields (queryRowsD no_faults ''close fingerprint rows'' (page_rows after through (nat limit)) (\<lambda>rows.
      bindD (liftD (scan_all scanEntry rows)) (\<lambda>es. bindD (queryD no_faults (\<lambda>_. ())) (\<lambda>_. attach_all no_faults es))))
      t (map (entry_of t) ?rows)"
  proof (rule yields_queryRowsD, rule yields_bindD [OF yields_liftD [OF scan_rows_map [OF assms(1) sub]]],
      rule yields_bindD [OF yields_queryD])
    have eq: "map (entry_of t) ?rows = map (\<lambda>e. e\<lparr>eIPs := ips_of (eFingerprint e) t, ePorts := ports_of (eFingerprint e) t,
        eSightings := map sighting_of (sightings_of (eFingerprint e) t)\<rparr>) (map (\<lambda>r. projr (scanEntry r)) ?rows)"
      using key by (simp add: entry_of_def)
    show "yields (attach_all no_faults (map (\<lambda>r. projr (scanEntry r)) ?rows)) t (map (entry_of t) ?rows)"
      unfolding eq by (rule yields_attach_all [OF assms(1)])
  qed
  then show ?thesis using assms(2,3) by (simp add: ListPage_def)
qed

section \<open>Pages under faults\<close>

text \<open>A page that is read successfully holds the entries of its rows, whatever may have failed before.\<close>

definition with_history :: "tables \<Rightarrow> entry \<Rightarrow> entry" where
  "with_history t e = e\<lparr>eIPs := ips_of (eFingerprint e) t, ePorts := ports_of (eFingerprint e) t,
     eSightings := map sighting_of (sightings_of (eFingerprint e) t)\<rparr>"

lemma attach_all_Inr:
  "attach_all flt es c = (Inr es', c') \<Longrightarrow> map eFingerprint es' = map eFingerprint es \<and> tabs c' = tabs c
     \<and> (db_ok (tabs c) \<longrightarrow> es' = map (with_history (tabs c)) es)"
proof (induction es arbitrary: c es')
  case (Cons e es)
  obtain e1 es1 c1 where e1: "attach_history flt (eFingerprint e) e c = (Inr e1, c1)"
    and es1: "attach_all flt es c1 = (Inr es1, c')" and es': "es' = e1 # es1"
    using Cons.prems by (auto simp: bindD_Inr retD_Inr)
  obtain ss where ss: "scan_all scan_sighting (sightings_of (eFingerprint e) (tabs c)) = Inr ss"
    and eq: "e1 = e\<lparr>eIPs := ips_of (eFingerprint e) (tabs c), ePorts := ports_of (eFingerprint e) (tabs c), eSightings := ss\<rparr>"
    and t: "tabs c1 = tabs c" using attach_history_Inr [OF e1] by auto
  have "ss = map sighting_of (sightings_of (eFingerprint e) (tabs c))" if "db_ok (tabs c)"
    using scan_sightings_map [OF that, of "sightings_of (eFingerprint e) (tabs c)"] ss by (auto simp: sightings_of_def)
  then show ?case using Cons.IH [OF es1] es' eq t by (auto simp: with_history_def)
qed (simp add: retD_Inr)

lemma ListPage_Inr:
  assumes "ListPage flt after through limit c = (Inr es, c')"
  shows "map eFingerprint es = map r_fp (page_rows after through (nat limit) (tabs c)) \<and> tabs c' = tabs c
    \<and> (db_ok (tabs c) \<longrightarrow> es = map (entry_of (tabs c)) (page_rows after through (nat limit) (tabs c)))"
proof -
  let ?rows = "page_rows after through (nat limit) (tabs c)"
  obtain es0 c2 where es0: "scan_all scanEntry ?rows = Inr es0" and c2: "c' = c2\<lparr>calls := Suc (calls c2)\<rparr>"
    and es: "attach_all flt es0 (c\<lparr>calls := Suc (Suc (Suc (calls c)))\<rparr>) = (Inr es, c2)"
    using assms unfolding ListPage_def queryRowsD_def dbop_Inr if_split [of "\<lambda>m. m c = (Inr es, c')"] by auto
  have key: "list_all2 (\<lambda>r e. scanEntry r = Inr e) ?rows es0" using es0 scan_all_Inr by blast
  then have fps: "map eFingerprint es0 = map r_fp ?rows"
    by (induction rule: list_all2_induct) (auto dest: scanEntry_fields(1))
  have "map (with_history (tabs c)) es0 = map (entry_of (tabs c)) ?rows"
    using key by (induction rule: list_all2_induct) (auto simp: with_history_def entry_of_def dest: scanEntry_fields(1))
  then show ?thesis using attach_all_Inr [OF es] c2 fps by simp
qed

lemma page_rows_bounds: "r \<in> set (page_rows after through n t) \<Longrightarrow> r \<in> set (fingerprints t) \<and> after < r_fp r \<and> r_fp r \<le> through"
  using set_take_subset by (fastforce simp: page_rows_def)

end
