(* ===== verification/Maintenance.thy ===== *)
theory Maintenance
  imports Reading
begin

text \<open>
  The remaining operations of an open store: resolving a fingerprint prefix, blocked-range alerts,
  the fingerprint method (\<open>src/store/store.go\<close>), and bounding a database of an older release
  (\<open>src/store/limits.go\<close>).
\<close>

section \<open>Resolving a prefix\<close>

definition prefix_ci :: "string \<Rightarrow> string \<Rightarrow> bool" where
  "prefix_ci q s \<longleftrightarrow> has_prefix (map fold_case s) (map fold_case q)"

lemma prefix_ci_Nil [simp]: "prefix_ci [] s"
  by (simp add: prefix_ci_def has_prefix_def)

lemma prefix_ci_Cons: "prefix_ci (c # q) s \<longleftrightarrow> s \<noteq> [] \<and> fold_case (hd s) = fold_case c \<and> prefix_ci q (tl s)"
  by (cases s) (auto simp: prefix_ci_def has_prefix_def)

lemma like_percent: "like ''%'' s"
proof (induction s)
  case (Cons c s)
  then show ?case by (subst like.simps) simp
qed (subst like.simps, simp)

text \<open>The escaped prefix followed by \<open>%\<close> matches exactly the texts that start with the prefix, up to the
  case of ASCII letters; no character of the query acts as a wildcard.\<close>

lemma like_escape: "like (escape_like q @ ''%'') s \<longleftrightarrow> prefix_ci q s"
proof (induction q arbitrary: s)
  case Nil
  then show ?case by (simp add: escape_like_def like_percent)
next
  case (Cons c q)
  have rest: "like (concat (map (\<lambda>c. if c = CHR 0x5C \<or> c = CHR ''%'' \<or> c = CHR ''_'' then [CHR 0x5C, c] else [c]) q) @ ''%'') z = prefix_ci q z" for z
    using Cons.IH [of z] by (simp add: escape_like_def)
  show ?case
  proof (cases "c = CHR 0x5C \<or> c = CHR ''%'' \<or> c = CHR ''_''")
    case True
    then have e: "escape_like (c # q) @ ''%'' = CHR 0x5C # c # escape_like q @ ''%''"
      by (simp add: escape_like_def)
    show ?thesis
      unfolding e by (subst like.simps(2)) (simp add: prefix_ci_Cons Cons.IH)
  next
    case False
    then have e: "escape_like (c # q) @ ''%'' = c # escape_like q @ ''%''" by (simp add: escape_like_def)
    show ?thesis
      unfolding e using False by (subst like.simps(2)) (simp add: prefix_ci_Cons Cons.IH)
  qed
qed

lemma take2_singleton: "distinct xs \<Longrightarrow> take 2 xs = [m] \<longleftrightarrow> set xs = {m}"
proof (cases xs rule: remdups_adj.cases)
  case (2 x)
  then show ?thesis by auto
qed (auto simp: numeral_2_eq_2)



text \<open>The prefix match ignores the case of ASCII letters, so a query that is a prefix of no stored
  fingerprint can still resolve to one.\<close>

theorem ResolveFingerprint_ignores_case:
  "fst (ResolveFingerprint no_faults ''AC'' sample_store) = Inr ''ac'' \<and>
   \<not> (\<exists>fp\<in>fps (tabs sample_store). has_prefix fp ''AC'')"
  by code_simp

section \<open>Alerts\<close>

text \<open>An alert is raised once per range and address: recording reports a first sighting exactly when
  none is recorded, \<open>HasBlockedRangeAlert\<close> answers that question, and forgetting the record makes
  the next sighting alert again.\<close>

theorem alerts_deduplicate:
  "\<exists>c1 c2 c3. RecordBlockedRangeAlert no_faults now rng ip fp c = (Inr (\<not> alert_recorded rng ip (tabs c)), c1)
     \<and> fst (HasBlockedRangeAlert no_faults rng ip c1) = Inr True
     \<and> RecordBlockedRangeAlert no_faults now' rng ip fp' c1 = (Inr False, c2) \<and> tabs c2 = tabs c1
     \<and> ForgetBlockedRangeAlert no_faults rng ip c2 = (Inr (), c3)
     \<and> fst (HasBlockedRangeAlert no_faults rng ip c3) = Inr False
     \<and> fst (RecordBlockedRangeAlert no_faults now' rng ip fp' c3) = Inr True
     \<and> (\<forall>r i. alert_recorded r i (tabs c3) = (alert_recorded r i (tabs c) \<and> (r, i) \<noteq> (rng, ip)))"
proof -
  have rec: "RecordBlockedRangeAlert no_faults n r i f d =
      (Inr (\<not> alert_recorded r i (tabs d)), \<lparr>tabs = snd (insert_alert r i f (encodeTime n) (tabs d)), calls = Suc (Suc (calls d))\<rparr>)" for n r i f d
    by (simp add: RecordBlockedRangeAlert_def bindD_def rowsAffected_def retD_def insert_alert_def)
  have has: "fst (HasBlockedRangeAlert no_faults r i d) = Inr (alert_recorded r i (tabs d))" for r i d
    by (simp add: HasBlockedRangeAlert_def catchD_def retD_def)
  have ins: "alert_recorded r i (snd (insert_alert rng ip f n t)) \<longleftrightarrow> alert_recorded r i t \<or> (r, i) = (rng, ip)" for r i f n t
    by (auto simp: insert_alert_def alert_recorded_def list_ex_iff)
  have del: "alert_recorded r i (delete_alert rng ip t) \<longleftrightarrow> alert_recorded r i t \<and> (r, i) \<noteq> (rng, ip)" for r i t
    by (auto simp: delete_alert_def alert_recorded_def list_ex_iff)
  have same: "alert_recorded rng ip t \<Longrightarrow> snd (insert_alert rng ip f n t) = t" for f n t
    by (simp add: insert_alert_def)
  show ?thesis
    by (simp add: rec has ins del same ForgetBlockedRangeAlert_def) blast
qed

section \<open>Changing the fingerprint method\<close>

definition meta_value :: "string \<Rightarrow> tables \<Rightarrow> string" where
  "meta_value key t = (case lookup_meta key t of None \<Rightarrow> [] | Some v \<Rightarrow> v)"

lemma GetMeta_Inr:
  "GetMeta flt key c = (Inr v, c') \<Longrightarrow> v = meta_value key (tabs c) \<and> tabs c' = tabs c"
  by (auto simp: GetMeta_def catchD_def queryRowD_def bindD_def queryD_def execD_def raiseD_def retD_def meta_value_def
      split: option.splits if_splits)

lemma ResetFingerprints_Inr:
  assumes "ResetFingerprints flt c = (Inr k, c')"
  shows "k = int (length (fingerprints (tabs c)))" "tabs c' = delete_cursors (snd (delete_fps (\<lambda>_. True) (tabs c)))"
  using assms by (auto simp: ResetFingerprints_def dbop_Inr delete_fps_def Let_def)

lemma read_only_GetMeta: "read_only (GetMeta flt key)"
  by (simp add: read_only_def GetMeta_def catchD_def queryRowD_def bindD_def queryD_def execD_def raiseD_def retD_def
      split: option.splits)

lemma lookup_delete_cursors: "has_prefix key ''gatehub_cursor:'' \<Longrightarrow> lookup_meta key (delete_cursors t) = None"
  by (auto simp: lookup_meta_def delete_cursors_def map_of_eq_None_iff)

lemma frame_upsert_meta:
  "fingerprint_sightings (upsert_meta k v t) = fingerprint_sightings t"
  "fingerprint_ips (upsert_meta k v t) = fingerprint_ips t"
  "fingerprint_ports (upsert_meta k v t) = fingerprint_ports t"
  by (simp_all add: upsert_meta_def split: option.splits)

lemma method_not_cursor: "\<not> has_prefix MetaFingerprintMethod ''gatehub_cursor:''"
  by code_simp

lemma reconcile_reset:
  assumes "bindD (ResetFingerprints flt) (\<lambda>deleted. bindD (SetMeta flt MetaFingerprintMethod method) (\<lambda>_. retD deleted)) c = (Inr k, c')"
  shows "meta_value MetaFingerprintMethod (tabs c') = method" "k = int (length (fingerprints (tabs c)))" "fingerprints (tabs c') = []"
    "has_prefix key ''gatehub_cursor:'' \<Longrightarrow> lookup_meta key (tabs c') = None"
proof -
  obtain c2 where c2: "ResetFingerprints flt c = (Inr k, c2)" "tabs c' = upsert_meta MetaFingerprintMethod method (tabs c2)"
    using assms by (auto simp: bindD_Inr SetMeta_def execD_Inr retD_Inr)
  note rs = ResetFingerprints_Inr [OF c2(1)]
  show "k = int (length (fingerprints (tabs c)))" by (rule rs(1))
  show "lookup_meta key (tabs c') = None" if "has_prefix key ''gatehub_cursor:''"
    using that method_not_cursor c2(2) rs(2) lookup_delete_cursors by (auto simp: meta_kv.get_put)
  show "meta_value MetaFingerprintMethod (tabs c') = method" by (simp add: meta_value_def c2(2) meta_kv.get_put_same)
  show "fingerprints (tabs c') = []" by (simp add: c2(2) rs(2) frame_history) (simp add: delete_fps_def Let_def)
qed

text \<open>Reconciling the fingerprint method: when it succeeds, the stored method is the configured one,
  and either every row is untouched and none reported deleted, which happens only if no other
  method was recorded, or a reset was asked for, all rows and their history are gone, their number
  is returned, and no policy cursor is left.  A mismatch without reset is an error that changes
  nothing.\<close>

theorem ReconcileFingerprintMethod_spec:
  assumes "ReconcileFingerprintMethod flt method reset c = (r, c')"
  shows "case r of
      Inl _ \<Rightarrow> \<not> reset \<longrightarrow> tabs c' = tabs c
    | Inr k \<Rightarrow> meta_value MetaFingerprintMethod (tabs c') = method \<and>
        (if meta_value MetaFingerprintMethod (tabs c) \<in> {method, []}
         then k = 0 \<and> fingerprints (tabs c') = fingerprints (tabs c) \<and>
              fingerprint_sightings (tabs c') = fingerprint_sightings (tabs c)
         else reset \<and> k = int (length (fingerprints (tabs c))) \<and> fingerprints (tabs c') = [] \<and>
              (\<forall>key. has_prefix key ''gatehub_cursor:'' \<longrightarrow> lookup_meta key (tabs c') = None))"
proof -
  let ?m = "meta_value MetaFingerprintMethod (tabs c)"
  obtain rg c1 where g: "GetMeta flt MetaFingerprintMethod c = (rg, c1)" by fastforce
  have c1: "tabs c1 = tabs c" using read_only_GetMeta g unfolding read_only_def by (metis snd_conv)
  show ?thesis
  proof (cases rg)
    case (Inl e)
    then show ?thesis using assms g c1 by (auto simp: ReconcileFingerprintMethod_def bindD_def)
  next
    case (Inr stored)
    then have st: "stored = ?m" using GetMeta_Inr g by blast
    consider (same) "?m = method" | (fresh) "?m \<noteq> method" "?m = []" | (refuse) "?m \<noteq> method" "?m \<noteq> []" "\<not> reset"
      | (reset) "?m \<noteq> method" "?m \<noteq> []" "reset" by blast
    then show ?thesis
    proof cases
      case same
      then show ?thesis using assms g Inr st c1
        by (auto simp: ReconcileFingerprintMethod_def bindD_def retD_def)
    next
      case fresh
      then have "bindD (SetMeta flt MetaFingerprintMethod method) (\<lambda>_. retD 0) c1 = (r, c')"
        using assms g Inr st by (simp add: ReconcileFingerprintMethod_def bindD_def)
      then show ?thesis using fresh c1
        by (auto simp: SetMeta_def bindD_def execD_def retD_def meta_value_def [of _ "upsert_meta _ _ _"]
            meta_kv.get_put_same frame_history frame_upsert_meta split: option.splits)
    next
      case refuse
      then show ?thesis using assms g Inr st c1
        by (auto simp: ReconcileFingerprintMethod_def bindD_def queryD_def execD_def raiseD_def split: option.splits)
    next
      case reset
      then have run: "bindD (ResetFingerprints flt) (\<lambda>deleted.
            bindD (SetMeta flt MetaFingerprintMethod method) (\<lambda>_. retD deleted)) c1 = (r, c')"
        using assms g Inr st by (simp add: ReconcileFingerprintMethod_def bindD_def)
      show ?thesis
      proof (cases r)
        case (Inr k)
        show ?thesis using reconcile_reset [OF run [unfolded Inr]] reset Inr c1 by simp
      qed (use reset in simp)
    qed
  qed
qed

theorem ReconcileFingerprintMethod_spec_witness:
  "meta_value MetaFingerprintMethod (tabs (snd (ReconcileFingerprintMethod no_faults ''ja4'' False sample_store))) = ''ja4''"
proof -
  have run: "ReconcileFingerprintMethod no_faults ''ja4'' False sample_store =
      (Inr 0, snd (ReconcileFingerprintMethod no_faults ''ja4'' False sample_store))" by code_simp
  show ?thesis using ReconcileFingerprintMethod_spec [OF run] by simp
qed

section \<open>Bounding old databases\<close>

lemma boundExistingHistory_Inr:
  "boundExistingHistory flt c = (Inr u, c') \<Longrightarrow>
     tabs c' = bound_ports (bound_ips (bound_sightings (clear_oversized_meta (tabs c))))"
  by (auto simp: boundExistingHistory_def with_tx_Inr bindD_Inr execD_Inr)

lemma history_frame:
  "ips_of fp (clear_oversized_meta t) = ips_of fp t" "ports_of fp (clear_oversized_meta t) = ports_of fp t"
  "sightings_of fp (clear_oversized_meta t) = sightings_of fp t"
  "ips_of fp (bound_sightings t) = ips_of fp t" "ports_of fp (bound_sightings t) = ports_of fp t"
  "sightings_of fp (bound_ips t) = sightings_of fp t" "ports_of fp (bound_ips t) = ports_of fp t"
  "sightings_of fp (bound_ports t) = sightings_of fp t" "ips_of fp (bound_ports t) = ips_of fp t"
  by (simp_all add: ips_of_def ports_of_def sightings_of_def clear_oversized_meta_def bound_sightings_def
      bound_ips_def bound_ports_def)

lemma bounded_histories:
  assumes "keys_ok t"
  shows "ips_of fp (bound_ports (bound_ips (bound_sightings (clear_oversized_meta t)))) = take 128 (ips_of fp t)"
    "ports_of fp (bound_ports (bound_ips (bound_sightings (clear_oversized_meta t)))) = take 128 (ports_of fp t)"
    "sightings_of fp (bound_ports (bound_ips (bound_sightings (clear_oversized_meta t)))) = take 128 (sightings_of fp t)"
proof -
  let ?a = "clear_oversized_meta t"
  have k: "keys_ok ?a" "keys_ok (bound_sightings ?a)" "keys_ok (bound_ips (bound_sightings ?a))"
    using assms by (simp_all add: keys_ok_clear_oversized_meta keys_ok_trim)
  show "ips_of fp (bound_ports (bound_ips (bound_sightings ?a))) = take 128 (ips_of fp t)"
    "ports_of fp (bound_ports (bound_ips (bound_sightings ?a))) = take 128 (ports_of fp t)"
    "sightings_of fp (bound_ports (bound_ips (bound_sightings ?a))) = take 128 (sightings_of fp t)"
    by (simp_all add: history_frame ip_history.sel_bound [OF k(2)] port_history.sel_bound [OF k(3)]
        sighting_history.sel_bound [OF k(1)])
qed

lemma bounded_history_ok: "keys_ok t \<Longrightarrow> history_ok (bound_ports (bound_ips (bound_sightings (clear_oversized_meta t))))"
  by (simp add: history_ok_def bounded_histories)

text \<open>Opening a database of an older release bounds it without touching a verdict: every fingerprint
  keeps its first 128 addresses and ports and its 128 latest sightings; each row keeps all its columns,
  except that metadata over 64 KiB is replaced by an empty bag; afterwards no metadata exceeds the
  limit.\<close>

theorem boundExistingHistory_spec:
  assumes "keys_ok (tabs c)" "boundExistingHistory flt c = (Inr u, c')"
  shows "history_ok (tabs c') \<and>
    (\<forall>fp. ips_of fp (tabs c') = take 128 (ips_of fp (tabs c)) \<and> ports_of fp (tabs c') = take 128 (ports_of fp (tabs c))
       \<and> sightings_of fp (tabs c') = take 128 (sightings_of fp (tabs c)))
    \<and> fingerprints (tabs c') = map (\<lambda>r. if 65536 < length (r_meta r) then r\<lparr>r_meta := ''{}''\<rparr> else r) (fingerprints (tabs c))
    \<and> (\<forall>r\<in>set (fingerprints (tabs c')). length (r_meta r) \<le> 65536)"
proof -
  note t' = boundExistingHistory_Inr [OF assms(2)]
  have rows: "fingerprints (tabs c') = map (\<lambda>r. if 65536 < length (r_meta r) then r\<lparr>r_meta := ''{}''\<rparr> else r) (fingerprints (tabs c))"
    by (simp add: t' frame_history clear_oversized_meta_def)
  show ?thesis
    using bounded_histories [OF assms(1)] bounded_history_ok [OF assms(1)] by (simp add: rows) (auto simp: t')
qed

theorem boundExistingHistory_spec_witness:
  "history_ok (tabs (snd (boundExistingHistory no_faults sample_store)))"
proof -
  have "succeeds (boundExistingHistory no_faults) sample_store"
    by (simp add: boundExistingHistory_def succeeds_bindD)
  then obtain u c' where run: "boundExistingHistory no_faults sample_store = (Inr u, c')" by (auto simp: succeeds_def)
  show ?thesis using boundExistingHistory_spec [OF db_ok_keys [OF sample_store_ok] run] run by simp
qed

end
