(* ===== verification/Opening.thy ===== *)
theory Opening
  imports Maintenance
begin

text \<open>
  Opening a database: \<open>Open\<close>, \<open>init\<close> and \<open>Close\<close> of \<open>src/store/store.go\<close>, and the one-time fold of
  pre-gatekit columns into the metadata bag (\<open>src/store/legacy.go\<close>).  A database on disk may lack
  columns of the current schema: \<open>fp_columns\<close> lists the standard columns that \<open>fingerprints\<close> has, and
  is empty when the table does not exist.  A value of a missing column is meaningless until the
  column is added.  Directory creation is outside the database; its outcome is an argument.
\<close>

section \<open>Databases on disk\<close>

record database =
  fp_columns :: "string list"
  db_tabs :: tables

definition standard_columns :: "string list" where
  "standard_columns = [''fp'', ''status'', ''label'', ''first_seen'', ''last_seen'', ''count'', ''meta'']"

definition new_database :: database where
  "new_database = \<lparr>fp_columns = [], db_tabs = empty_tables\<rparr>"

text \<open>A call on the current schema, run on the database.\<close>

definition onTabs :: "(tables, 'a) dbop \<Rightarrow> (database, 'a) dbop" where
  "onTabs m c =
     (case m \<lparr>tabs = db_tabs (tabs c), calls = calls c\<rparr> of
        (r, c') \<Rightarrow> (r, \<lparr>tabs = (tabs c)\<lparr>db_tabs := tabs c'\<rparr>, calls = calls c'\<rparr>))"

section \<open>Schema\<close>

definition create_fingerprints :: "database \<Rightarrow> database" where
  "create_fingerprints d = (if fp_columns d = [] then d\<lparr>fp_columns := standard_columns\<rparr> else d)"

text \<open>
  The nine statements of \<open>init\<close>.  Creating one of the other tables, or an index, makes an empty
  table or changes no row.
\<close>

definition schema_statements :: "(database \<Rightarrow> database) list" where
  "schema_statements = create_fingerprints # replicate 8 (\<lambda>d. d)"

fun exec_all :: "faults \<Rightarrow> ('t \<Rightarrow> 't) list \<Rightarrow> ('t, unit) dbop" where
  "exec_all flt [] = retD ()"
| "exec_all flt (f # fs) = bindD (execD flt (\<lambda>t. ((), f t))) (\<lambda>_. exec_all flt fs)"

definition table_info :: "database \<Rightarrow> string list" where
  "table_info d = fp_columns d @ map fst (legacy_columns (db_tabs d))"

definition hasColumn :: "faults \<Rightarrow> string \<Rightarrow> (database, bool) dbop" where
  "hasColumn flt column =
     queryRowsD flt ''close table info rows'' table_info (\<lambda>names. retD (column \<in> set names))"

text \<open>\<open>ALTER TABLE fingerprints ADD COLUMN\<close> gives every row the column's default.\<close>

definition default_column :: "string \<Rightarrow> fp_row \<Rightarrow> fp_row" where
  "default_column column r =
     (if column = ''count'' then r\<lparr>r_count := 0\<rparr>
      else if column = ''meta'' then r\<lparr>r_meta := ''{}''\<rparr>
      else if column = ''approval_ranges'' then r\<lparr>r_ranges := None\<rparr>
      else r)"

definition add_column :: "string \<Rightarrow> database \<Rightarrow> database" where
  "add_column column d = d\<lparr>fp_columns := fp_columns d @ [column],
     db_tabs := (db_tabs d)\<lparr>fingerprints := map (default_column column) (fingerprints (db_tabs d))\<rparr>\<rparr>"

definition addColumnIfMissing :: "faults \<Rightarrow> string \<Rightarrow> (database, unit) dbop" where
  "addColumnIfMissing flt column =
     bindD (hasColumn flt column) (\<lambda>has.
       if has then retD () else execD flt (\<lambda>d. ((), add_column column d)))"

definition init :: "faults \<Rightarrow> (database, unit) dbop" where
  "init flt =
     bindD (exec_all flt schema_statements) (\<lambda>_.
     bindD (addColumnIfMissing flt ''count'') (\<lambda>_.
     bindD (addColumnIfMissing flt ''meta'') (\<lambda>_.
     addColumnIfMissing flt ''approval_ranges'')))"

section \<open>Legacy columns\<close>

datatype kind = KindString | KindBool | KindJSON

record legacy_column =
  lColumn :: string
  lMetaKey :: string
  lKind :: kind

definition metaLegacyMigrated :: string where
  "metaLegacyMigrated = ''gatekit_legacy_migrated''"

text \<open>A nil value of type \<open>any\<close> is \<open>JNull\<close>.\<close>

definition decodeLegacy :: "string \<Rightarrow> kind \<Rightarrow> json result" where
  "decodeLegacy raw k =
     (case k of
        KindBool \<Rightarrow> Inr (JBool (raw \<noteq> [] \<and> raw \<noteq> ''0''))
      | KindJSON \<Rightarrow>
          if TrimSpace raw = [] then Inr JNull
          else wrap_err ''decode json'' (json_Unmarshal_any raw)
      | KindString \<Rightarrow> if raw = [] then Inr JNull else Inr (JStr raw))"

text \<open>The text a column of a row scans to as a \<open>sql.NullString\<close>.\<close>

definition column_text :: "fp_row \<Rightarrow> string \<Rightarrow> string option" where
  "column_text r column =
     (if column = ''fp'' then Some (r_fp r)
      else if column = ''status'' then Some (r_status r)
      else if column = ''label'' then Some (r_label r)
      else if column = ''first_seen'' then Some (r_first_seen r)
      else if column = ''last_seen'' then Some (r_last_seen r)
      else if column = ''count'' then Some (if r_count r < 0 then ''-'' @ dec (- r_count r) else dec (r_count r))
      else if column = ''meta'' then Some (r_meta r)
      else if column = ''approval_ranges'' then r_ranges r
      else case map_of (r_legacy r) column of None \<Rightarrow> None | Some v \<Rightarrow> v)"

text \<open>
  The bag a row starts from: an empty map, or what its \<open>meta\<close> text decodes to, which is the nil map
  (\<open>None\<close>) for the text \<open>null\<close>.
\<close>

definition existing_meta :: "fp_row \<Rightarrow> ((string \<times> json) list option) result" where
  "existing_meta r =
     (if TrimSpace (r_meta r) = [] then Inr (Some [])
      else case json_Unmarshal_map (r_meta r) of
             Inl e \<Rightarrow> Inl (Wrap (''fingerprint '' @ r_fp r @ '': decode existing meta'') e)
           | Inr m \<Rightarrow> Inr m)"

definition meta_get :: "(string \<times> json) list option \<Rightarrow> string \<Rightarrow> json option" where
  "meta_get m k = (case m of None \<Rightarrow> None | Some kvs \<Rightarrow> map_of kvs k)"

text \<open>The loop over the present columns; assigning into a nil map panics.\<close>

fun fold_columns ::
  "fp_row \<Rightarrow> legacy_column list \<Rightarrow> (string \<times> json) list option \<Rightarrow> ((string \<times> json) list option) result" where
  "fold_columns r [] meta = Inr meta"
| "fold_columns r (c # cs) meta =
     (case column_text r (lColumn c) of
        None \<Rightarrow> fold_columns r cs meta
      | Some raw \<Rightarrow>
          if meta_get meta (lMetaKey c) \<noteq> None then fold_columns r cs meta
          else (case decodeLegacy raw (lKind c) of
                  Inl e \<Rightarrow> Inl (Wrap (''fingerprint '' @ r_fp r @ '': column '' @ lColumn c) e)
                | Inr value \<Rightarrow>
                    if value = JNull then fold_columns r cs meta
                    else (case meta of
                            None \<Rightarrow> Inl (Panic ''assignment to entry in nil map'')
                          | Some kvs \<Rightarrow> fold_columns r cs (Some (map_put (lMetaKey c) value kvs)))))"

definition legacy_update :: "legacy_column list \<Rightarrow> fp_row \<Rightarrow> (string \<times> string) result" where
  "legacy_update present r =
     (case existing_meta r of
        Inl e \<Rightarrow> Inl e
      | Inr meta \<Rightarrow>
          (case fold_columns r present meta of
             Inl e \<Rightarrow> Inl e
           | Inr meta' \<Rightarrow>
               (case encodeMeta (case meta' of None \<Rightarrow> [] | Some kvs \<Rightarrow> kvs) of
                  Inl e \<Rightarrow> Inl e
                | Inr encoded \<Rightarrow> Inr (r_fp r, encoded))))"

fun present_columns :: "faults \<Rightarrow> legacy_column list \<Rightarrow> (database, legacy_column list) dbop" where
  "present_columns flt [] = retD []"
| "present_columns flt (c # cs) =
     bindD (hasColumn flt (lColumn c)) (\<lambda>has.
     bindD (present_columns flt cs) (\<lambda>rest. retD (if has then c # rest else rest)))"

text \<open>
  The reading half.  Every error return joins the error of closing the rows; a panic does not close
  them.
\<close>

definition legacy_updates :: "faults \<Rightarrow> legacy_column list \<Rightarrow> ((string \<times> string) list) storeop" where
  "legacy_updates flt present =
     bindD (queryD flt fingerprints) (\<lambda>rows c.
       case queryD flt (\<lambda>_. ()) c of
         (Inl e, c1) \<Rightarrow> closeWithError flt ''close legacy rows'' (raiseD e) c1
       | (Inr _, c1) \<Rightarrow>
           (case scan_all (legacy_update present) rows of
              Inl (Panic m) \<Rightarrow> (Inl (Panic m), c1)
            | scanned \<Rightarrow> closeWithError flt ''close legacy rows'' (liftD scanned) c1))"

definition update_meta :: "string \<times> string \<Rightarrow> tables \<Rightarrow> tables" where
  "update_meta u t = update_fp (fst u) (\<lambda>r. r\<lparr>r_meta := snd u\<rparr>) t"

definition commitD :: "faults \<Rightarrow> 't \<Rightarrow> ('t, unit) dbop" where
  "commitD flt old c =
     (case flt (calls c) of
        Some m \<Rightarrow> (Inl (External m), \<lparr>tabs = old, calls = Suc (calls c)\<rparr>)
      | None \<Rightarrow> (Inr (), c\<lparr>calls := Suc (calls c)\<rparr>))"

text \<open>
  A transaction with one prepared statement.  The deferred close of the statement runs before the
  deferred rollback, and after the commit when the body succeeds.
\<close>

definition with_stmt_tx :: "faults \<Rightarrow> string \<Rightarrow> ('t, unit) dbop \<Rightarrow> ('t, unit) dbop" where
  "with_stmt_tx flt context body c =
     (case flt (calls c) of
        Some m \<Rightarrow> (Inl (External m), c\<lparr>calls := Suc (calls c)\<rparr>)
      | None \<Rightarrow>
          (case queryD flt (\<lambda>_. ()) (c\<lparr>calls := Suc (calls c)\<rparr>) of
             (Inl e, c1) \<Rightarrow> rollbackTransaction flt (tabs c) e c1
           | (Inr _, c1) \<Rightarrow>
               (case body c1 of
                  (Inl e, c2) \<Rightarrow>
                    (case closeWithError flt context (raiseD e :: ('t, unit) dbop) c2 of
                       (Inl e', c3) \<Rightarrow> rollbackTransaction flt (tabs c) e' c3
                     | (Inr _, c3) \<Rightarrow> rollbackTransaction flt (tabs c) e c3)
                | (Inr _, c2) \<Rightarrow> closeWithError flt context (commitD flt (tabs c)) c2)))"

definition write_legacy :: "faults \<Rightarrow> (string \<times> string) list \<Rightarrow> unit storeop" where
  "write_legacy flt updates =
     with_stmt_tx flt ''close legacy update statement''
       (bindD (exec_all flt (map update_meta updates)) (\<lambda>_.
        execD flt (\<lambda>t. ((), upsert_meta metaLegacyMigrated ''1'' t))))"

definition migrateLegacy :: "faults \<Rightarrow> legacy_column list \<Rightarrow> (database, unit) dbop" where
  "migrateLegacy flt cols =
     (if cols = [] then retD ()
      else bindD (onTabs (GetMeta flt metaLegacyMigrated)) (\<lambda>done.
        if done = ''1'' then retD ()
        else bindD (present_columns flt cols) (\<lambda>present.
          if present = [] then onTabs (SetMeta flt metaLegacyMigrated ''1'')
          else bindD (onTabs (legacy_updates flt present)) (\<lambda>updates. onTabs (write_legacy flt updates)))))"

section \<open>Open and Close\<close>

definition Close :: "faults \<Rightarrow> ('t, unit) dbop" where
  "Close flt c =
     (let reader = map_option External (flt (calls c)); writer = map_option External (flt (Suc (calls c)))
      in (case (reader, writer) of
            (None, None) \<Rightarrow> Inr ()
          | (Some e, None) \<Rightarrow> Inl e
          | (None, Some e) \<Rightarrow> Inl e
          | (Some e, Some e') \<Rightarrow> Inl (Joined e e'),
          c\<lparr>calls := Suc (Suc (calls c))\<rparr>))"

text \<open>
  \<open>errors.Join(err, closeError(context, closeFn))\<close>, and \<open>fmt.Errorf\<close> with \<open>%w\<close>, on the error return of
  \<open>m\<close>; a panic runs neither.
\<close>

definition orClose :: "string \<Rightarrow> ('t, unit) dbop \<Rightarrow> ('t, 'a) dbop \<Rightarrow> ('t, 'a) dbop" where
  "orClose context closeFn m c =
     (case m c of
        (Inr x, c1) \<Rightarrow> (Inr x, c1)
      | (Inl (Panic p), c1) \<Rightarrow> (Inl (Panic p), c1)
      | (Inl e, c1) \<Rightarrow>
          (case closeFn c1 of
             (Inr _, c2) \<Rightarrow> (Inl e, c2)
           | (Inl ce, c2) \<Rightarrow> (Inl (Joined e (Wrap context ce)), c2)))"

definition wrapD :: "string \<Rightarrow> ('t, 'a) dbop \<Rightarrow> ('t, 'a) dbop" where
  "wrapD context m c =
     (case m c of
        (Inr x, c1) \<Rightarrow> (Inr x, c1)
      | (Inl (Panic p), c1) \<Rightarrow> (Inl (Panic p), c1)
      | (Inl e, c1) \<Rightarrow> (Inl (Wrap context e), c1))"

text \<open>\<open>url.Values\<close> with the one key \<open>_pragma\<close>, encoded.\<close>

definition query_escape :: "string \<Rightarrow> string" where
  "query_escape s =
     concat (map (\<lambda>c. let n = of_char c :: nat in
       if is_digit c \<or> 65 \<le> n \<and> n \<le> 90 \<or> 97 \<le> n \<and> n \<le> 122 \<or> c \<in> set ''-_.~'' then [c]
       else if c = CHR '' '' then ''+''
       else [CHR ''%'', (''0123456789ABCDEF'' ! (n div 16)), (''0123456789ABCDEF'' ! (n mod 16))]) s)"

definition dsn :: "string \<Rightarrow> string list \<Rightarrow> string" where
  "dsn path pragmas = path @ ''?'' @ join ''&'' (map (\<lambda>p. ''_pragma='' @ query_escape p) pragmas)"

text \<open>
  \<open>sqlOpen\<close> is the driver's answer to a data source name; \<open>dir_err\<close> is the failure of creating the
  parent directory, if it had to be created.
\<close>

definition Open ::
  "faults \<Rightarrow> (string \<Rightarrow> error option) \<Rightarrow> error option \<Rightarrow> string \<Rightarrow> legacy_column list \<Rightarrow> (database, unit) dbop" where
  "Open flt sqlOpen dir_err path legacy =
     (if path = [] then raiseD (Errorf ''empty database path'' [])
      else case dir_err of
        Some e \<Rightarrow> raiseD (Wrap ''create database directory'' e)
      | None \<Rightarrow>
          (case sqlOpen (dsn path [''busy_timeout=5000'', ''foreign_keys=ON'', ''journal_mode=WAL'', ''synchronous=NORMAL'']) of
             Some e \<Rightarrow> raiseD e
           | None \<Rightarrow>
               (case sqlOpen (dsn path [''busy_timeout=5000'', ''foreign_keys=ON'', ''journal_mode=WAL'']) of
                  Some e \<Rightarrow> orClose ''close writer'' (queryD flt (\<lambda>_. ())) (raiseD e)
                | None \<Rightarrow>
                    bindD (orClose ''close store'' (Close flt) (init flt)) (\<lambda>_.
                    bindD (orClose ''close store'' (Close flt) (wrapD ''migrate legacy columns'' (migrateLegacy flt legacy))) (\<lambda>_.
                    orClose ''close store'' (Close flt)
                      (wrapD ''bound observation history'' (onTabs (boundExistingHistory flt))))))))"

section \<open>Legacy values\<close>

lemma map_ok_obj: "obj ps = JObj m \<Longrightarrow> map_ok m"
proof -
  have "map_ok (foldl (\<lambda>m (k, v). map_put k v m) m0 ps)" if "map_ok m0" for m0 :: "(string \<times> json) list"
    using that by (induction ps arbitrary: m0) (auto simp: map_ok_map_put)
  then show "obj ps = JObj m \<Longrightarrow> map_ok m" by (auto simp: obj_def map_ok_def)
qed

lemma json_Unmarshal_map_ok: "json_Unmarshal_map s = Inr (Some m) \<Longrightarrow> map_ok m"
proof -
  assume "json_Unmarshal_map s = Inr (Some m)"
  then obtain r where "jvalue (Suc (length s)) s = Some (JObj m, r)"
    by (auto simp: json_Unmarshal_map_def json_parse_def split: option.splits json.splits if_splits prod.splits)
  then show "map_ok m"
    by (auto simp: literal_def number_def Let_def map_ok_def [of "[]"] split: list.splits if_splits option.splits
        dest: map_ok_obj)
qed

text \<open>The value a metadata key gets from the legacy columns: that of the first column mapped to it that
  is neither NULL nor empty.\<close>

fun legacy_value :: "fp_row \<Rightarrow> legacy_column list \<Rightarrow> string \<Rightarrow> json option" where
  "legacy_value r [] k = None"
| "legacy_value r (c # cs) k =
     (if lMetaKey c \<noteq> k then legacy_value r cs k
      else case column_text r (lColumn c) of
             None \<Rightarrow> legacy_value r cs k
           | Some raw \<Rightarrow>
               (case decodeLegacy raw (lKind c) of
                  Inl _ \<Rightarrow> None
                | Inr v \<Rightarrow> if v = JNull then legacy_value r cs k else Some v))"

lemma fold_columns_step:
  assumes "fold_columns r (c # cs) (Some kvs) = Inr m"
  obtains (skip) "fold_columns r cs (Some kvs) = Inr m"
      "\<And>k. map_of kvs k = None \<Longrightarrow> legacy_value r (c # cs) k = legacy_value r cs k"
  | (put) raw v where "column_text r (lColumn c) = Some raw" "map_of kvs (lMetaKey c) = None"
      "decodeLegacy raw (lKind c) = Inr v" "v \<noteq> JNull" "fold_columns r cs (Some (map_put (lMetaKey c) v kvs)) = Inr m"
proof (cases "column_text r (lColumn c)")
  case None
  then show thesis using assms by (intro skip) simp_all
next
  case raw: (Some raw)
  show thesis
  proof (cases "map_of kvs (lMetaKey c)")
    case (Some v)
    then show thesis using assms raw by (intro skip) (auto simp: meta_get_def)
  next
    case None
    then obtain v where v: "decodeLegacy raw (lKind c) = Inr v"
      using assms raw by (auto simp: meta_get_def split: sum.splits)
    show thesis
    proof (cases "v = JNull")
      case True
      then show thesis using assms None raw v by (intro skip) (simp_all add: meta_get_def)
    next
      case False
      then show thesis using put [OF raw None v] assms None raw v by (simp add: meta_get_def)
    qed
  qed
qed

lemma fold_columns_spec:
  assumes "fold_columns r cs (Some kvs) = Inr m" "map_ok kvs"
  shows "\<exists>kvs'. m = Some kvs' \<and> map_ok kvs' \<and>
    (\<forall>k. map_of kvs' k = (case map_of kvs k of None \<Rightarrow> legacy_value r cs k | Some v \<Rightarrow> Some v))"
  using assms
proof (induction cs arbitrary: kvs)
  case Nil
  then show ?case by (auto split: option.splits)
next
  case (Cons c cs)
  from Cons.prems(1) show ?case
  proof (cases rule: fold_columns_step)
    case skip
    have "(case map_of kvs k of None \<Rightarrow> legacy_value r (c # cs) k | Some v \<Rightarrow> Some v) =
        (case map_of kvs k of None \<Rightarrow> legacy_value r cs k | Some v \<Rightarrow> Some v)" for k
      using skip(2) [of k] by (simp split: option.split)
    then show ?thesis using Cons.IH [OF skip(1) Cons.prems(2)] by simp
  next
    case (put raw v)
    obtain kvs' where k: "m = Some kvs'" "map_ok kvs'" "\<forall>k. map_of kvs' k =
        (case map_of (map_put (lMetaKey c) v kvs) k of None \<Rightarrow> legacy_value r cs k | Some v \<Rightarrow> Some v)"
      using Cons.IH [OF put(5)] map_ok_map_put [OF Cons.prems(2)] by blast
    have "map_of kvs' k = (case map_of kvs k of None \<Rightarrow> legacy_value r (c # cs) k | Some v \<Rightarrow> Some v)" for k
      using k(3) put(1-4) Cons.prems(2) by (cases "k = lMetaKey c"; cases "map_of kvs k") auto
    then show ?thesis using k by blast
  qed
qed

lemma legacy_update_Inr:
  assumes "legacy_update present r = Inr (fp, m)" "existing_meta r = Inr (Some kvs)"
  shows "fp = r_fp r \<and> (\<exists>kvs'. encodeMeta kvs' = Inr m \<and>
    (\<forall>k. map_of kvs' k = (case map_of kvs k of None \<Rightarrow> legacy_value r present k | Some v \<Rightarrow> Some v)))"
proof -
  obtain m' where m': "fold_columns r present (Some kvs) = Inr m'" "fp = r_fp r"
    "encodeMeta (case m' of None \<Rightarrow> [] | Some kvs \<Rightarrow> kvs) = Inr m"
    using assms by (auto simp: legacy_update_def split: sum.splits)
  have "map_ok kvs"
    using assms(2) json_Unmarshal_map_ok by (auto simp: existing_meta_def map_ok_def split: if_splits sum.splits)
  then obtain kvs' where "m' = Some kvs'"
    "\<forall>k. map_of kvs' k = (case map_of kvs k of None \<Rightarrow> legacy_value r present k | Some v \<Rightarrow> Some v)"
    using fold_columns_spec [OF m'(1)] by blast
  then show ?thesis using m' by auto
qed

section \<open>What a migration did\<close>

lemma onTabs_Inr:
  "onTabs m c = (Inr x, c') \<longleftrightarrow>
     (\<exists>d. m \<lparr>tabs = db_tabs (tabs c), calls = calls c\<rparr> = (Inr x, d) \<and>
        c' = \<lparr>tabs = (tabs c)\<lparr>db_tabs := tabs d\<rparr>, calls = calls d\<rparr>)"
  by (auto simp: onTabs_def split: prod.splits)

lemma exec_all_Inr: "exec_all flt fs c = (Inr u, c') \<Longrightarrow> tabs c' = fold (\<lambda>f. f) fs (tabs c)"
proof (induction fs arbitrary: c)
  case (Cons f fs)
  then obtain c1 where "tabs c1 = f (tabs c)" "exec_all flt fs c1 = (Inr u, c')"
    by (auto simp: bindD_Inr dest: execD_unit)
  then show ?case using Cons.IH by auto
qed (simp add: retD_Inr)

lemma with_stmt_tx_Inr:
  "with_stmt_tx flt context body c = (Inr u, c') \<Longrightarrow>
     \<exists>c1 c2 v. tabs c1 = tabs c \<and> body c1 = (Inr v, c2) \<and> tabs c' = tabs c2"
  by (auto simp: with_stmt_tx_def queryD_def execD_def closeWithError_def commitD_def closeError_def
      rollbackTransaction_def raiseD_def split: option.splits prod.splits sum.splits) (metis conn.select_convs(1))

lemma write_legacy_Inr:
  assumes "write_legacy flt us c = (Inr u, c')"
  shows "tabs c' = upsert_meta metaLegacyMigrated ''1'' (fold (\<lambda>f. f) (map update_meta us) (tabs c))"
proof -
  obtain c1 c2 v where b: "tabs c1 = tabs c" "tabs c' = tabs c2"
    "bindD (exec_all flt (map update_meta us)) (\<lambda>_. execD flt (\<lambda>t. ((), upsert_meta metaLegacyMigrated ''1'' t))) c1 = (Inr v, c2)"
    using with_stmt_tx_Inr [OF assms [unfolded write_legacy_def]] by blast
  then obtain c3 w where "exec_all flt (map update_meta us) c1 = (Inr w, c3)"
    "tabs c2 = upsert_meta metaLegacyMigrated ''1'' (tabs c3)" by (auto simp: bindD_Inr dest: execD_unit)
  then show ?thesis using exec_all_Inr b by fastforce
qed

lemma update_meta_find:
  "find_fp g (update_meta u t) = map_option (\<lambda>r. if g = fst u then r\<lparr>r_meta := snd u\<rparr> else r) (find_fp g t)"
proof -
  have "row_update (\<lambda>r. r\<lparr>r_meta := snd u\<rparr>)" by (simp add: row_update_def)
  then show ?thesis
    by (cases "g = fst u"; cases "find_fp g t") (auto simp: update_meta_def find_fp_update_fp)
qed

lemma update_metas_find:
  "distinct (map fst us) \<Longrightarrow> find_fp g (fold (\<lambda>f. f) (map update_meta us) t) =
     map_option (\<lambda>r. case map_of us g of None \<Rightarrow> r | Some m \<Rightarrow> r\<lparr>r_meta := m\<rparr>) (find_fp g t)"
proof (induction us arbitrary: t)
  case (Cons u us)
  then show ?case
    by (auto simp: update_meta_find option.map_comp comp_def map_of_eq_None_iff [THEN iffD2] split: option.splits
        intro!: map_option_cong)
qed (simp add: option.map_ident)

lemma update_metas_frame:
  "fingerprint_ips (fold (\<lambda>f. f) (map update_meta us) t) = fingerprint_ips t
   \<and> fingerprint_ports (fold (\<lambda>f. f) (map update_meta us) t) = fingerprint_ports t
   \<and> fingerprint_sightings (fold (\<lambda>f. f) (map update_meta us) t) = fingerprint_sightings t"
  by (induction us arbitrary: t) (simp_all add: update_meta_def frame_fp)

lemma read_only_hasColumn: "read_only (hasColumn flt column)"
  unfolding hasColumn_def by (intro read_onlyI)

lemma read_only_present: "read_only (present_columns flt cols)"
  by (induction cols) (auto intro!: read_onlyI read_only_hasColumn)

lemma hasColumn_Inr: "hasColumn flt column c = (Inr b, c') \<Longrightarrow> b \<longleftrightarrow> column \<in> set (table_info (tabs c))"
  by (auto simp: hasColumn_def queryRowsD_def dbop_Inr)

lemma present_columns_Inr:
  "present_columns flt cols c = (Inr present, c') \<Longrightarrow> present = filter (\<lambda>k. lColumn k \<in> set (table_info (tabs c))) cols"
proof (induction cols arbitrary: c present c')
  case (Cons k cols)
  then obtain has c1 rest c2 where run: "hasColumn flt (lColumn k) c = (Inr has, c1)"
    "present_columns flt cols c1 = (Inr rest, c2)" "present = (if has then k # rest else rest)"
    by (auto simp: bindD_Inr retD_Inr)
  have "tabs c1 = tabs c" using read_only_Inr [OF read_only_hasColumn run(1)] .
  then show ?case using Cons.IH [OF run(2)] hasColumn_Inr [OF run(1)] run(3) by simp
qed (simp add: retD_Inr)

lemma legacy_updates_Inr:
  assumes "legacy_updates flt present c = (Inr us, c')"
  shows "scan_all (legacy_update present) (fingerprints (tabs c)) = Inr us" "tabs c' = tabs c"
  using assms by (auto simp: legacy_updates_def bindD_def queryD_def execD_def closeWithError_def closeError_def
      raiseD_def liftD_def split: option.splits sum.splits error.splits)

lemma legacy_update_fst: "legacy_update present r = Inr u \<Longrightarrow> fst u = r_fp r"
  by (auto simp: legacy_update_def split: sum.splits)

lemma GetMeta_tabs: "GetMeta flt key c = (Inr v, c') \<Longrightarrow> v = meta_value key (tabs c) \<and> tabs c' = tabs c"
  by (rule GetMeta_Inr)

text \<open>The cases of a successful migration.\<close>

lemma migrateLegacy_Inr:
  assumes "migrateLegacy flt cols c = (Inr u, c')" "cols \<noteq> []"
  obtains (marked) "meta_value metaLegacyMigrated (db_tabs (tabs c)) = ''1''" "tabs c' = tabs c"
  | (none) "filter (\<lambda>k. lColumn k \<in> set (table_info (tabs c))) cols = []"
      "tabs c' = (tabs c)\<lparr>db_tabs := upsert_meta metaLegacyMigrated ''1'' (db_tabs (tabs c))\<rparr>"
  | (folded) us where
      "scan_all (legacy_update (filter (\<lambda>k. lColumn k \<in> set (table_info (tabs c))) cols)) (fingerprints (db_tabs (tabs c))) = Inr us"
      "tabs c' = (tabs c)\<lparr>db_tabs :=
         upsert_meta metaLegacyMigrated ''1'' (fold (\<lambda>f. f) (map update_meta us) (db_tabs (tabs c)))\<rparr>"
proof -
  obtain v c1 where v: "onTabs (GetMeta flt metaLegacyMigrated) c = (Inr v, c1)"
    and rest: "(if v = ''1'' then retD ()
        else bindD (present_columns flt cols) (\<lambda>present.
          if present = [] then onTabs (SetMeta flt metaLegacyMigrated ''1'')
          else bindD (onTabs (legacy_updates flt present)) (\<lambda>updates. onTabs (write_legacy flt updates)))) c1 = (Inr u, c')"
    using assms by (auto simp: migrateLegacy_def bindD_Inr)
  have c1: "tabs c1 = tabs c" "v = meta_value metaLegacyMigrated (db_tabs (tabs c))"
    using v by (auto simp: onTabs_Inr dest!: GetMeta_tabs)
  show ?thesis
  proof (cases "v = ''1''")
    case True
    then show ?thesis using rest c1 by (intro marked) (auto simp: retD_Inr)
  next
    case False
    then obtain present c2 where p: "present_columns flt cols c1 = (Inr present, c2)"
      and rest2: "(if present = [] then onTabs (SetMeta flt metaLegacyMigrated ''1'')
          else bindD (onTabs (legacy_updates flt present)) (\<lambda>updates. onTabs (write_legacy flt updates))) c2 = (Inr u, c')"
      using rest by (auto simp: bindD_Inr)
    have pr: "present = filter (\<lambda>k. lColumn k \<in> set (table_info (tabs c))) cols" and c2: "tabs c2 = tabs c"
      using present_columns_Inr [OF p] read_only_Inr [OF read_only_present p] c1 by simp_all
    show ?thesis
    proof (cases "present = []")
      case True
      then show ?thesis
        using rest2 pr c2 by (intro none) (auto simp: onTabs_Inr SetMeta_def execD_Inr)
    next
      case False
      then obtain us c3 where us: "onTabs (legacy_updates flt present) c2 = (Inr us, c3)"
        and w: "onTabs (write_legacy flt us) c3 = (Inr u, c')"
        using rest2 by (auto simp: bindD_Inr)
      obtain d where d: "legacy_updates flt present \<lparr>tabs = db_tabs (tabs c2), calls = calls c2\<rparr> = (Inr us, d)"
        "tabs c3 = (tabs c2)\<lparr>db_tabs := tabs d\<rparr>" using us by (auto simp: onTabs_Inr)
      have "scan_all (legacy_update present) (fingerprints (db_tabs (tabs c))) = Inr us" "tabs c3 = tabs c"
        using legacy_updates_Inr [OF d(1)] d(2) c2 by simp_all
      then show ?thesis
        using w pr by (intro folded) (auto simp: onTabs_Inr dest!: write_legacy_Inr)
    qed
  qed
qed

text \<open>The new metadata of a row: nothing it had is lost or replaced, and the legacy values are added.\<close>

definition migrated_meta :: "legacy_column list \<Rightarrow> fp_row \<Rightarrow> string \<Rightarrow> bool" where
  "migrated_meta present r m \<longleftrightarrow>
     (\<forall>kvs. existing_meta r = Inr (Some kvs) \<longrightarrow>
        (\<exists>kvs'. encodeMeta kvs' = Inr m \<and>
           (\<forall>k. map_of kvs' k = (case map_of kvs k of None \<Rightarrow> legacy_value r present k | Some v \<Rightarrow> Some v))))"

lemma folded_rows:
  assumes "keys_ok t" "scan_all (legacy_update present) (fingerprints t) = Inr us" "find_fp fp t = Some r"
  shows "\<exists>m. find_fp fp (fold (\<lambda>f. f) (map update_meta us) t) = Some (r\<lparr>r_meta := m\<rparr>) \<and> migrated_meta present r m"
proof -
  have all: "list_all2 (\<lambda>r u. legacy_update present r = Inr u) (fingerprints t) us"
    using assms(2) by (simp add: scan_all_Inr)
  then have "map fst us = map r_fp (fingerprints t)"
    by (intro nth_equalityI) (auto simp: list_all2_conv_all_nth legacy_update_fst)
  then have dist: "distinct (map fst us)" using keys_okD(1) [OF assms(1)] by simp
  have r: "r \<in> set (fingerprints t)" "r_fp r = fp" using find_fp_SomeD [OF assms(3)] by simp_all
  then obtain i where i: "i < length (fingerprints t)" "r = fingerprints t ! i" by (metis in_set_conv_nth)
  have u: "legacy_update present r = Inr (us ! i)" "us ! i \<in> set us"
    using all i by (simp_all add: list_all2_conv_all_nth)
  define m where "m = snd (us ! i)"
  have m: "us ! i = (fp, m)" using legacy_update_fst [OF u(1)] r(2) by (simp add: m_def prod_eq_iff)
  have "map_of us fp = Some m" using dist m u(2) by (simp add: map_of_is_SomeI)
  then have "find_fp fp (fold (\<lambda>f. f) (map update_meta us) t) = Some (r\<lparr>r_meta := m\<rparr>)"
    using update_metas_find [OF dist, of fp t] assms(3) by simp
  moreover have "migrated_meta present r m"
    using legacy_update_Inr [of present r fp m] u(1) m by (auto simp: migrated_meta_def)
  ultimately show ?thesis by blast
qed

lemma folded_fps:
  assumes "keys_ok t" "scan_all (legacy_update present) (fingerprints t) = Inr us"
  shows "fps (fold (\<lambda>f. f) (map update_meta us) t) = fps t"
proof -
  have "fps (update_meta u t) = fps t" for u t
    by (simp add: update_meta_def row_update_def)
  then show ?thesis by (induction us arbitrary: t) simp_all
qed

lemma same_rows:
  "(\<And>fp. find_fp fp t' = find_fp fp t) \<Longrightarrow>
    \<forall>fp r. find_fp fp t = Some r \<longrightarrow> (\<exists>m. find_fp fp t' = Some (r\<lparr>r_meta := m\<rparr>) \<and> (m = r_meta r \<or> Q r m))"
  by (metis fp_row.surjective fp_row.update_convs(7))

lemma marker_set: "meta_value k (upsert_meta k v t) = v"
  by (simp add: meta_value_def meta_kv.get_put_same)

lemma migrateLegacy_marked:
  assumes "migrateLegacy flt cols c = (Inr u, c')" "cols \<noteq> []" "meta_value metaLegacyMigrated (db_tabs (tabs c)) = ''1''"
  shows "tabs c' = tabs c"
  using assms by (auto simp: migrateLegacy_def bindD_Inr retD_Inr onTabs_Inr dest!: GetMeta_Inr)


text \<open>A tlsgate database from before gatekit: no \<open>meta\<close>-era keys, an \<open>sni\<close> column with a value.\<close>

definition sample_legacy :: "database conn" where
  "sample_legacy = \<lparr>tabs = \<lparr>fp_columns = standard_columns @ [''approval_ranges''],
     db_tabs = empty_tables\<lparr>
       fingerprints := [(sample_row ''aa'' StatusApproved ''2026-01-02T00:00:00Z'' 3 None)\<lparr>r_legacy := [(''sni'', Some ''a.example'')]\<rparr>],
       legacy_columns := [(''sni'', Some [])]\<rparr>\<rparr>, calls = 0\<rparr>"

definition sample_columns :: "legacy_column list" where
  "sample_columns = [\<lparr>lColumn = ''sni'', lMetaKey = ''sni'', lKind = KindString\<rparr>,
     \<lparr>lColumn = ''ja3'', lMetaKey = ''ja3'', lKind = KindString\<rparr>]"


text \<open>A row whose stored metadata is the JSON value \<open>null\<close> makes the migration panic when one of its
  legacy columns has a value: decoding leaves a nil map, into which the value is then stored.\<close>

theorem migrateLegacy_null_meta_panics:
  "fst (migrateLegacy no_faults sample_columns
     (sample_legacy\<lparr>tabs := (tabs sample_legacy)\<lparr>db_tabs :=
        update_meta (''aa'', ''null'') (db_tabs (tabs sample_legacy))\<rparr>\<rparr>)) =
   Inl (Panic ''assignment to entry in nil map'')"
  by code_simp

section \<open>Opening\<close>

lemma orClose_Inr: "orClose context closeFn m c = (Inr x, c') \<longleftrightarrow> m c = (Inr x, c')"
  by (auto simp: orClose_def split: prod.splits sum.splits error.splits)

lemma wrapD_Inr: "wrapD context m c = (Inr x, c') \<longleftrightarrow> m c = (Inr x, c')"
  by (auto simp: wrapD_def split: prod.splits sum.splits error.splits)

definition ensure_column :: "string \<Rightarrow> database \<Rightarrow> database" where
  "ensure_column column d = (if column \<in> set (table_info d) then d else add_column column d)"

lemma addColumnIfMissing_Inr:
  assumes "addColumnIfMissing flt column c = (Inr u, c')"
  shows "tabs c' = ensure_column column (tabs c)"
proof -
  obtain has c1 where h: "hasColumn flt column c = (Inr has, c1)"
    "(if has then retD () else execD flt (\<lambda>d. ((), add_column column d))) c1 = (Inr u, c')"
    using assms by (auto simp: addColumnIfMissing_def bindD_Inr)
  have "tabs c1 = tabs c" using read_only_Inr [OF read_only_hasColumn h(1)] .
  then show ?thesis
    using h hasColumn_Inr [OF h(1)] by (auto simp: ensure_column_def retD_Inr dest: execD_unit split: if_splits)
qed

lemma init_Inr:
  assumes "init flt c = (Inr u, c')"
  shows "tabs c' = ensure_column ''approval_ranges'' (ensure_column ''meta'' (ensure_column ''count'' (create_fingerprints (tabs c))))"
proof -
  have "fold (\<lambda>f. f) schema_statements d = create_fingerprints d" for d
    by (simp add: schema_statements_def numeral_eq_Suc)
  then show ?thesis
    using assms exec_all_Inr [of flt schema_statements]
    by (auto simp: init_def bindD_Inr dest!: addColumnIfMissing_Inr)
qed

lemma default_column_fields [simp]:
  "r_fp (default_column k r) = r_fp r" "r_status (default_column k r) = r_status r"
  "r_label (default_column k r) = r_label r" "r_first_seen (default_column k r) = r_first_seen r"
  "r_last_seen (default_column k r) = r_last_seen r"
  by (simp_all add: default_column_def)

lemma default_column_ranges: "k \<noteq> ''approval_ranges'' \<Longrightarrow> r_ranges (default_column k r) = r_ranges r"
  "r_ranges (default_column ''approval_ranges'' r) = None"
  by (simp_all add: default_column_def)

lemma find_map_fp:
  "(\<And>r. r_fp (f r) = r_fp r) \<Longrightarrow> find (\<lambda>r. r_fp r = fp) (map f rows) = map_option f (find (\<lambda>r. r_fp r = fp) rows)"
  by (induction rows) auto

text \<open>The columns of a row that opening a database never writes.\<close>

definition verdict :: "fp_row \<Rightarrow> string \<times> string \<times> string \<times> string" where
  "verdict r = (r_status r, r_label r, r_first_seen r, r_last_seen r)"

lemma ensure_column_spec:
  "map_option verdict (find_fp fp (db_tabs (ensure_column k d))) = map_option verdict (find_fp fp (db_tabs d))"
  "keys_ok (db_tabs d) \<Longrightarrow> keys_ok (db_tabs (ensure_column k d))"
  "set (fp_columns d) \<subseteq> set (fp_columns (ensure_column k d))"
  "k \<in> set (table_info (ensure_column k d))"
proof -
  show "map_option verdict (find_fp fp (db_tabs (ensure_column k d))) = map_option verdict (find_fp fp (db_tabs d))"
    by (simp add: ensure_column_def add_column_def find_fp_def find_map_fp option.map_comp comp_def verdict_def [abs_def])
  show "keys_ok (db_tabs d) \<Longrightarrow> keys_ok (db_tabs (ensure_column k d))"
    by (simp add: ensure_column_def add_column_def keys_ok_rows)
qed (auto simp: ensure_column_def add_column_def table_info_def)

lemma ensure_ranges:
  "k \<noteq> ''approval_ranges'' \<Longrightarrow> map_option r_ranges (find_fp fp (db_tabs (ensure_column k d))) = map_option r_ranges (find_fp fp (db_tabs d))"
  "''approval_ranges'' \<notin> set (table_info d) \<Longrightarrow>
     find_fp fp (db_tabs (ensure_column ''approval_ranges'' d)) = Some r \<Longrightarrow> r_ranges r = None"
  "''approval_ranges'' \<in> set (table_info d) \<Longrightarrow> ensure_column ''approval_ranges'' d = d"
  by (auto simp: ensure_column_def add_column_def find_fp_def find_map_fp option.map_comp comp_def default_column_ranges)

lemma legacy_columns_frame [sql_simps]:
  "legacy_columns (db_tabs (ensure_column k d)) = legacy_columns (db_tabs d)"
  "legacy_columns (update_meta u t) = legacy_columns t"
  "legacy_columns (upsert_meta a b t) = legacy_columns t"
  "legacy_columns (bound_ports (bound_ips (bound_sightings (clear_oversized_meta t)))) = legacy_columns t"
  by (simp_all add: ensure_column_def add_column_def update_meta_def update_fp_def upsert_meta_def bound_ports_def
      bound_ips_def bound_sightings_def clear_oversized_meta_def split: option.splits)

lemma migrateLegacy_rows:
  assumes "keys_ok (db_tabs (tabs c))" "migrateLegacy flt cols c = (Inr u, c')"
  shows "map_option (\<lambda>r. (verdict r, r_ranges r)) (find_fp fp (db_tabs (tabs c'))) =
      map_option (\<lambda>r. (verdict r, r_ranges r)) (find_fp fp (db_tabs (tabs c)))"
    "keys_ok (db_tabs (tabs c'))" "table_info (tabs c') = table_info (tabs c)"
proof -
  have up: "keys_ok t \<Longrightarrow> keys_ok (fold (\<lambda>f. f) (map update_meta us) t)" for us t
    by (induction us arbitrary: t) (simp_all add: update_meta_def keys_ok_update_fp row_update_def)
  have all: "map_option (\<lambda>r. (verdict r, r_ranges r)) (find_fp fp (db_tabs (tabs c'))) =
      map_option (\<lambda>r. (verdict r, r_ranges r)) (find_fp fp (db_tabs (tabs c)))
      \<and> keys_ok (db_tabs (tabs c')) \<and> table_info (tabs c') = table_info (tabs c)"
  proof (cases "cols = []")
    case True
    then show ?thesis using assms by (simp add: migrateLegacy_def retD_Inr)
  next
    case False
    with assms(2) show ?thesis
    proof (cases rule: migrateLegacy_Inr)
      case (folded us)
      have "map_option (\<lambda>r. (verdict r, r_ranges r)) (find_fp fp (fold (\<lambda>f. f) (map update_meta us) t)) =
          map_option (\<lambda>r. (verdict r, r_ranges r)) (find_fp fp t)" for t
        by (induction us arbitrary: t) (auto simp: update_meta_find option.map_comp comp_def verdict_def intro!: map_option_cong)
      moreover have "legacy_columns (fold (\<lambda>f. f) (map update_meta us) t) = legacy_columns t" for t
        by (induction us arbitrary: t) (simp_all add: legacy_columns_frame)
      ultimately show ?thesis
        using folded(2) up [OF assms(1)] by (simp add: find_fp_simps keys_ok_upsert_meta table_info_def legacy_columns_frame)
    qed (use assms(1) in \<open>simp_all add: find_fp_simps keys_ok_upsert_meta table_info_def legacy_columns_frame\<close>)
  qed
  then show "map_option (\<lambda>r. (verdict r, r_ranges r)) (find_fp fp (db_tabs (tabs c'))) =
      map_option (\<lambda>r. (verdict r, r_ranges r)) (find_fp fp (db_tabs (tabs c)))"
    "keys_ok (db_tabs (tabs c'))" "table_info (tabs c') = table_info (tabs c)" by simp_all
qed

lemma Open_Inr:
  assumes "Open flt sqlOpen dir_err path legacy c = (Inr u, c')"
  obtains u1 c1 u2 c2 where "path \<noteq> []" "init flt c = (Inr u1, c1)" "migrateLegacy flt legacy c1 = (Inr u2, c2)"
    "onTabs (boundExistingHistory flt) c2 = (Inr u, c')"
  using assms by (auto simp: Open_def raiseD_Inr bindD_Inr orClose_Inr wrapD_Inr split: if_splits option.splits)

lemma bounded_rows:
  "map_option (\<lambda>r. (verdict r, r_ranges r)) (find_fp fp (bound_ports (bound_ips (bound_sightings (clear_oversized_meta t))))) =
     map_option (\<lambda>r. (verdict r, r_ranges r)) (find_fp fp t)"
proof -
  let ?f = "\<lambda>r. if MaxMetadataBytes < int (length (r_meta r)) then r\<lparr>r_meta := ''{}''\<rparr> else r"
  have "find_fp fp (clear_oversized_meta t) = map_option ?f (find_fp fp t)"
    by (simp add: find_fp_def clear_oversized_meta_def) (rule find_map_fp, simp)
  moreover have "(verdict (?f r), r_ranges (?f r)) = (verdict r, r_ranges r)" for r by (simp add: verdict_def)
  ultimately show ?thesis by (simp only: find_fp_simps option.map_comp comp_def)
qed

lemma table_info_ensure: "set (table_info (ensure_column k d)) = insert k (set (table_info d))"
  by (auto simp: ensure_column_def add_column_def table_info_def)

text \<open>What \<open>init\<close> did: the columns are there, verdicts are as before, and so are scopes where the column existed.\<close>

lemma init_effect:
  assumes "init flt c = (Inr u, c1)"
  shows "keys_ok (db_tabs (tabs c)) \<Longrightarrow> keys_ok (db_tabs (tabs c1))"
    "{''count'', ''meta'', ''approval_ranges''} \<subseteq> set (table_info (tabs c1))"
    "map_option verdict (find_fp fp (db_tabs (tabs c1))) = map_option verdict (find_fp fp (db_tabs (tabs c)))"
    "find_fp fp (db_tabs (tabs c1)) = Some r \<Longrightarrow> (if ''approval_ranges'' \<in> set (table_info (tabs c))
      then map_option r_ranges (find_fp fp (db_tabs (tabs c))) = Some (r_ranges r) else r_ranges r = None)"
proof -
  define d1 where "d1 = ensure_column ''meta'' (ensure_column ''count'' (create_fingerprints (tabs c)))"
  have t1: "tabs c1 = ensure_column ''approval_ranges'' d1" using init_Inr [OF assms] by (simp add: d1_def)
  have cf: "db_tabs (create_fingerprints d) = db_tabs d" for d by (simp add: create_fingerprints_def)
  have "''approval_ranges'' \<in> set (table_info (create_fingerprints (tabs c))) \<longleftrightarrow> ''approval_ranges'' \<in> set (table_info (tabs c))"
    by (simp add: create_fingerprints_def table_info_def standard_columns_def)
  then have ar: "''approval_ranges'' \<in> set (table_info d1) \<longleftrightarrow> ''approval_ranges'' \<in> set (table_info (tabs c))"
    by (simp add: d1_def table_info_ensure)
  have kept: "map_option r_ranges (find_fp fp (db_tabs d1)) = map_option r_ranges (find_fp fp (db_tabs (tabs c)))"
    by (simp add: d1_def ensure_ranges(1) cf)
  show "keys_ok (db_tabs (tabs c)) \<Longrightarrow> keys_ok (db_tabs (tabs c1))"
    "{''count'', ''meta'', ''approval_ranges''} \<subseteq> set (table_info (tabs c1))"
    "map_option verdict (find_fp fp (db_tabs (tabs c1))) = map_option verdict (find_fp fp (db_tabs (tabs c)))"
    by (simp_all add: t1 d1_def ensure_column_spec cf table_info_ensure)
  show "if ''approval_ranges'' \<in> set (table_info (tabs c))
      then map_option r_ranges (find_fp fp (db_tabs (tabs c))) = Some (r_ranges r) else r_ranges r = None"
    if r1: "find_fp fp (db_tabs (tabs c1)) = Some r"
  proof (cases "''approval_ranges'' \<in> set (table_info (tabs c))")
    case True
    then have "tabs c1 = d1" using ar ensure_ranges(3) by (simp add: t1)
    with kept r1 True show ?thesis by (metis option.map(2))
  next
    case False
    then show ?thesis using ar r1 ensure_ranges(2) [of d1 fp r] by (simp add: t1)
  qed
qed

text \<open>C18: opening a database, of any age, is safe for its verdicts: when \<open>Open\<close> succeeds the columns added
  since the first gate schemas exist, every fingerprint has the status, label and times it had,
  its approval scope is the stored one, or none when the database had no such column, and no
  history exceeds its bound.\<close>

theorem Open_spec:
  assumes "keys_ok (db_tabs (tabs c))" "Open flt sqlOpen dir_err path legacy c = (Inr u, c')"
  shows "{''count'', ''meta'', ''approval_ranges''} \<subseteq> set (table_info (tabs c'))
    \<and> history_ok (db_tabs (tabs c'))
    \<and> (\<forall>fp. map_option verdict (find_fp fp (db_tabs (tabs c'))) = map_option verdict (find_fp fp (db_tabs (tabs c)))
        \<and> (\<forall>r. find_fp fp (db_tabs (tabs c')) = Some r \<longrightarrow>
             (if ''approval_ranges'' \<in> set (table_info (tabs c))
              then map_option r_ranges (find_fp fp (db_tabs (tabs c))) = Some (r_ranges r) else r_ranges r = None)))"
proof -
  obtain u1 c1 u2 c2 where run: "init flt c = (Inr u1, c1)" "migrateLegacy flt legacy c1 = (Inr u2, c2)"
    "onTabs (boundExistingHistory flt) c2 = (Inr u, c')"
    using assms(2) by (rule Open_Inr)
  note init = init_effect [OF run(1)]
  note mig = migrateLegacy_rows [OF init(1) [OF assms(1)] run(2)]
  obtain d where d: "boundExistingHistory flt \<lparr>tabs = db_tabs (tabs c2), calls = calls c2\<rparr> = (Inr u, d)"
    "tabs c' = (tabs c2)\<lparr>db_tabs := tabs d\<rparr>" using run(3) by (auto simp: onTabs_Inr)
  have t': "db_tabs (tabs c') = bound_ports (bound_ips (bound_sightings (clear_oversized_meta (db_tabs (tabs c2)))))"
    using boundExistingHistory_Inr [OF d(1)] d(2) by simp
  have rows: "map_option (\<lambda>r. (verdict r, r_ranges r)) (find_fp fp (db_tabs (tabs c'))) =
      map_option (\<lambda>r. (verdict r, r_ranges r)) (find_fp fp (db_tabs (tabs c1)))" for fp
    using mig(1) [of fp] by (simp add: t' bounded_rows)
  have cols: "{''count'', ''meta'', ''approval_ranges''} \<subseteq> set (table_info (tabs c'))"
    using init(2) mig(3) t' d(2) by (simp add: table_info_def legacy_columns_frame)
  have v: "map_option verdict (find_fp fp (db_tabs (tabs c'))) = map_option verdict (find_fp fp (db_tabs (tabs c)))" for fp
    using arg_cong [OF rows [of fp], of "map_option fst"] init(3) by (simp add: option.map_comp comp_def)
  have "(if ''approval_ranges'' \<in> set (table_info (tabs c))
      then map_option r_ranges (find_fp fp (db_tabs (tabs c))) = Some (r_ranges r) else r_ranges r = None)"
    if r: "find_fp fp (db_tabs (tabs c')) = Some r" for fp r
  proof -
    obtain r1 where r1: "find_fp fp (db_tabs (tabs c1)) = Some r1" "r_ranges r1 = r_ranges r"
      using rows [of fp] r by (cases "find_fp fp (db_tabs (tabs c1))") auto
    show ?thesis using init(4) [OF r1(1)] unfolding r1(2) .
  qed
  with cols v show ?thesis using bounded_history_ok [OF mig(2)] by (simp add: t')
qed

theorem Open_spec_witness:
  "fst (Open no_faults (\<lambda>_. None) None ''gate.db'' sample_columns sample_legacy) = Inr ()
    \<and> history_ok (db_tabs (tabs (snd (Open no_faults (\<lambda>_. None) None ''gate.db'' sample_columns sample_legacy))))"
proof -
  have ok: "fst (Open no_faults (\<lambda>_. None) None ''gate.db'' sample_columns sample_legacy) = Inr ()" by code_simp
  have "keys_ok (db_tabs (tabs sample_legacy))" by code_simp
  from Open_spec [OF this prod_eqI [OF trans [OF ok fst_conv [symmetric]] snd_conv [symmetric]]]
  show ?thesis using ok by simp
qed

end
