(* ===== verification/Float64.thy ===== *)
theory Float64
  imports Complex_Main "HOL-Library.Log_Nat"
begin

text \<open>
  Go's \<open>float64\<close> arithmetic, as the rate limiter uses it.  A finite value is the rational number it
  stands for; each operation computes the exact result and rounds it to the nearest number with a
  significand of 53 bits, ties to even.  The exponent is not bounded, so results agree with
  IEEE 754 wherever no result of a computation is smaller than \<open>2^-1022\<close> or exceeds \<open>2^1024\<close>.
\<close>

section \<open>Rounding\<close>

definition round_even :: "rat \<Rightarrow> int" where
  "round_even q =
     (let f = \<lfloor>q\<rfloor>; r = q - of_int f
      in if r < 1 / 2 then f else if 1 / 2 < r then f + 1 else if even f then f else f + 1)"

text \<open>The exponent of a positive number's leading bit.\<close>

definition binexp :: "rat \<Rightarrow> int" where
  "binexp x = (let (p, q) = quotient_of x; b = bitlen p - bitlen q in if 2 powi b \<le> x then b else b - 1)"

definition pos_round :: "rat \<Rightarrow> rat" where
  "pos_round x = of_int (round_even (x / 2 powi (binexp x - 52))) * 2 powi (binexp x - 52)"

definition rnd64 :: "rat \<Rightarrow> rat" where
  "rnd64 x = (if x = 0 then 0 else if 0 < x then pos_round x else - pos_round (- x))"

definition fadd :: "rat \<Rightarrow> rat \<Rightarrow> rat" where "fadd x y = rnd64 (x + y)"

definition fsub :: "rat \<Rightarrow> rat \<Rightarrow> rat" where "fsub x y = rnd64 (x - y)"

definition fmul :: "rat \<Rightarrow> rat \<Rightarrow> rat" where "fmul x y = rnd64 (x * y)"

definition fdiv :: "rat \<Rightarrow> rat \<Rightarrow> rat" where "fdiv x y = rnd64 (x / y)"

definition float_of_int :: "int \<Rightarrow> rat" where "float_of_int n = rnd64 (of_int n)"

section \<open>The laws of rounding\<close>

locale float_rounding =
  fixes rnd :: "rat \<Rightarrow> rat"
  assumes mono: "x \<le> y \<Longrightarrow> rnd x \<le> rnd y"
    and idem: "rnd (rnd x) = rnd x"
    and exact_int: "\<bar>n\<bar> \<le> 2 ^ 53 \<Longrightarrow> rnd (of_int n) = of_int n"
    and error: "0 \<le> x \<Longrightarrow> rnd x \<le> x * (1 + 1 / 2 ^ 53)"
begin

lemma zero: "rnd 0 = 0"
  using exact_int [of 0] by simp

lemma one: "rnd 1 = 1"
  using exact_int [of 1] by simp

lemma nonneg: "0 \<le> x \<Longrightarrow> 0 \<le> rnd x"
  using mono [of 0 x] zero by simp

lemma spend: "rnd t = t \<Longrightarrow> 1 \<le> t \<Longrightarrow> 0 \<le> rnd (t - 1) \<and> rnd (t - 1) \<le> t"
  using nonneg [of "t - 1"] mono [of "t - 1" t] by simp

lemma above: "rnd b = b \<Longrightarrow> b \<le> x \<Longrightarrow> b \<le> rnd x"
  using mono [of b x] by simp

lemma below: "rnd b = b \<Longrightarrow> x \<le> b \<Longrightarrow> rnd x \<le> b"
  using mono [of x b] by simp

end

section \<open>Rounding to nearest obeys them\<close>

lemma round_even_int [simp]: "round_even (of_int n) = n"
  by (simp add: round_even_def)

lemma round_even_near: "\<bar>of_int (round_even q) - q\<bar> \<le> 1 / 2" "\<lfloor>q\<rfloor> \<le> round_even q" "round_even q \<le> \<lfloor>q\<rfloor> + 1"
proof -
  have "of_int \<lfloor>q\<rfloor> \<le> q" "q < of_int \<lfloor>q\<rfloor> + 1" by linarith+
  then show "\<bar>of_int (round_even q) - q\<bar> \<le> 1 / 2" by (auto simp: round_even_def Let_def)
qed (auto simp: round_even_def Let_def)

lemma round_even_mono: "p \<le> q \<Longrightarrow> round_even p \<le> round_even q"
proof (cases "\<lfloor>p\<rfloor> < \<lfloor>q\<rfloor>")
  case True
  then show ?thesis using round_even_near(3) [of p] round_even_near(2) [of q] by linarith
next
  case False
  assume "p \<le> q"
  then have "\<lfloor>p\<rfloor> = \<lfloor>q\<rfloor>" using False floor_mono [of p q] by simp
  then show ?thesis using \<open>p \<le> q\<close> by (auto simp: round_even_def Let_def)
qed

lemma pow_mono: "a \<le> b \<longleftrightarrow> (2 :: rat) powi a \<le> 2 powi b"
  using power_int_strict_increasing [of b a "2 :: rat"] power_int_increasing [of a b "2 :: rat"] by (cases "a \<le> b") auto

lemma binexp_spec:
  assumes "0 < x"
  shows "2 powi binexp x \<le> x" "x < 2 powi (binexp x + 1)"
proof -
  obtain p q where pq: "quotient_of x = (p, q)" by (cases "quotient_of x")
  have q: "0 < q" and x: "x = of_int p / of_int q"
    using quotient_of_denom_pos [OF pq] quotient_of_div [OF pq] by simp_all
  then have p: "0 < p" using assms by (simp add: zero_less_divide_iff)
  have bounds: "(2 :: rat) powi (bitlen n - 1) \<le> of_int n \<and> of_int n < (2 :: rat) powi bitlen n" if "0 < n" for n
  proof -
    have b: "1 \<le> bitlen n" using that by (simp add: bitlen_alt_def)
    have "(of_int (2 ^ nat (bitlen n - 1)) :: rat) \<le> of_int n" "(of_int n :: rat) < of_int (2 ^ nat (bitlen n))"
      using bitlen_bounds [OF that] by (simp_all only: of_int_le_iff of_int_less_iff)
    then show ?thesis using b by (simp add: power_int_nonneg_exp)
  qed
  let ?b = "bitlen p - bitlen q"
  have "x < 2 powi bitlen p / 2 powi (bitlen q - 1)"
    using bounds [OF p] bounds [OF q] q p unfolding x by (intro frac_less) auto
  then have up: "x < 2 powi (?b + 1)" by (simp flip: power_int_diff add: algebra_simps)
  have "2 powi (bitlen p - 1) / 2 powi bitlen q \<le> x"
    using bounds [OF p] bounds [OF q] q p unfolding x by (intro frac_le) auto
  then have lo: "2 powi (?b - 1) \<le> x" by (simp flip: power_int_diff add: algebra_simps)
  show "2 powi binexp x \<le> x" "x < 2 powi (binexp x + 1)" using up lo by (auto simp: binexp_def pq Let_def)
qed

lemma binexp_mono: "0 < x \<Longrightarrow> x \<le> y \<Longrightarrow> binexp x \<le> binexp y"
proof -
  assume x: "0 < x" "x \<le> y"
  then have "(2 :: rat) powi binexp x < 2 powi (binexp y + 1)"
    using binexp_spec(1) [of x] binexp_spec(2) [of y] by linarith
  then show ?thesis using pow_mono [of "binexp y + 1" "binexp x"] by linarith
qed

lemma pos_round_exact:
  assumes "0 < n" "n \<le> 2 ^ 53"
  shows "pos_round (of_int n * 2 powi k) = of_int n * 2 powi k"
proof -
  have exact: "pos_round (of_int n * 2 powi k) = of_int n * 2 powi k" if "0 < n" "n < 2 ^ 53" for n k
  proof -
    let ?x = "of_int n * 2 powi k :: rat" and ?u = "binexp (of_int n * 2 powi k) - 52"
    have "(of_int n :: rat) < of_int (2 ^ 53)" using that(2) by (simp only: of_int_less_iff)
    then have "?x < 2 ^ 53 * 2 powi k" by simp
    also have "\<dots> = 2 powi (53 + k)" by (simp add: power_int_add)
    finally have "(2 :: rat) powi binexp ?x < 2 powi (53 + k)" using binexp_spec(1) [of ?x] that(1) by simp
    then have "?u \<le> k" using pow_mono [of "53 + k" "binexp ?x"] by linarith
    then obtain d where d: "k = ?u + int d" using zle_iff_zadd by blast
    have x: "of_int n * 2 powi k = (of_int (n * 2 ^ d) * 2 powi u :: rat)" if "k = u + int d" for u
      using that by (simp add: power_int_add)
    then have "?x / 2 powi ?u = of_int (n * 2 ^ d)" using d by (metis nonzero_mult_div_cancel_right power_int_not_zero zero_neq_numeral)
    then have "pos_round ?x = of_int (n * 2 ^ d) * 2 powi ?u" by (simp only: pos_round_def round_even_int)
    then show ?thesis unfolding x [OF d, symmetric] .
  qed
  show ?thesis
  proof (cases "n = 2 ^ 53")
    case True
    then have "of_int n * 2 powi k = (of_int 1 * 2 powi (53 + k) :: rat)" by (simp add: power_int_add)
    then show ?thesis using exact [of 1 "53 + k"] by simp
  qed (use assms exact in simp)
qed

lemma ulps: "2 powi e = (2 ^ 52 * 2 powi (e - 52) :: rat)" "2 powi (e + 1) = (2 ^ 53 * 2 powi (e - 52) :: rat)"
  using power_int_add [of "2 :: rat" 52 "e - 52"] power_int_add [of "2 :: rat" 53 "e - 52"] by (simp_all add: add.commute)

lemma pos_round_spec:
  assumes "0 < x"
  obtains n where "pos_round x = of_int n * 2 powi (binexp x - 52)" "2 ^ 52 \<le> n" "n \<le> 2 ^ 53"
    "\<bar>pos_round x - x\<bar> \<le> 2 powi (binexp x - 53)"
proof -
  let ?u = "2 powi (binexp x - 52) :: rat"
  let ?n = "round_even (x / ?u)"
  have "of_int (2 ^ 52) \<le> x / ?u" "x / ?u \<le> of_int (2 ^ 53)"
    using binexp_spec [OF assms] ulps [of "binexp x"] by (simp_all add: field_simps)
  then have n: "2 ^ 52 \<le> ?n" "?n \<le> 2 ^ 53" using round_even_mono round_even_int by metis+
  have "pos_round x - x = (of_int ?n - x / ?u) * ?u" by (simp add: pos_round_def left_diff_distrib)
  then have "\<bar>pos_round x - x\<bar> = \<bar>of_int ?n - x / ?u\<bar> * ?u" by (simp add: abs_mult)
  also have "\<dots> \<le> 1 / 2 * ?u" by (intro mult_right_mono round_even_near(1)) simp
  also have "\<dots> = 2 powi (binexp x - 53)" using power_int_minus_mult [of "2 :: rat" "binexp x - 52"] by (simp add: field_simps)
  finally show ?thesis using that [of ?n] n by (simp add: pos_round_def)
qed

lemma pos_round_bounds:
  assumes "0 < x"
  shows "2 powi binexp x \<le> pos_round x" "pos_round x \<le> 2 powi (binexp x + 1)" "0 < pos_round x"
proof -
  obtain n where n: "pos_round x = of_int n * 2 powi (binexp x - 52)" "2 ^ 52 \<le> n" "n \<le> 2 ^ 53"
    using pos_round_spec [OF assms] by metis
  have "(of_int (2 ^ 52) :: rat) \<le> of_int n" "(of_int n :: rat) \<le> of_int (2 ^ 53)"
    using n(2,3) by (simp_all only: of_int_le_iff)
  then have "2 ^ 52 * 2 powi (binexp x - 52) \<le> pos_round x" "pos_round x \<le> 2 ^ 53 * 2 powi (binexp x - 52)"
    unfolding n(1) by (auto intro: mult_right_mono)
  then show "2 powi binexp x \<le> pos_round x" "pos_round x \<le> 2 powi (binexp x + 1)"
    using ulps [of "binexp x"] by simp_all
  then show "0 < pos_round x" by (meson less_le_trans zero_less_numeral zero_less_power_int)
qed

lemma pos_round_mono: "0 < x \<Longrightarrow> x \<le> y \<Longrightarrow> pos_round x \<le> pos_round y"
proof (cases "binexp x = binexp y")
  case True
  assume "0 < x" "x \<le> y"
  then have "round_even (x / 2 powi (binexp x - 52)) \<le> round_even (y / 2 powi (binexp x - 52))"
    by (intro round_even_mono divide_right_mono) auto
  then show ?thesis by (simp add: pos_round_def True mult_right_mono)
next
  case False
  assume x: "0 < x" "x \<le> y"
  then have "binexp x + 1 \<le> binexp y" using binexp_mono [of x y] False by linarith
  then have "(2 :: rat) powi (binexp x + 1) \<le> 2 powi binexp y" using pow_mono by blast
  then show ?thesis using pos_round_bounds(2) [of x] pos_round_bounds(1) [of y] x by linarith
qed

lemma rnd64_pos [simp]: "0 < x \<Longrightarrow> rnd64 x = pos_round x"
  by (simp add: rnd64_def)

lemma rnd64_neg: "x < 0 \<Longrightarrow> rnd64 x = - pos_round (- x)"
  by (simp add: rnd64_def)

lemma rnd64_mono:
  assumes "x \<le> y"
  shows "rnd64 x \<le> rnd64 y"
proof -
  consider "0 < x" | "x \<le> 0" "0 \<le> y" | "y < 0" by linarith
  then show ?thesis
  proof cases
    case 1
    then show ?thesis using assms pos_round_mono by simp
  next
    case 2
    have "rnd64 x \<le> 0" using 2(1) pos_round_bounds(3) [of "- x"] by (auto simp: rnd64_def)
    moreover have "0 \<le> rnd64 y" using 2(2) pos_round_bounds(3) [of y] by (auto simp: rnd64_def)
    ultimately show ?thesis by simp
  next
    case 3
    then show ?thesis using assms pos_round_mono [of "- y" "- x"] by (simp add: rnd64_neg)
  qed
qed

lemma rnd64_idem: "rnd64 (rnd64 x) = rnd64 x"
proof -
  have pos: "pos_round (pos_round x) = pos_round x" if x: "0 < x" for x
  proof -
    obtain n where n: "pos_round x = of_int n * 2 powi (binexp x - 52)" "2 ^ 52 \<le> n" "n \<le> 2 ^ 53"
      using pos_round_spec [OF x] by metis
    then show ?thesis using pos_round_exact [of n "binexp x - 52"] by simp
  qed
  show ?thesis
    using pos [of x] pos [of "- x"] pos_round_bounds(3) [of x] pos_round_bounds(3) [of "- x"]
    by (cases x "0 :: rat" rule: linorder_cases) (simp_all add: rnd64_def)
qed

lemma rnd64_of_int:
  assumes "\<bar>n\<bar> \<le> 2 ^ 53"
  shows "rnd64 (of_int n) = of_int n"
proof -
  have "pos_round (of_int m) = of_int m" if "0 < m" "m \<le> 2 ^ 53" for m
    using pos_round_exact [OF that, of 0] by simp
  then show ?thesis
    using assms by (cases n "0 :: int" rule: linorder_cases) (simp_all add: rnd64_def flip: of_int_minus)
qed

lemma rnd64_le:
  assumes "0 \<le> x"
  shows "rnd64 x \<le> x * (1 + 1 / 2 ^ 53)"
proof (cases "x = 0")
  case False
  then have pos: "0 < x" using assms by simp
  have "2 powi (binexp x - 53) = 2 powi binexp x * (1 / 2 ^ 53 :: rat)" by (simp add: power_int_diff)
  also have "\<dots> \<le> x * (1 / 2 ^ 53)" using binexp_spec(1) [OF pos] by (intro mult_right_mono) auto
  finally have small: "2 powi (binexp x - 53) \<le> x * (1 / 2 ^ 53)" .
  have "\<bar>pos_round x - x\<bar> \<le> 2 powi (binexp x - 53)" using pos_round_spec [OF pos] by metis
  then have "pos_round x \<le> x + x * (1 / 2 ^ 53)" using small unfolding abs_le_iff by linarith
  then show ?thesis using pos by (simp add: distrib_left)
qed (simp add: rnd64_def)

interpretation f64: float_rounding rnd64
  by unfold_locales (rule rnd64_mono rnd64_idem rnd64_of_int rnd64_le; assumption?)+

end
