(* ===== verification/RateLimit.thy ===== *)
theory RateLimit
  imports NetIP GoTime Float64
begin

text \<open>
  The per-source token bucket of \<open>src/ratelimit/ratelimit.go\<close>.  A nil limiter is \<open>None\<close>; the clock
  reading \<open>l.now()\<close> is an argument of each call; the mutex makes every call one step.
\<close>

section \<open>The limiter\<close>

record bucket =
  tokens :: rat
  b_last :: time

record limiter =
  buckets :: "(string \<times> bucket) list"
  rate :: rat
  burst :: rat
  ttl :: int
  maxBuckets :: int

definition DefaultMaxBuckets :: int where
  "DefaultMaxBuckets = 1048576"

definition Limiter_New :: "rat \<Rightarrow> rat \<Rightarrow> int \<Rightarrow> limiter" where
  "Limiter_New r b d = \<lparr>buckets = [], rate = r, burst = b, ttl = d, maxBuckets = DefaultMaxBuckets\<rparr>"

text \<open>\<open>net.ParseIP\<close> takes no zone; \<open>net.IP.String\<close> prints an IPv4-mapped address as IPv4.\<close>

definition ParseIP :: "string \<Rightarrow> addr option" where
  "ParseIP s = (case ParseAddr s of None \<Rightarrow> None | Some a \<Rightarrow> if Zone a = [] then Some a else None)"

definition Key :: "string \<Rightarrow> string" where
  "Key ip =
     (case map_option Unmap (ParseIP ip) of
        Some (Addr6 w z) \<Rightarrow> Addr_String (Unmap (Addr6 (clear_low 64 w) []))
      | _ \<Rightarrow> ip)"

text \<open>\<open>Time.Sub\<close> saturates at the range of \<open>time.Duration\<close>; \<open>Duration.Seconds\<close> truncates towards zero.\<close>

definition time_Sub :: "time \<Rightarrow> time \<Rightarrow> int" where
  "time_Sub t u = max (- 9223372036854775808) (min 9223372036854775807 (t - u))"

definition Seconds :: "int \<Rightarrow> rat" where
  "Seconds d =
     (let sec = sgn d * (\<bar>d\<bar> div 1000000000); nsec = sgn d * (\<bar>d\<bar> mod 1000000000)
      in fadd (float_of_int sec) (fdiv (float_of_int nsec) 1000000000))"

definition refill :: "limiter \<Rightarrow> time \<Rightarrow> bucket \<Rightarrow> bucket" where
  "refill l now b =
     (let t = fadd (tokens b) (fmul (Seconds (time_Sub now (b_last b))) (rate l))
      in \<lparr>tokens = if burst l < t then burst l else t, b_last = now\<rparr>)"

definition spend :: "string \<Rightarrow> bucket \<Rightarrow> limiter \<Rightarrow> bool \<times> limiter" where
  "spend key b l =
     (if tokens b < 1 then (False, l\<lparr>buckets := map_put key b (buckets l)\<rparr>)
      else (True, l\<lparr>buckets := map_put key (b\<lparr>tokens := fsub (tokens b) 1\<rparr>) (buckets l)\<rparr>))"

definition bucket_full :: "limiter \<Rightarrow> bool" where
  "bucket_full l \<longleftrightarrow> 0 < maxBuckets l \<and> maxBuckets l \<le> int (length (buckets l))"

definition allow :: "time \<Rightarrow> string \<Rightarrow> limiter \<Rightarrow> bool \<times> limiter" where
  "allow now ip l =
     (let key = Key ip
      in case map_of (buckets l) key of
           None \<Rightarrow>
             if bucket_full l then (True, l)
             else spend key \<lparr>tokens = burst l, b_last = now\<rparr> l
         | Some b \<Rightarrow> spend key (refill l now b) l)"

definition Allow :: "time \<Rightarrow> string \<Rightarrow> limiter option \<Rightarrow> bool \<times> limiter option" where
  "Allow now ip limiter =
     (case limiter of None \<Rightarrow> (True, None) | Some l \<Rightarrow> apsnd Some (allow now ip l))"

text \<open>Negation of a duration wraps at the smallest one.\<close>

definition neg64 :: "int \<Rightarrow> int" where
  "neg64 d = (if d = - 9223372036854775808 then d else - d)"

definition sweep :: "time \<Rightarrow> limiter \<Rightarrow> limiter" where
  "sweep now l = l\<lparr>buckets := filter (\<lambda>(key, b). \<not> b_last b < now + neg64 (ttl l)) (buckets l)\<rparr>"

definition Sweep :: "time \<Rightarrow> limiter option \<Rightarrow> limiter option" where
  "Sweep now limiter = map_option (sweep now) limiter"

text \<open>
  \<open>RunSweeper\<close> as the sequence of events its \<open>select\<close> receives: a tick, with the clock reading of the
  sweep, or the closed stop channel.  \<open>None\<close> stands for a sweeper that is still waiting.
\<close>

datatype sweeper_event = Tick time | StopClosed

fun sweeper_loop :: "sweeper_event list \<Rightarrow> limiter option \<Rightarrow> limiter option \<times> bool" where
  "sweeper_loop [] l = (l, False)"
| "sweeper_loop (StopClosed # es) l = (l, True)"
| "sweeper_loop (Tick now # es) l = sweeper_loop es (Sweep now l)"

definition RunSweeper :: "int \<Rightarrow> sweeper_event list \<Rightarrow> limiter option \<Rightarrow> (limiter option \<times> bool) result" where
  "RunSweeper interval es limiter =
     (case limiter of
        None \<Rightarrow> Inr (None, True)
      | Some l \<Rightarrow>
          if interval \<le> 0 then Inl (Panic ''non-positive interval for NewTicker'')
          else Inr (sweeper_loop es limiter))"

section \<open>Keys\<close>

lemma masked_not_mapped: "Unmap (Addr6 (clear_low 64 w) []) = Addr6 (clear_low 64 w) []"
proof -
  have "\<not> bit (drop_bit 32 (clear_low 64 w)) 0" by (simp add: bit_simps bit_clear_low)
  then have "drop_bit 32 (clear_low 64 w) \<noteq> (0xFFFF :: 128 word)" by auto
  then show ?thesis by (simp add: Unmap_def Is4In6_def)
qed

lemma Key_6: "ParseIP ip = Some (Addr6 w []) \<Longrightarrow> \<not> Is4In6 (Addr6 w []) \<Longrightarrow> Key ip = string6 (clear_low 64 w)"
proof -
  assume ip: "ParseIP ip = Some (Addr6 w [])" "\<not> Is4In6 (Addr6 w [])"
  have "\<not> Is4In6 (Addr6 (clear_low 64 w) [])" using masked_not_mapped [of w] by (auto simp: Unmap_def split: if_splits)
  moreover have "Unmap (Addr6 w []) = Addr6 w []" using ip(2) by (simp add: Unmap_def)
  ultimately show ?thesis using ip(1) by (simp add: Key_def masked_not_mapped Addr_String_def)
qed

text \<open>Two IPv6 sources share a bucket exactly when they lie in the same /64, however their addresses are
  written, and every other text, IPv4 addresses included, is its own key.\<close>

theorem Key_spec:
  "(\<forall>w w'. ParseIP ip = Some (Addr6 w []) \<and> ParseIP ip' = Some (Addr6 w' [])
        \<and> \<not> Is4In6 (Addr6 w []) \<and> \<not> Is4In6 (Addr6 w' []) \<longrightarrow>
      (Key ip = Key ip' \<longleftrightarrow> drop_bit 64 w = drop_bit 64 w'))
    \<and> ((\<forall>w. ParseIP ip = Some (Addr6 w []) \<longrightarrow> Is4In6 (Addr6 w [])) \<longrightarrow> Key ip = ip)"
proof -
  have inj: "string6 v = string6 v' \<longleftrightarrow> v = v'" for v v'
    using ParseAddr_string6 [of v] ParseAddr_string6 [of v'] by (metis addr.inject(2) option.inject)
  have zone: "ParseIP ip = Some (Addr6 w z) \<Longrightarrow> z = []" for w z
    by (auto simp: ParseIP_def Zone_def split: option.splits if_splits)
  have "Key ip = Key ip' \<longleftrightarrow> drop_bit 64 w = drop_bit 64 w'"
    if "ParseIP ip = Some (Addr6 w [])" "ParseIP ip' = Some (Addr6 w' [])" "\<not> Is4In6 (Addr6 w [])" "\<not> Is4In6 (Addr6 w' [])" for w w'
    using Key_6 [OF that(1,3)] Key_6 [OF that(2,4)] by (simp add: inj clear_low_eq_iff)
  moreover have "Key ip = ip" if mapped: "\<forall>w. ParseIP ip = Some (Addr6 w []) \<longrightarrow> Is4In6 (Addr6 w [])"
  proof (cases "ParseIP ip")
    case (Some a)
    then show ?thesis using mapped zone by (cases a) (auto simp: Key_def Unmap_def)
  qed (simp add: Key_def)
  ultimately show ?thesis by blast
qed

theorem Key_spec_witness: "Key ''2001:db8:1:2::1'' = Key ''2001:db8:1:2:0:0:dead:beef'' \<and> Key ''192.0.2.1'' = ''192.0.2.1''"
proof -
  have "ParseIP ''2001:db8:1:2::1'' = Some (Addr6 0x20010db8000100020000000000000001 [])"
    "ParseIP ''2001:db8:1:2:0:0:dead:beef'' = Some (Addr6 0x20010db80001000200000000deadbeef [])"
    "ParseIP ''192.0.2.1'' = Some (Addr4 0xC0000201)" by code_simp+
  moreover have "\<not> Is4In6 (Addr6 0x20010db8000100020000000000000001 [])" "\<not> Is4In6 (Addr6 0x20010db80001000200000000deadbeef [])"
    "drop_bit 64 (0x20010db8000100020000000000000001 :: 128 word) = drop_bit 64 0x20010db80001000200000000deadbeef" by code_simp+
  ultimately show ?thesis
    using Key_spec [of "''2001:db8:1:2::1''" "''2001:db8:1:2:0:0:dead:beef''"] Key_spec [of "''192.0.2.1''" "''x''"] by simp
qed

section \<open>Elapsed time\<close>

definition ulp :: rat where
  "ulp = 1 / 2 ^ 53"

lemma Seconds_parts:
  assumes "0 \<le> d" "d < 9223372036854775808"
  shows "Seconds d = rnd64 (of_int (d div 1000000000) + rnd64 (of_int (d mod 1000000000) / 1000000000))"
proof -
  have "d div 1000000000 < 2 ^ 53" using assms by (subst int_div_less_iff) simp_all
  then have "float_of_int (d div 1000000000) = of_int (d div 1000000000)"
    using assms(1) f64.exact_int [of "d div 1000000000"] by (simp add: float_of_int_def pos_imp_zdiv_nonneg_iff)
  moreover have "0 \<le> d mod 1000000000" "d mod 1000000000 \<le> 1000000000" by simp_all
  then have "float_of_int (d mod 1000000000) = of_int (d mod 1000000000)"
    using f64.exact_int [of "d mod 1000000000"] by (simp add: float_of_int_def)
  ultimately show ?thesis using assms(1) by (cases "d = 0") (simp_all add: Seconds_def Let_def fadd_def fdiv_def)
qed

lemma nanos_le: "of_int (d mod 1000000000) / 1000000000 \<le> (1 :: rat)" "0 \<le> of_int (d mod 1000000000) / (1000000000 :: rat)"
proof -
  have "d mod 1000000000 \<le> 1000000000" "0 \<le> d mod 1000000000" by simp_all
  then have "of_int (d mod 1000000000) \<le> (of_int 1000000000 :: rat)" "(of_int 0 :: rat) \<le> of_int (d mod 1000000000)"
    by (simp_all only: of_int_le_iff)
  then show "of_int (d mod 1000000000) / 1000000000 \<le> (1 :: rat)" "0 \<le> of_int (d mod 1000000000) / (1000000000 :: rat)" by simp_all
qed

lemma Seconds_mono:
  assumes "0 \<le> d" "d \<le> d'" "d' < 9223372036854775808"
  shows "Seconds d \<le> Seconds d'"
proof -
  let ?s = "\<lambda>d. of_int (d div 1000000000) + rnd64 (of_int (d mod 1000000000) / 1000000000) :: rat"
  have frac: "rnd64 (of_int (x mod 1000000000) / 1000000000) \<le> 1" "0 \<le> rnd64 (of_int (x mod 1000000000) / 1000000000)" for x
    using f64.below [OF f64.one nanos_le(1)] f64.nonneg [OF nanos_le(2)] by blast+
  have "?s d \<le> ?s d'"
  proof (cases "d div 1000000000 = d' div 1000000000")
    case True
    then have "d mod 1000000000 \<le> d' mod 1000000000"
      using assms(2) div_mult_mod_eq [of d 1000000000] div_mult_mod_eq [of d' 1000000000] by linarith
    then show ?thesis using True by (simp add: f64.mono divide_right_mono)
  next
    case False
    then have "d div 1000000000 + 1 \<le> d' div 1000000000" using zdiv_mono1 [OF assms(2), of 1000000000] by linarith
    then have "(of_int (d div 1000000000 + 1) :: rat) \<le> of_int (d' div 1000000000)" by (simp only: of_int_le_iff)
    then show ?thesis using frac(1) [of d] frac(2) [of d'] by simp
  qed
  then show ?thesis using assms by (simp add: Seconds_parts f64.mono)
qed

lemma Seconds_0 [simp]: "Seconds 0 = 0"
  by (simp add: Seconds_parts f64.zero)

lemma Seconds_nonneg: "0 \<le> d \<Longrightarrow> d < 9223372036854775808 \<Longrightarrow> 0 \<le> Seconds d"
  using Seconds_mono [of 0 d] by simp

lemma ulp_pos: "0 \<le> ulp"
  by (simp add: ulp_def)

lemma err: "0 \<le> x \<Longrightarrow> x \<le> y \<Longrightarrow> rnd64 x \<le> y * (1 + ulp)"
proof -
  assume "0 \<le> x" "x \<le> y"
  then have "x * (1 + ulp) \<le> y * (1 + ulp)" using ulp_pos by (intro mult_right_mono) auto
  then show ?thesis using f64.error [OF \<open>0 \<le> x\<close>] by (simp add: ulp_def)
qed

lemma Seconds_error:
  assumes "0 \<le> d" "d < 9223372036854775808"
  shows "Seconds d \<le> of_int d / 1000000000 * (1 + ulp) ^ 2"
proof -
  let ?q = "of_int (d div 1000000000) :: rat" and ?r = "of_int (d mod 1000000000) / 1000000000 :: rat"
  have "(of_int d :: rat) = of_int (d div 1000000000 * 1000000000 + d mod 1000000000)" by (simp only: div_mult_mod_eq)
  then have d: "of_int d / 1000000000 = ?q + ?r" by (simp only: of_int_add of_int_mult) (simp add: add_divide_distrib)
  have q: "0 \<le> ?q" using assms(1) by (simp add: pos_imp_zdiv_nonneg_iff)
  have "?q \<le> ?q * (1 + ulp)" using q ulp_pos by (simp add: distrib_left)
  moreover have "rnd64 ?r \<le> ?r * (1 + ulp)" using err [OF nanos_le(2) order_refl] .
  ultimately have "?q + rnd64 ?r \<le> (?q + ?r) * (1 + ulp)" unfolding distrib_right by linarith
  then have "rnd64 (?q + rnd64 ?r) \<le> (?q + ?r) * (1 + ulp) * (1 + ulp)"
    using q f64.nonneg [OF nanos_le(2), of d] by (intro err) auto
  then show ?thesis using assms by (simp add: Seconds_parts d power2_eq_square mult.assoc)
qed

section \<open>The invariant\<close>

definition bucket_ok :: "limiter \<Rightarrow> time \<Rightarrow> bucket \<Rightarrow> bool" where
  "bucket_ok l now b \<longleftrightarrow> rnd64 (tokens b) = tokens b \<and> 0 \<le> tokens b \<and> tokens b \<le> burst l \<and> b_last b \<le> now"

text \<open>What holds of a limiter whose clock has reached \<open>now\<close>.\<close>

definition limiter_ok :: "time \<Rightarrow> limiter \<Rightarrow> bool" where
  "limiter_ok now l \<longleftrightarrow> map_ok (buckets l) \<and> (0 < maxBuckets l \<longrightarrow> int (length (buckets l)) \<le> maxBuckets l)
     \<and> rnd64 (burst l) = burst l \<and> 0 \<le> burst l \<and> 0 \<le> rate l \<and> (\<forall>(key, b)\<in>set (buckets l). bucket_ok l now b)"

definition elapsed :: "time \<Rightarrow> bucket \<Rightarrow> int" where
  "elapsed now b = time_Sub now (b_last b)"

lemma elapsed_range: "b_last b \<le> now \<Longrightarrow> 0 \<le> elapsed now b \<and> elapsed now b < 9223372036854775808 \<and> elapsed now b \<le> now - b_last b"
  by (auto simp: elapsed_def time_Sub_def)

lemma elapsed_mono: "now \<le> now' \<Longrightarrow> elapsed now b \<le> elapsed now' b"
  by (auto simp: elapsed_def time_Sub_def)

definition income :: "limiter \<Rightarrow> time \<Rightarrow> bucket \<Rightarrow> rat" where
  "income l now b = rnd64 (Seconds (elapsed now b) * rate l)"

lemma refill_tokens: "tokens (refill l now b) = min (burst l) (rnd64 (tokens b + income l now b))"
  by (auto simp: refill_def income_def elapsed_def fadd_def fmul_def Let_def)

lemma income_nonneg: "b_last b \<le> now \<Longrightarrow> 0 \<le> rate l \<Longrightarrow> 0 \<le> income l now b"
  using Seconds_nonneg elapsed_range by (simp add: income_def f64.nonneg)

lemma bucket_ok_refill:
  assumes "bucket_ok l now0 b" "now0 \<le> now" "rnd64 (burst l) = burst l" "0 \<le> burst l" "0 \<le> rate l"
  shows "bucket_ok l now (refill l now b)"
proof -
  have "0 \<le> rnd64 (tokens b + income l now b)"
    using assms income_nonneg [of b now l] by (intro f64.nonneg) (simp add: bucket_ok_def)
  then have "0 \<le> tokens (refill l now b)" using assms(4) by (simp add: refill_tokens)
  moreover have "rnd64 (tokens (refill l now b)) = tokens (refill l now b)"
    using assms(3) f64.idem by (simp add: refill_tokens min_def)
  moreover have "b_last (refill l now b) = now" by (simp add: refill_def Let_def)
  ultimately show ?thesis by (simp add: bucket_ok_def refill_tokens)
qed

lemma set_map_put_subset: "set (map_put k v m) \<subseteq> insert (k, v) (set m)"
  by (induction k v m rule: map_put.induct) auto

lemma length_map_put: "map_ok m \<Longrightarrow> length (map_put k v m) = length m + of_bool (map_of m k = None)"
proof (induction k v m rule: map_put.induct)
  case (2 k v k' v' m)
  have "map_of m k = None" if "k < k'"
  proof -
    have "\<forall>x\<in>fst ` set m. k' < x" using 2(2) by (auto simp: map_ok_def)
    then show ?thesis using that by (auto simp: map_of_eq_None_iff)
  qed
  then show ?case using 2 by (auto simp: map_ok_def)
qed simp

lemma limiter_ok_put:
  assumes "limiter_ok now l" "now \<le> now'" "bucket_ok l now' b" "map_of (buckets l) key = None \<longrightarrow> \<not> bucket_full l"
  shows "limiter_ok now' (l\<lparr>buckets := map_put key b (buckets l)\<rparr>)"
proof -
  have ok: "map_ok (buckets l)" "\<forall>(k, b)\<in>set (buckets l). bucket_ok l now b" using assms(1) by (simp_all add: limiter_ok_def)
  have "bucket_ok (l\<lparr>buckets := bs\<rparr>) now' c" if kc: "(k, c) \<in> set (map_put key b (buckets l))" for k c bs
  proof -
    consider "c = b" | "(k, c) \<in> set (buckets l)" using kc set_map_put_subset [of key b "buckets l"] by blast
    then show ?thesis using ok(2) assms(2,3) by cases (auto simp: bucket_ok_def)
  qed
  moreover have "0 < maxBuckets l \<longrightarrow> int (length (map_put key b (buckets l))) \<le> maxBuckets l"
    using assms(1,4) by (auto simp: limiter_ok_def bucket_full_def length_map_put)
  ultimately show ?thesis using assms(1) by (auto simp: limiter_ok_def map_ok_map_put)
qed

lemma limiter_ok_later: "limiter_ok now l \<Longrightarrow> now \<le> now' \<Longrightarrow> limiter_ok now' l"
  by (fastforce simp: limiter_ok_def bucket_ok_def)

text \<open>The bucket a call finds: the stored one refilled, or a new one.\<close>

definition current :: "limiter \<Rightarrow> time \<Rightarrow> string \<Rightarrow> bucket" where
  "current l now key =
     (case map_of (buckets l) key of None \<Rightarrow> \<lparr>tokens = burst l, b_last = now\<rparr> | Some b \<Rightarrow> refill l now b)"

definition spent :: "bucket \<Rightarrow> bucket" where
  "spent b = (if tokens b < 1 then b else b\<lparr>tokens := fsub (tokens b) 1\<rparr>)"

lemma allow_cases:
  obtains (untracked) "map_of (buckets l) (Key ip) = None" "bucket_full l" "allow now ip l = (True, l)"
  | (tracked) "map_of (buckets l) (Key ip) = None \<longrightarrow> \<not> bucket_full l"
    "allow now ip l = (1 \<le> tokens (current l now (Key ip)),
       l\<lparr>buckets := map_put (Key ip) (spent (current l now (Key ip))) (buckets l)\<rparr>)"
  by (cases "map_of (buckets l) (Key ip)"; cases "bucket_full l")
    (auto simp: allow_def current_def spend_def spent_def Let_def not_less)

lemma current_ok: "limiter_ok now l \<Longrightarrow> now \<le> now' \<Longrightarrow> bucket_ok l now' (current l now' key)"
proof (cases "map_of (buckets l) key")
  case (Some b)
  assume l: "limiter_ok now l" "now \<le> now'"
  then have "bucket_ok l now b" using map_of_SomeD [OF Some] by (auto simp: limiter_ok_def)
  then show ?thesis using l bucket_ok_refill Some by (simp add: current_def limiter_ok_def)
qed (simp add: current_def bucket_ok_def limiter_ok_def)

lemma spent_ok: "bucket_ok l now b \<Longrightarrow> bucket_ok l now (spent b)"
  using f64.spend [of "tokens b"] f64.idem by (auto simp: bucket_ok_def spent_def fsub_def)

lemma limiter_ok_allow: "limiter_ok now l \<Longrightarrow> now \<le> now' \<Longrightarrow> limiter_ok now' (snd (allow now' ip l))"
proof (cases rule: allow_cases [of l ip now'])
  case tracked
  assume l: "limiter_ok now l" "now \<le> now'"
  show ?thesis using limiter_ok_put [OF l spent_ok [OF current_ok [OF l]] tracked(1)] tracked(2) by simp
qed (simp add: limiter_ok_later)

lemma limiter_ok_sweep: "limiter_ok now l \<Longrightarrow> now \<le> now' \<Longrightarrow> limiter_ok now' (sweep now' l)"
proof -
  assume l: "limiter_ok now l" "now \<le> now'"
  have "int (length (filter P (buckets l))) \<le> k" if "int (length (buckets l)) \<le> k" for P k
    using that length_filter_le [of P "buckets l"] by linarith
  moreover have "map_ok (filter P m)" if "map_ok m" for P and m :: "(string \<times> bucket) list"
    using that by (induction m) (auto simp: map_ok_def)
  ultimately show ?thesis using limiter_ok_later [OF l]
    by (auto simp: limiter_ok_def sweep_def bucket_ok_def)
qed

end
