(* ===== verification/Routes.thy ===== *)
theory Routes
  imports Prelude
begin

text \<open>
  Routes of \<open>src/proxy/proxy.go\<close>: \<open>ParseRoute\<close>, the flag value \<open>Routes\<close> and \<open>RemoteIP\<close>, with the parts
  of Go's library they call, \<open>net.SplitHostPort\<close> and \<open>strconv.Atoi\<close>.
\<close>

section \<open>Library\<close>

text \<open>\<open>net.SplitHostPort\<close>: the host and the port text, or the reason of the address error.\<close>

definition unbracketed :: "string \<Rightarrow> string \<Rightarrow> string \<Rightarrow> string \<Rightarrow> (string \<times> string) result" where
  "unbracketed rest1 rest2 host port =
     (if CHR ''['' \<in> set rest1 then Inl (External ''unexpected '[' in address'')
      else if CHR '']'' \<in> set rest2 then Inl (External ''unexpected ']' in address'')
      else Inr (host, port))"

definition SplitHostPort :: "string \<Rightarrow> (string \<times> string) result" where
  "SplitHostPort hostport =
     (case CutLast hostport (CHR '':'') of
        None \<Rightarrow> Inl (External ''missing port in address'')
      | Some (before, port) \<Rightarrow>
          if hd hostport = CHR ''['' then
            (case Cut hostport (CHR '']'') of
               None \<Rightarrow> Inl (External ''missing ']' in address'')
             | Some (inside, after) \<Rightarrow>
                 if after = [] then Inl (External ''missing port in address'')
                 else if before = inside @ '']'' then unbracketed (tl hostport) after (tl inside) port
                 else if hd after = CHR '':'' then Inl (External ''too many colons in address'')
                 else Inl (External ''missing port in address''))
          else if CHR '':'' \<in> set before then Inl (External ''too many colons in address'')
          else unbracketed hostport hostport before port)"

text \<open>
  \<open>strconv.Atoi\<close> on a 64-bit machine: the value, which callers may use even with an error.  The
  digit loop stops at the first byte that is no digit, or as soon as the value exceeds an
  unsigned 64-bit integer, whichever comes first.
\<close>

datatype atoi_error = ErrSyntax | ErrRange

fun atoi_loop :: "string \<Rightarrow> int \<Rightarrow> atoi_error + int" where
  "atoi_loop [] n = Inr n"
| "atoi_loop (c # cs) n =
     (if \<not> is_digit c then Inl ErrSyntax
      else if 18446744073709551615 < 10 * n + digit_val c then Inl ErrRange
      else atoi_loop cs (10 * n + digit_val c))"

definition atoi_sign :: "string \<Rightarrow> bool \<times> string" where
  "atoi_sign s =
     (case s of
        [] \<Rightarrow> (False, [])
      | c # cs \<Rightarrow> if c = CHR ''-'' then (True, cs) else if c = CHR ''+'' then (False, cs) else (False, s))"

definition Atoi :: "string \<Rightarrow> int \<times> atoi_error option" where
  "Atoi s =
     (let (neg, ds) = atoi_sign s; m = 9223372036854775808
      in if ds = [] then (0, Some ErrSyntax)
         else case atoi_loop ds 0 of
                Inl ErrSyntax \<Rightarrow> (0, Some ErrSyntax)
              | Inl ErrRange \<Rightarrow> (if neg then - m else m - 1, Some ErrRange)
              | Inr n \<Rightarrow>
                  if \<not> neg \<and> m \<le> n then (m - 1, Some ErrRange)
                  else if neg \<and> m < n then (- m, Some ErrRange)
                  else (if neg then - n else n, None))"

section \<open>Routes\<close>

record route =
  Listen :: string
  Backend :: string
  Port :: int

definition listen_port :: "string \<Rightarrow> int" where
  "listen_port listen =
     (case SplitHostPort listen of Inl _ \<Rightarrow> 0 | Inr (_, portText) \<Rightarrow> fst (Atoi portText))"

definition ParseRoute :: "string \<Rightarrow> route result" where
  "ParseRoute v =
     (case Cut v (CHR ''='') of
        None \<Rightarrow> Inl (Errorf ''route must be LISTEN=BACKEND, got %q'' [v])
      | Some (listen, backend) \<Rightarrow>
          if TrimSpace listen = [] \<or> TrimSpace backend = []
          then Inl (Errorf ''route must be LISTEN=BACKEND, got %q'' [v])
          else Inr \<lparr>Listen = listen, Backend = backend, Port = listen_port listen\<rparr>)"

definition route_text :: "route \<Rightarrow> string" where
  "route_text r = Listen r @ ''='' @ Backend r"

definition Routes_String :: "route list \<Rightarrow> string" where
  "Routes_String rs = join '','' (map route_text rs)"

definition Routes_Set :: "route list \<Rightarrow> string \<Rightarrow> (route list) result" where
  "Routes_Set rs v = (case ParseRoute v of Inl e \<Rightarrow> Inl e | Inr r \<Rightarrow> Inr (rs @ [r]))"

text \<open>A nil address is \<open>None\<close>; otherwise the address is what its \<open>String\<close> method returns.\<close>

definition RemoteIP :: "string option \<Rightarrow> string" where
  "RemoteIP addr =
     (case addr of
        None \<Rightarrow> []
      | Some a \<Rightarrow> (case SplitHostPort a of Inl _ \<Rightarrow> a | Inr (host, _) \<Rightarrow> host))"

section \<open>Ports\<close>

lemma digit_val_bounds: "is_digit c \<Longrightarrow> 0 \<le> digit_val c \<and> digit_val c \<le> 9"
  by (simp add: is_digit_def digit_val_def)

lemma not_digits: "\<not> is_digit (CHR '':'')" "\<not> is_digit (CHR ''['')" "\<not> is_digit (CHR '']'')"
  by code_simp+

lemma digits_val_Cons: "foldl (\<lambda>a c. 10 * a + digit_val c) n s = n * 10 ^ length s + digits_val s"
proof (induction s arbitrary: n)
  case (Cons c s)
  show ?case using Cons [of "10 * n + digit_val c"] Cons [of "digit_val c"]
    by (simp add: digits_val_def algebra_simps)
qed simp

lemma digits_val_nonneg: "\<forall>c\<in>set s. is_digit c \<Longrightarrow> 0 \<le> digits_val s"
  by (induction s rule: rev_induct) (auto dest: digit_val_bounds)

lemma atoi_loop_digits:
  assumes "\<forall>c\<in>set s. is_digit c" "0 \<le> n" "foldl (\<lambda>a c. 10 * a + digit_val c) n s \<le> 18446744073709551615"
  shows "atoi_loop s n = Inr (foldl (\<lambda>a c. 10 * a + digit_val c) n s)"
  using assms
proof (induction s arbitrary: n)
  case (Cons c s)
  let ?n = "10 * n + digit_val c"
  have n: "0 \<le> ?n" using Cons.prems digit_val_bounds [of c] by simp
  have "?n \<le> ?n * 10 ^ length s" using mult_left_mono [OF _ n, of 1 "10 ^ length s"] by simp
  moreover have "?n * 10 ^ length s \<le> 18446744073709551615"
    using Cons.prems digits_val_nonneg [of s] by (simp add: digits_val_Cons [of ?n])
  ultimately have "\<not> 18446744073709551615 < ?n" by linarith
  with Cons n show ?case by simp
qed simp

lemma Atoi_dec: "0 \<le> n \<Longrightarrow> n < 9223372036854775808 \<Longrightarrow> Atoi (dec n) = (n, None)"
proof -
  assume n: "0 \<le> n" "n < 9223372036854775808"
  have digits: "\<forall>c\<in>set (dec n). is_digit c" using dec_digits [OF n(1)] by blast
  then have "atoi_loop (dec n) 0 = Inr n"
    using atoi_loop_digits [OF digits] digits_val_dec [OF n(1)] n by (simp add: digits_val_def)
  moreover have "atoi_sign (dec n) = (False, dec n)"
    using digits by (auto simp: atoi_sign_def is_digit_def split: list.splits)
  ultimately show ?thesis using n by (simp add: Atoi_def)
qed

lemma Atoi_range: "- 9223372036854775808 \<le> fst (Atoi s) \<and> fst (Atoi s) \<le> 9223372036854775807"
proof -
  have "0 \<le> n \<Longrightarrow> atoi_loop ds n = Inr k \<Longrightarrow> 0 \<le> k" for ds n k
    by (induction ds n rule: atoi_loop.induct) (auto split: if_splits dest: digit_val_bounds)
  then have "0 \<le> k" if "atoi_loop ds 0 = Inr k" for ds k using that by blast
  then show ?thesis
    by (auto simp: Atoi_def Let_def split: prod.splits sum.splits atoi_error.splits) fastforce+
qed

lemma SplitHostPort_plain:
  assumes "CHR '':'' \<notin> set port" "CHR '':'' \<notin> set host" "set ''[]'' \<inter> set (host @ port) = {}"
  shows "SplitHostPort (host @ '':'' @ port) = Inr (host, port)"
proof -
  have "hd (host @ '':'' @ port) \<noteq> CHR ''[''" using assms by (cases host) auto
  then show ?thesis using assms by (auto simp: SplitHostPort_def CutLast_append unbracketed_def)
qed

lemma SplitHostPort_bracketed:
  assumes "CHR '':'' \<notin> set port" "set ''[]'' \<inter> set (host @ port) = {}"
  shows "SplitHostPort (''['' @ host @ '']:'' @ port) = Inr (host, port)"
proof -
  have "CutLast ((''['' @ host @ '']'') @ CHR '':'' # port) (CHR '':'') = Some (''['' @ host @ '']'', port)"
    using assms(1) by (rule CutLast_append)
  moreover have "Cut ((''['' @ host) @ CHR '']'' # '':'' @ port) (CHR '']'') = Some (''['' @ host, '':'' @ port)"
    using assms by (intro Cut_append) auto
  ultimately show ?thesis using assms by (auto simp: SplitHostPort_def unbracketed_def)
qed

text \<open>C40: a route that parses is exactly its text, split at the first \<open>=\<close>: both sides are not blank,
  printing it and parsing it again gives the same route, and \<open>Set\<close> adds it at the end.
  Everything else is refused with an error that quotes the input.\<close>

theorem ParseRoute_spec:
  "(case ParseRoute v of
      Inr r \<Rightarrow> route_text r = v \<and> CHR ''='' \<notin> set (Listen r) \<and> TrimSpace (Listen r) \<noteq> [] \<and> TrimSpace (Backend r) \<noteq> []
        \<and> ParseRoute (route_text r) = Inr r \<and> Routes_Set rs v = Inr (rs @ [r])
    | Inl e \<Rightarrow> e = Errorf ''route must be LISTEN=BACKEND, got %q'' [v] \<and> Routes_Set rs v = Inl e
        \<and> (\<nexists>l b. v = l @ ''='' @ b \<and> CHR ''='' \<notin> set l \<and> TrimSpace l \<noteq> [] \<and> TrimSpace b \<noteq> []))"
proof (cases "Cut v (CHR ''='')")
  case None
  then show ?thesis by (auto simp: ParseRoute_def Routes_Set_def Cut_append)
next
  case (Some lb)
  obtain l b where lb: "lb = (l, b)" by (cases lb)
  note v = Cut_SomeD [OF Some [unfolded lb]]
  have same: "l' = l \<and> b' = b" if "v = l' @ CHR ''='' # b'" "CHR ''='' \<notin> set l'" for l' b'
    using Cut_append [OF that(2), of b'] Some lb that(1) by simp
  then show ?thesis using v Some lb by (auto simp: ParseRoute_def Routes_Set_def route_text_def)
qed

text \<open>The port of a route is the number its listen address ends in, for every port number and both
  notations of a host; a listen address that is no host and port has port zero.\<close>

theorem listen_port_spec:
  assumes "0 \<le> n" "n \<le> 65535" "set ''[]'' \<inter> set host = {}"
  shows "(CHR '':'' \<notin> set host \<longrightarrow> listen_port (host @ '':'' @ dec n) = n)
    \<and> listen_port (''['' @ host @ '']:'' @ dec n) = n
    \<and> (CHR '':'' \<notin> set host \<longrightarrow> listen_port host = 0)"
proof -
  have no: "CHR '':'' \<notin> set (dec n)" "set ''[]'' \<inter> set (dec n) = {}"
    using dec_digits [OF assms(1)] not_digits by auto
  have a: "fst (Atoi (dec n)) = n" using Atoi_dec [of n] assms by simp
  have "listen_port host = 0" if "CHR '':'' \<notin> set host"
    using that by (simp add: listen_port_def SplitHostPort_def CutLast_def Cut_None)
  then show ?thesis
    using SplitHostPort_plain [OF no(1), of host] SplitHostPort_bracketed [OF no(1), of host] a no(2) assms(3)
    by (auto simp: listen_port_def)
qed

theorem listen_port_spec_witness: "listen_port ''[::1]:8443'' = 8443 \<and> listen_port ''gate:22'' = 22"
proof -
  have "dec 8443 = ''8443''" "dec 22 = ''22''" by code_simp+
  then show ?thesis using listen_port_spec [of 8443 "''::1''"] listen_port_spec [of 22 "''gate''"] by simp
qed

text \<open>The text of a port that is no port number is not always zero: digits beyond 64 bits become the
  largest integer.\<close>

theorem listen_port_saturates: "listen_port '':99999999999999999999'' = 9223372036854775807"
  by code_simp

end
