(* ===== verification/SyncConfig.thy ===== *)
theory SyncConfig
  imports Opening RateLimit Routes
begin

text \<open>
  The configuration of the control-plane client (\<open>src/controlplane/controlplane.go\<close>): \<open>Config\<close>, its
  validation and sync interval, and the endpoint addresses.  \<open>time.ParseDuration\<close> and the query part
  of \<open>net/url\<close> are modelled; parsing and printing a whole URL are arguments (\<open>url_lib\<close>).
\<close>

section \<open>Durations\<close>

text \<open>\<open>leadingInt\<close> fails when the number exceeds \<open>2^63\<close>.\<close>

fun leadingInt :: "string \<Rightarrow> int \<Rightarrow> (int \<times> string) option" where
  "leadingInt [] x = Some (x, [])"
| "leadingInt (c # cs) x =
     (if \<not> is_digit c then Some (x, c # cs)
      else if 922337203685477580 < x then None
      else if 9223372036854775808 < 10 * x + digit_val c then None
      else leadingInt cs (10 * x + digit_val c))"

text \<open>\<open>leadingFraction\<close> drops the digits beyond an overflow; the scale is a \<open>float64\<close>.\<close>

fun leadingFraction :: "string \<Rightarrow> int \<Rightarrow> rat \<Rightarrow> bool \<Rightarrow> int \<times> rat \<times> string" where
  "leadingFraction [] x scale overflow = (x, scale, [])"
| "leadingFraction (c # cs) x scale overflow =
     (if \<not> is_digit c then (x, scale, c # cs)
      else if overflow then leadingFraction cs x scale True
      else if 922337203685477580 < x then leadingFraction cs x scale True
      else if 9223372036854775808 < 10 * x + digit_val c then leadingFraction cs x scale True
      else leadingFraction cs (10 * x + digit_val c) (fmul scale 10) False)"

definition unitMap :: "(string \<times> int) list" where
  "unitMap = [(''ns'', 1), (''us'', 1000), ([CHR 0xC2, CHR 0xB5, CHR ''s''], 1000), ([CHR 0xCE, CHR 0xBC, CHR ''s''], 1000),
     (''ms'', 1000000), (''s'', 1000000000), (''m'', 60000000000), (''h'', 3600000000000)]"

definition in_unit :: "char \<Rightarrow> bool" where
  "in_unit c \<longleftrightarrow> c \<noteq> CHR ''.'' \<and> \<not> is_digit c"

text \<open>One number with its unit: its value in nanoseconds and the rest of the text.\<close>

definition duration_part :: "string \<Rightarrow> (int \<times> string) option" where
  "duration_part s =
     (if s = [] \<or> in_unit (hd s) then None
      else case leadingInt s 0 of
        None \<Rightarrow> None
      | Some (v, s1) \<Rightarrow>
          (let (f, scale, s2) = (if s1 \<noteq> [] \<and> hd s1 = CHR ''.'' then leadingFraction (tl s1) 0 1 False else (0, 1, s1));
               pre = length s1 < length s;
               post = s1 \<noteq> [] \<and> hd s1 = CHR ''.'' \<and> length s2 < length (tl s1)
           in if \<not> pre \<and> \<not> post then None
              else case map_of unitMap (takeWhile in_unit s2) of
                     None \<Rightarrow> None
                   | Some unit \<Rightarrow>
                       if 9223372036854775808 div unit < v then None
                       else let v' = v * unit + (if 0 < f then \<lfloor>fmul (float_of_int f) (fdiv (float_of_int unit) scale)\<rfloor> else 0)
                            in if 0 < f \<and> 9223372036854775808 < v' then None
                               else Some (v', dropWhile in_unit s2)))"

lemma leadingInt_length: "leadingInt s x = Some (v, r) \<Longrightarrow> length r \<le> length s"
  by (induction s x rule: leadingInt.induct) (auto split: if_splits)

lemma leadingFraction_length: "leadingFraction s x sc ov = (f, sc', r) \<Longrightarrow> length r \<le> length s"
  by (induction s x sc ov rule: leadingFraction.induct) (auto split: if_splits)

lemma duration_part_length: "duration_part s = Some (v, r) \<Longrightarrow> length r < length s"
proof -
  assume run: "duration_part s = Some (v, r)"
  then obtain v1 s1 where s1: "leadingInt s 0 = Some (v1, s1)" by (auto simp: duration_part_def split: if_splits option.splits)
  obtain f sc s2 where s2: "(if s1 \<noteq> [] \<and> hd s1 = CHR ''.'' then leadingFraction (tl s1) 0 1 False else (0, 1, s1)) = (f, sc, s2)"
    by (metis prod_cases3)
  have le: "length s2 \<le> length s1" using s2 leadingFraction_length [of "tl s1" 0 1 False f sc s2] by (auto split: if_splits)
  have res: "map_of unitMap (takeWhile in_unit s2) \<noteq> None" "r = dropWhile in_unit s2"
    using run s1 s2 by (auto simp: duration_part_def Let_def split: if_splits option.splits)
  then have "takeWhile in_unit s2 \<noteq> []" by (auto simp: unitMap_def)
  then have "length (dropWhile in_unit s2) < length s2"
    by (metis append_eq_conv_conj length_append length_greater_0_conv less_add_same_cancel2 takeWhile_dropWhile_id)
  also have "\<dots> \<le> length s" using le leadingInt_length [OF s1] by (rule order_trans)
  finally show ?thesis using res(2) by simp
qed

text \<open>The sum is a \<open>uint64\<close>.\<close>

function duration_sum :: "string \<Rightarrow> int \<Rightarrow> int option" where
  "duration_sum s d =
     (if s = [] then Some d
      else case duration_part s of
             None \<Rightarrow> None
           | Some (v, rest) \<Rightarrow>
               let d' = (d + v) mod 18446744073709551616
               in if 9223372036854775808 < d' then None else duration_sum rest d')"
  by pat_completeness auto
termination
  by (relation "measure (\<lambda>(s, d). length s)") (auto dest: duration_part_length)

declare duration_sum.simps [simp del]

definition ParseDuration :: "string \<Rightarrow> int result" where
  "ParseDuration orig =
     (let neg = (orig \<noteq> [] \<and> hd orig = CHR ''-'');
          s = (if orig \<noteq> [] \<and> (hd orig = CHR ''-'' \<or> hd orig = CHR ''+'') then tl orig else orig)
      in if s = ''0'' then Inr 0
         else if s = [] then Inl (Errorf ''time: invalid duration %q'' [orig])
         else case duration_sum s 0 of
                None \<Rightarrow> Inl (Errorf ''time: invalid duration %q'' [orig])
              | Some d \<Rightarrow>
                  if neg then Inr (- d)
                  else if 9223372036854775807 < d then Inl (Errorf ''time: invalid duration %q'' [orig])
                  else Inr d)"

section \<open>Configuration\<close>

text \<open>\<open>Config\<close>, except that its callback \<open>ApplyTrustedRanges\<close> is part of the environment of \<open>ControlPlane\<close>.\<close>

record config =
  cSupportsApprovalRanges :: bool
  cURL :: string
  cInstanceID :: string
  cToken :: string
  cClientCert :: string
  cClientKey :: string
  cCA :: string
  cServerName :: string
  cSyncInterval :: string

text \<open>The parts of a URL the code reads or writes; \<open>uRest\<close> stands for everything else in it.\<close>

record url =
  uScheme :: string
  uHostname :: string
  uHasUser :: bool
  uFragment :: string
  uPath :: string
  uRawQuery :: string
  uRest :: string

record url_lib =
  ParseRequestURI :: "string \<Rightarrow> url result"
  Parse :: "string \<Rightarrow> url result"
  URL_String :: "url \<Rightarrow> string"

definition Enabled :: "config \<Rightarrow> bool" where
  "Enabled cfg \<longleftrightarrow> TrimSpace (cURL cfg) \<noteq> []"

text \<open>\<open>strings.EqualFold\<close> with \<open>https\<close>: letter case, and the long s that folds to \<open>s\<close>.\<close>

fun fold_https :: "string \<Rightarrow> string" where
  "fold_https [] = []"
| "fold_https (c # d # cs) = (if c = CHR 0xC5 \<and> d = CHR 0xBF then CHR ''s'' # fold_https cs else fold_case c # fold_https (d # cs))"
| "fold_https [c] = [fold_case c]"

definition EqualFold_https :: "string \<Rightarrow> bool" where
  "EqualFold_https s \<longleftrightarrow> fold_https s = ''https''"

definition Config_Validate :: "url_lib \<Rightarrow> config \<Rightarrow> unit result" where
  "Config_Validate lib cfg =
     (if cInstanceID cfg = [] then Inl (Errorf ''control_plane.instance_id is required'' [])
      else if cToken cfg = [] \<and> (cClientCert cfg = [] \<or> cClientKey cfg = [] \<or> cCA cfg = [])
      then Inl (Errorf ''control_plane.token or client_cert, client_key, and ca are required'' [])
      else case ParseRequestURI lib (cURL cfg) of
             Inl e \<Rightarrow> Inl (Wrap ''control_plane.url'' e)
           | Inr u \<Rightarrow>
               if uScheme u = [] \<or> \<not> EqualFold_https (uScheme u) \<or> uHostname u = [] \<or> uHasUser u \<or> uFragment u \<noteq> []
               then Inl (Errorf ''control_plane.url must be an absolute https URL without userinfo or fragment'' [])
               else if cSyncInterval cfg \<noteq> []
               then (case ParseDuration (cSyncInterval cfg) of
                       Inl e \<Rightarrow> Inl (Wrap ''control_plane.sync_interval'' e)
                     | Inr _ \<Rightarrow> Inr ())
               else Inr ())"

definition DefaultSyncInterval :: int where
  "DefaultSyncInterval = 30000000000"

definition Interval :: "config \<Rightarrow> int" where
  "Interval cfg =
     (if cSyncInterval cfg = [] then DefaultSyncInterval
      else case ParseDuration (cSyncInterval cfg) of
             Inl _ \<Rightarrow> DefaultSyncInterval
           | Inr d \<Rightarrow> if d \<le> 0 then DefaultSyncInterval else d)"

section \<open>Endpoints\<close>

text \<open>\<open>url.QueryUnescape\<close>, \<open>url.ParseQuery\<close> without its error, \<open>Values.Set\<close> and \<open>Values.Encode\<close>.\<close>

fun query_unescape :: "string \<Rightarrow> string option" where
  "query_unescape [] = Some []"
| "query_unescape (c # cs) =
     (if c = CHR ''%'' then
        (case cs of
           a # b # rest \<Rightarrow>
             (case (hex_nibble a, hex_nibble b) of
                (Some m, Some n) \<Rightarrow> map_option (\<lambda>r. char_of (16 * m + n) # r) (query_unescape rest)
              | _ \<Rightarrow> None)
         | _ \<Rightarrow> None)
      else map_option (\<lambda>r. (if c = CHR ''+'' then CHR '' '' else c) # r) (query_unescape cs))"

fun split_amp :: "string \<Rightarrow> string list" where
  "split_amp [] = [[]]"
| "split_amp (c # cs) = (if c = CHR ''&'' then [] # split_amp cs else (case split_amp cs of [] \<Rightarrow> [[c]] | x # xs \<Rightarrow> (c # x) # xs))"

definition query_pair :: "string \<Rightarrow> (string \<times> string) option" where
  "query_pair p =
     (if CHR '';'' \<in> set p \<or> p = [] then None
      else let (k, v) = (case Cut p (CHR ''='') of None \<Rightarrow> (p, []) | Some kv \<Rightarrow> kv)
           in case (query_unescape k, query_unescape v) of (Some k', Some v') \<Rightarrow> Some (k', v') | _ \<Rightarrow> None)"

definition add_value :: "string \<times> string \<Rightarrow> (string \<times> string list) list \<Rightarrow> (string \<times> string list) list" where
  "add_value kv m = map_put (fst kv) ((case map_of m (fst kv) of None \<Rightarrow> [] | Some vs \<Rightarrow> vs) @ [snd kv]) m"

definition ParseQuery :: "string \<Rightarrow> (string \<times> string list) list" where
  "ParseQuery q = fold add_value (List.map_filter query_pair (split_amp q)) []"

definition Values_Encode :: "(string \<times> string list) list \<Rightarrow> string" where
  "Values_Encode m = join ''&'' (concat (map (\<lambda>(k, vs). map (\<lambda>v. query_escape k @ ''='' @ query_escape v) vs) m))"

definition TrimRight_slash :: "string \<Rightarrow> string" where
  "TrimRight_slash s = rev (dropWhile (\<lambda>c. c = CHR ''/'') (rev s))"

definition endpoint :: "string \<Rightarrow> string \<Rightarrow> string \<Rightarrow> url \<Rightarrow> url" where
  "endpoint path instanceID since u =
     (let q = map_put ''instance_id'' [instanceID] (ParseQuery (uRawQuery u));
          q' = (if since \<noteq> [] then map_put ''since'' [since] q else q)
      in u\<lparr>uPath := TrimRight_slash (uPath u) @ path, uRawQuery := Values_Encode q'\<rparr>)"

definition endpointURL :: "url_lib \<Rightarrow> string \<Rightarrow> string \<Rightarrow> string \<Rightarrow> string \<Rightarrow> string result" where
  "endpointURL lib base path instanceID since =
     (case Parse lib base of
        Inl e \<Rightarrow> Inl e
      | Inr u \<Rightarrow> Inr (URL_String lib (endpoint path instanceID since u)))"

section \<open>The interval\<close>

lemma duration_sum_range: "0 \<le> d \<Longrightarrow> d \<le> 9223372036854775808 \<Longrightarrow> duration_sum s d = Some r \<Longrightarrow> 0 \<le> r \<and> r \<le> 9223372036854775808"
proof (induction s d rule: duration_sum.induct)
  case (1 s d)
  show ?case
  proof (cases "s = []")
    case True
    then show ?thesis using 1(2-4) by (simp add: duration_sum.simps)
  next
    case False
    then obtain v rest where p: "duration_part s = Some (v, rest)"
      and le: "(d + v) mod 18446744073709551616 \<le> 9223372036854775808"
      and r: "duration_sum rest ((d + v) mod 18446744073709551616) = Some r"
      using 1(4) by (subst (asm) duration_sum.simps) (auto simp: Let_def split: option.splits if_splits)
    show ?thesis using 1(1) [OF False p refl refl] le r by simp
  qed
qed

lemma leadingInt_digits:
  assumes "\<forall>c\<in>set ds. is_digit c" "0 \<le> x" "foldl (\<lambda>a c. 10 * a + digit_val c) x ds \<le> 9223372036"
  shows "leadingInt (ds @ ''s'') x = Some (foldl (\<lambda>a c. 10 * a + digit_val c) x ds, ''s'')"
  using assms
proof (induction ds arbitrary: x)
  case Nil
  have "\<not> is_digit (CHR ''s'')" by code_simp
  then show ?case by simp
next
  case (Cons c ds)
  let ?x = "10 * x + digit_val c"
  have "?x \<le> ?x * 10 ^ length ds"
    using mult_left_mono [of 1 "10 ^ length ds" ?x] Cons.prems digit_val_bounds [of c] by simp
  also have "\<dots> \<le> 9223372036" using Cons.prems digits_val_nonneg [of ds] by (simp add: digits_val_Cons [of ?x])
  finally have "?x \<le> 9223372036" .
  moreover have "0 \<le> ?x" "x \<le> ?x" using Cons.prems digit_val_bounds [of c] by simp_all
  ultimately show ?case using Cons by simp
qed

lemma duration_part_seconds:
  assumes "1 \<le> n" "n \<le> 9223372036"
  shows "duration_part (dec n @ ''s'') = Some (n * 1000000000, [])"
proof -
  have digits: "\<forall>c\<in>set (dec n). is_digit c" using dec_digits [of n] assms by simp
  have "leadingInt (dec n @ ''s'') 0 = Some (n, ''s'')"
    using leadingInt_digits [OF digits, of 0] digits_val_dec [of n] assms by (simp add: digits_val_def)
  moreover have "\<not> in_unit (hd (dec n @ ''s''))" using digits by (simp add: in_unit_def)
  moreover have "takeWhile in_unit ''s'' = ''s''" "dropWhile in_unit ''s'' = []" "map_of unitMap ''s'' = Some 1000000000" by code_simp+
  moreover have "length ''s'' < length (dec n @ ''s'')" by simp
  ultimately show ?thesis using assms by (simp add: duration_part_def Let_def)
qed

lemma ParseDuration_seconds:
  assumes "1 \<le> n" "n \<le> 9223372036"
  shows "ParseDuration (dec n @ ''s'') = Inr (n * 1000000000)"
proof -
  have digits: "\<forall>c\<in>set (dec n). is_digit c" using dec_digits [of n] assms by simp
  have "\<not> is_digit (CHR ''-'')" "\<not> is_digit (CHR ''+'')" by code_simp+
  moreover obtain c cs where dn: "dec n = c # cs" using dec_nonempty [of n] by (cases "dec n") auto
  moreover have "is_digit c" using digits dn by simp
  ultimately have "hd (dec n @ ''s'') \<noteq> CHR ''-''" "hd (dec n @ ''s'') \<noteq> CHR ''+''" by auto
  moreover have "length (dec n @ ''s'') \<noteq> length ''0''" by (simp add: dn)
  then have "dec n @ ''s'' \<noteq> ''0''" by (rule contrapos_nn) (rule arg_cong)
  moreover have "duration_sum (dec n @ ''s'') 0 = Some (n * 1000000000)"
    using duration_part_seconds [OF assms] assms by (subst duration_sum.simps) (simp add: duration_sum.simps [of "[]"] Let_def)
  ultimately show ?thesis using assms by (simp add: ParseDuration_def)
qed

lemma ParseDuration_range: "ParseDuration s = Inr d \<Longrightarrow> d < 9223372036854775808"
  using duration_sum_range [of 0] by (fastforce simp: ParseDuration_def Let_def split: if_splits option.splits)

text \<open>The sync interval is always usable: whatever text is configured, the ticker gets a positive
  64-bit duration, the default one when the text is absent, no duration, or not positive; and a
  plain number of seconds means that many seconds.\<close>

theorem Interval_spec:
  assumes "1 \<le> n" "n \<le> 9223372036"
  shows "0 < Interval cfg \<and> Interval cfg < 2 ^ 63
    \<and> Interval (cfg\<lparr>cSyncInterval := dec n @ ''s''\<rparr>) = n * 1000000000"
  using ParseDuration_range [of "cSyncInterval cfg"] ParseDuration_seconds [OF assms] assms
  by (auto simp: Interval_def DefaultSyncInterval_def split: sum.splits)

definition sample_config :: config where
  "sample_config = \<lparr>cSupportsApprovalRanges = True, cURL = ''https://hub.example'', cInstanceID = ''gate-1'', cToken = ''t0k'',
     cClientCert = [], cClientKey = [], cCA = [], cServerName = [], cSyncInterval = ''-1s''\<rparr>"

theorem Interval_spec_witness: "0 < Interval sample_config \<and> Interval (sample_config\<lparr>cSyncInterval := ''45s''\<rparr>) = 45000000000"
proof -
  have "dec 45 = ''45''" by code_simp
  then show ?thesis using Interval_spec [of 45 sample_config] by simp
qed

section \<open>Queries\<close>

definition escape_byte :: "char \<Rightarrow> string" where
  "escape_byte c = query_escape [c]"

lemma query_escape_Cons: "query_escape (c # s) = escape_byte c @ query_escape s"
  by (simp add: query_escape_def escape_byte_def)

lemma query_escape_Nil [simp]: "query_escape [] = []"
  by (simp add: query_escape_def)

lemma hex_upper: "n < 16 \<Longrightarrow> hex_nibble (''0123456789ABCDEF'' ! n) = Some n"
  "n < 16 \<Longrightarrow> ''0123456789ABCDEF'' ! n \<notin> {CHR ''&'', CHR ''='', CHR '';''}"
proof -
  have "\<forall>n\<in>set [0..<16]. hex_nibble (''0123456789ABCDEF'' ! n) = Some n \<and> ''0123456789ABCDEF'' ! n \<notin> {CHR ''&'', CHR ''='', CHR '';''}"
    by code_simp
  then show "n < 16 \<Longrightarrow> hex_nibble (''0123456789ABCDEF'' ! n) = Some n"
    "n < 16 \<Longrightarrow> ''0123456789ABCDEF'' ! n \<notin> {CHR ''&'', CHR ''='', CHR '';''}" by auto
qed

lemma escape_byte_cases:
  obtains (plain) "escape_byte c = [c]" "c \<notin> {CHR ''%'', CHR ''+'', CHR ''&'', CHR ''='', CHR '';''}"
  | (space) "c = CHR '' ''" "escape_byte c = ''+''"
  | (hex) "escape_byte c = [CHR ''%'', ''0123456789ABCDEF'' ! (of_char c div 16), ''0123456789ABCDEF'' ! (of_char c mod 16)]"
proof -
  let ?n = "of_char c :: nat"
  have not: "\<not> (is_digit d \<or> 65 \<le> (of_char d :: nat) \<and> (of_char d :: nat) \<le> 90 \<or> 97 \<le> (of_char d :: nat) \<and> (of_char d :: nat) \<le> 122 \<or> d \<in> set ''-_.~'')"
    if "d \<in> {CHR ''%'', CHR ''+'', CHR ''&'', CHR ''='', CHR '';''}" for d
    using that by (auto simp: is_digit_def)
  consider "is_digit c \<or> 65 \<le> ?n \<and> ?n \<le> 90 \<or> 97 \<le> ?n \<and> ?n \<le> 122 \<or> c \<in> set ''-_.~''"
    | "\<not> (is_digit c \<or> 65 \<le> ?n \<and> ?n \<le> 90 \<or> 97 \<le> ?n \<and> ?n \<le> 122 \<or> c \<in> set ''-_.~'')" "c = CHR '' ''"
    | "\<not> (is_digit c \<or> 65 \<le> ?n \<and> ?n \<le> 90 \<or> 97 \<le> ?n \<and> ?n \<le> 122 \<or> c \<in> set ''-_.~'')" "c \<noteq> CHR '' ''" by blast
  then show thesis
  proof cases
    case 1
    have "escape_byte c = [c]" unfolding escape_byte_def query_escape_def Let_def using 1 by simp
    then show ?thesis using plain not 1 by blast
  next
    case 2
    have "escape_byte c = ''+''" unfolding escape_byte_def query_escape_def Let_def using 2 by simp
    then show ?thesis using space 2 by blast
  next
    case 3
    have "escape_byte c = [CHR ''%'', ''0123456789ABCDEF'' ! (?n div 16), ''0123456789ABCDEF'' ! (?n mod 16)]"
      unfolding escape_byte_def query_escape_def Let_def if_not_P [OF 3(1)] if_not_P [OF 3(2)] list.map concat.simps append_Nil2 ..
    then show ?thesis by (rule hex)
  qed
qed

lemma nibbles: "(of_char c :: nat) div 16 < 16" "(of_char c :: nat) mod 16 < 16"
proof -
  have "(of_char c :: nat) < 256" using range_nat_of_char by auto
  then show "(of_char c :: nat) div 16 < 16" by (simp add: less_mult_imp_div_less)
qed simp

lemma escape_byte_special: "set (escape_byte c) \<inter> {CHR ''&'', CHR ''='', CHR '';''} = {}"
  using hex_upper(2) [OF nibbles(1) [of c]] hex_upper(2) [OF nibbles(2) [of c]] by (cases rule: escape_byte_cases [of c]) auto

lemma query_escape_special: "set (query_escape s) \<inter> {CHR ''&'', CHR ''='', CHR '';''} = {}"
proof (induction s)
  case (Cons c s)
  then show ?case using escape_byte_special [of c] by (simp only: query_escape_Cons set_append Int_Un_distrib2 Un_empty)
qed simp

lemma query_unescape_byte: "query_unescape (escape_byte c @ s) = map_option (\<lambda>r. c # r) (query_unescape s)"
proof (cases rule: escape_byte_cases [of c])
  case hex
  have "16 * (of_char c div 16) + of_char c mod 16 = (of_char c :: nat)" by simp
  then show ?thesis using hex_upper(1) [OF nibbles(1) [of c]] hex_upper(1) [OF nibbles(2) [of c]] by (simp add: hex)
qed simp_all

lemma query_unescape_escape [simp]: "query_unescape (query_escape s) = Some s"
  by (induction s) (simp_all add: query_escape_Cons query_unescape_byte)

lemma split_amp_one: "CHR ''&'' \<notin> set p \<Longrightarrow> split_amp p = [p]"
  by (induction p) auto

lemma split_amp_more: "CHR ''&'' \<notin> set p \<Longrightarrow> split_amp (p @ CHR ''&'' # q) = p # split_amp q"
  by (induction p) auto

lemma split_amp_join: "\<forall>p\<in>set ps. CHR ''&'' \<notin> set p \<Longrightarrow> ps \<noteq> [] \<Longrightarrow> split_amp (join ''&'' ps) = ps"
  by (induction "''&''" ps rule: join.induct) (simp_all add: split_amp_one split_amp_more)

lemma query_pair_escape: "query_pair (query_escape k @ ''='' @ query_escape v) = Some (k, v)"
proof -
  have "CHR ''='' \<notin> set (query_escape k)" "CHR '';'' \<notin> set (query_escape k @ ''='' @ query_escape v)"
    using query_escape_special [of k] query_escape_special [of v] by auto
  then show ?thesis by (simp add: query_pair_def Cut_append)
qed

definition value_pairs :: "(string \<times> string list) list \<Rightarrow> (string \<times> string) list" where
  "value_pairs m = concat (map (\<lambda>(k, vs). map (\<lambda>v. (k, v)) vs) m)"

lemma parsed_pairs: "List.map_filter query_pair (split_amp (Values_Encode m)) = value_pairs m"
proof -
  let ?enc = "\<lambda>(k, v). query_escape k @ ''='' @ query_escape v"
  have enc: "Values_Encode m = join ''&'' (map ?enc (value_pairs m))"
    by (simp add: Values_Encode_def value_pairs_def map_concat comp_def case_prod_unfold)
  have amp: "\<forall>p\<in>set (map ?enc (value_pairs m)). CHR ''&'' \<notin> set p" using query_escape_special by auto
  show ?thesis
  proof (cases "value_pairs m = []")
    case True
    then show ?thesis by (simp add: enc query_pair_def map_filter_simps)
  next
    case False
    have "List.map_filter query_pair (map ?enc ps) = ps" for ps
      by (induction ps) (auto simp: map_filter_simps query_pair_escape [simplified])
    then show ?thesis using split_amp_join [OF amp] False by (simp add: enc)
  qed
qed

definition values_ok :: "(string \<times> string list) list \<Rightarrow> bool" where
  "values_ok m \<longleftrightarrow> map_ok m \<and> (\<forall>(k, vs)\<in>set m. vs \<noteq> [])"

lemma add_values:
  "\<forall>k'\<in>fst ` set m. k' < k \<Longrightarrow> fold add_value (map (\<lambda>v. (k, v)) vs) m = (if vs = [] then m else m @ [(k, vs)])"
proof (induction vs rule: rev_induct)
  case (snoc v vs)
  have none: "map_of m k = None" using snoc.prems by (auto simp: map_of_eq_None_iff)
  have again: "map_put k x (m @ [(k, vs)]) = m @ [(k, x)]" for x using snoc.prems by (induction m) auto
  show ?case using snoc none again by (auto simp: add_value_def map_put_snoc map_add_def)
qed simp

lemma ParseQuery_Encode: "values_ok m \<Longrightarrow> ParseQuery (Values_Encode m) = m"
proof -
  have "fold add_value (value_pairs m) [] = m" if "values_ok m"
    using that
  proof (induction m rule: rev_induct)
    case (snoc kv m)
    obtain k vs where kv: "kv = (k, vs)" by (cases kv)
    have m: "values_ok m" "\<forall>k'\<in>fst ` set m. k' < k" "vs \<noteq> []"
      using snoc.prems kv by (auto simp: values_ok_def map_ok_def sorted_wrt_append)
    have "value_pairs (m @ [kv]) = value_pairs m @ map (\<lambda>v. (k, v)) vs" by (simp add: value_pairs_def kv)
    then show ?case using snoc.IH [OF m(1)] add_values [OF m(2)] m(3) kv by simp
  qed (simp add: value_pairs_def)
  then show "values_ok m \<Longrightarrow> ?thesis" by (simp add: ParseQuery_def parsed_pairs)
qed

lemma values_ok_put: "values_ok m \<Longrightarrow> vs \<noteq> [] \<Longrightarrow> values_ok (map_put k vs m)"
  using set_map_put_subset [of k vs m] by (fastforce simp: values_ok_def map_ok_map_put)

lemma values_ok_ParseQuery: "values_ok (ParseQuery q)"
proof -
  have "values_ok (fold add_value ps m)" if "values_ok m" for ps m
    using that by (induction ps arbitrary: m) (simp_all add: add_value_def values_ok_put)
  moreover have "values_ok []" by (simp add: values_ok_def map_ok_def)
  ultimately show ?thesis by (simp add: ParseQuery_def)
qed

text \<open>C36: an endpoint address carries what the syncer means: whatever instance id and cursor, decoding the query
  gives back exactly that id and, when there is one, exactly that cursor, every other parameter of
  the configured address is kept, and the path is the configured one without trailing slashes,
  followed by the path of the endpoint.\<close>

theorem endpoint_query:
  "map_of (ParseQuery (uRawQuery (endpoint path instanceID since u))) ''instance_id'' = Some [instanceID]
    \<and> map_of (ParseQuery (uRawQuery (endpoint path instanceID since u))) ''since'' =
        (if since = [] then map_of (ParseQuery (uRawQuery u)) ''since'' else Some [since])
    \<and> (\<forall>k. k = ''instance_id'' \<or> k = ''since'' \<or>
        map_of (ParseQuery (uRawQuery (endpoint path instanceID since u))) k = map_of (ParseQuery (uRawQuery u)) k)
    \<and> uPath (endpoint path instanceID since u) = TrimRight_slash (uPath u) @ path"
proof -
  let ?q = "map_put ''instance_id'' [instanceID] (ParseQuery (uRawQuery u))"
  have ok: "values_ok ?q" by (intro values_ok_put values_ok_ParseQuery) simp
  then have ok2: "values_ok (map_put ''since'' [since] ?q)" by (rule values_ok_put) simp
  have base: "map_ok (ParseQuery (uRawQuery u))" using values_ok_ParseQuery unfolding values_ok_def by blast
  have "map_ok ?q" using ok unfolding values_ok_def by blast
  then show ?thesis using ok ok2 base by (simp add: endpoint_def Let_def ParseQuery_Encode)
qed

end
