(* ===== verification/ControlPlane.thy ===== *)
theory ControlPlane
  imports SyncConfig
begin

text \<open>
  The syncer of \<open>src/controlplane/controlplane.go\<close>: pushing observations in pages and pulling policy.
  A sync operation runs over the store's tables, the syncer's own state, the requests it has sent,
  the trusted ranges it has handed over and the errors it has logged.  The server and the HTTP
  transport, the clock, the context, SHA-256, URL parsing and the certificate files are arguments:
  \<open>http\<close> answers the request a client makes at a call number, \<open>ctx_err\<close> is what the context reports
  then, and closing a response body fails when the fault argument says so.  A response body is the
  text that arrives before the stream ends or breaks.  \<open>pushMu\<close> makes one push at a time; no other
  writer changes the store during one operation.
\<close>

section \<open>The wire\<close>

record request =
  rqMethod :: string
  rqURL :: string
  rqHeader :: "(string \<times> string) list"
  rqBody :: string

record response =
  rsStatusCode :: int
  rsStatus :: string
  rsBody :: string

definition maxObservationValues :: int where
  "maxObservationValues = 128"

definition FullSyncInterval :: int where
  "FullSyncInterval = 900000000000"

record wire_observation =
  wApprovalRanges :: "scope option"
  wFingerprint :: string
  wStatus :: string
  wLabel :: string
  wFirstSeen :: string
  wLastSeen :: string
  wIPs :: "string list"
  wPorts :: "int list"
  wSightings :: "sighting list"
  wCount :: int
  wMetadata :: "(string \<times> json) list option"

definition limited :: "'a list \<Rightarrow> int \<Rightarrow> 'a list" where
  "limited values bound = (if bound \<le> 0 \<or> int (length values) \<le> bound then values else take (nat bound) values)"

definition toObservation :: "string \<Rightarrow> entry \<Rightarrow> wire_observation" where
  "toObservation fp e =
     \<lparr>wApprovalRanges = eApprovalRanges e, wFingerprint = fp, wStatus = eStatus e, wLabel = eLabel e,
      wFirstSeen = encodeTime (eFirstSeen e), wLastSeen = encodeTime (eLastSeen e),
      wIPs = limited (eIPs e) maxObservationValues, wPorts = limited (ePorts e) maxObservationValues,
      wSightings = limited (eSightings e) maxObservationValues, wCount = eCount e, wMetadata = eMeta e\<rparr>"

text \<open>
  The JSON of an observation, its members in the order of the struct; a member marked \<open>omitempty\<close> is
  left out when it is empty.  A scope that fails to validate cannot be encoded.
\<close>

definition jint :: "int \<Rightarrow> json" where
  "jint n = JNum (if n < 0 then ''-'' @ dec (- n) else dec n)"

definition member :: "string \<Rightarrow> bool \<Rightarrow> json \<Rightarrow> (string \<times> json) list" where
  "member key present v = (if present then [(key, v)] else [])"

definition scope_json :: "scope \<Rightarrow> json" where
  "scope_json sc = (case Scope_MarshalJSON sc of Inl _ \<Rightarrow> JOpaque | Inr _ \<Rightarrow> JArr (map JStr (Ranges (Some sc))))"

definition sighting_json :: "sighting \<Rightarrow> json" where
  "sighting_json s = JObj (member ''ip'' True (JStr (sIP s)) @ member ''port'' (sPort s \<noteq> 0) (jint (sPort s))
     @ member ''last_seen'' True (JStr (if sLastSeen s = 0 then [] else encodeTime (sLastSeen s))))"

definition observation_json :: "wire_observation \<Rightarrow> json" where
  "observation_json w = JObj
     (member ''approval_ranges'' (wApprovalRanges w \<noteq> None) (case wApprovalRanges w of None \<Rightarrow> JNull | Some sc \<Rightarrow> scope_json sc)
      @ member ''fingerprint'' True (JStr (wFingerprint w))
      @ member ''status'' True (JStr (wStatus w))
      @ member ''label'' (wLabel w \<noteq> []) (JStr (wLabel w))
      @ member ''first_seen'' (wFirstSeen w \<noteq> []) (JStr (wFirstSeen w))
      @ member ''last_seen'' (wLastSeen w \<noteq> []) (JStr (wLastSeen w))
      @ member ''ips'' (wIPs w \<noteq> []) (JArr (map JStr (wIPs w)))
      @ member ''ports'' (wPorts w \<noteq> []) (JArr (map jint (wPorts w)))
      @ member ''sightings'' (wSightings w \<noteq> []) (JArr (map sighting_json (wSightings w)))
      @ member ''count'' (wCount w \<noteq> 0) (jint (wCount w))
      @ (case wMetadata w of None \<Rightarrow> [] | Some m \<Rightarrow> member ''metadata'' (m \<noteq> []) (JObj m)))"

text \<open>A batch without observations has a nil slice, which is encoded as \<open>null\<close>.\<close>

definition batch_json :: "string \<Rightarrow> wire_observation list \<Rightarrow> json" where
  "batch_json instanceID obs = JObj [(''instance_id'', JStr instanceID),
     (''observations'', if obs = [] then JNull else JArr (map observation_json obs))]"

section \<open>State\<close>

text \<open>The client of \<open>newHTTPClient\<close>: its TLS configuration, redirect policy and timeout.\<close>

datatype redirect_policy = FollowRedirects | UseLastResponse

record http_client =
  hcMinVersion :: int
  hcServerName :: string
  hcCertificates :: "string list"
  hcRootCAs :: "string option"
  hcCheckRedirect :: redirect_policy
  hcTimeout :: int

text \<open>\<open>trusted\<close> lists the sets of ranges that \<open>ApplyTrustedRanges\<close> accepted, latest last.\<close>

record syncer =
  cursor :: string
  cursorKey :: string
  client :: http_client
  acknowledged :: "(string \<times> string) list"
  lastFullSync :: time

record world =
  store :: tables
  syncer :: syncer
  requests :: "(request \<times> response result) list"
  trusted :: "string list list"
  sync_log :: "(string \<times> error) list"

record sync_env =
  flt :: faults
  http :: "http_client \<Rightarrow> nat \<Rightarrow> request \<Rightarrow> response result"
  ctx_err :: "nat \<Rightarrow> error option"
  clock :: "nat \<Rightarrow> time"
  new_request_err :: "string \<Rightarrow> error option"
  sha256 :: "string \<Rightarrow> string"
  lib :: url_lib
  cfg :: config
  applyTrustedRanges :: "(string list \<Rightarrow> error option) option"
  loadX509KeyPair :: "string \<Rightarrow> string \<Rightarrow> string result"
  readFile :: "string \<Rightarrow> string result"
  appendCertsFromPEM :: "string \<Rightarrow> bool"

type_synonym 'a syncop = "(world, 'a) dbop"

definition onStore :: "'a storeop \<Rightarrow> 'a syncop" where
  "onStore m c =
     (case m \<lparr>tabs = store (tabs c), calls = calls c\<rparr> of
        (r, c') \<Rightarrow> (r, \<lparr>tabs = (tabs c)\<lparr>store := tabs c'\<rparr>, calls = calls c'\<rparr>))"

definition getD :: "('t \<Rightarrow> 'a) \<Rightarrow> ('t, 'a) dbop" where
  "getD q c = (Inr (q (tabs c)), c)"

definition modifyD :: "('t \<Rightarrow> 't) \<Rightarrow> ('t, unit) dbop" where
  "modifyD f c = (Inr (), c\<lparr>tabs := f (tabs c)\<rparr>)"

definition checkD :: "error option \<Rightarrow> ('t, unit) dbop" where
  "checkD failure = (case failure of None \<Rightarrow> retD () | Some e \<Rightarrow> raiseD e)"

definition ctxD :: "sync_env \<Rightarrow> unit syncop" where
  "ctxD env c = checkD (ctx_err env (calls c)) c"

definition nowD :: "sync_env \<Rightarrow> time syncop" where
  "nowD env c = (Inr (clock env (calls c)), c)"

definition clientDo :: "sync_env \<Rightarrow> request \<Rightarrow> response syncop" where
  "clientDo env req c =
     (let resp = http env (client (syncer (tabs c))) (calls c) req
      in (resp, \<lparr>tabs = (tabs c)\<lparr>requests := requests (tabs c) @ [(req, resp)]\<rparr>, calls = Suc (calls c)\<rparr>))"

definition setAuth :: "config \<Rightarrow> (string \<times> string) list" where
  "setAuth c =
     (if cSupportsApprovalRanges c then [(''X-Gatekit-Capabilities'', Capability)] else [])
     @ (if cToken c \<noteq> [] then [(''Authorization'', ''Bearer '' @ cToken c)] else [])"

section \<open>Pushing\<close>

definition check_status :: "string \<Rightarrow> string \<Rightarrow> response \<Rightarrow> unit result" where
  "check_status what instanceID resp =
     (if rsStatusCode resp = 403
      then Inl (Errorf (what @ '' returned %s (instance %q not registered with gatehub?)'') [rsStatus resp, instanceID])
      else if rsStatusCode resp div 100 \<noteq> 2 then Inl (Errorf (what @ '' returned %s'') [rsStatus resp])
      else Inr ())"

definition pushBatch :: "sync_env \<Rightarrow> wire_observation list \<Rightarrow> unit syncop" where
  "pushBatch env obs =
     bindD (liftD (json_Marshal (batch_json (cInstanceID (cfg env)) obs))) (\<lambda>body.
     bindD (liftD (endpointURL (lib env) (cURL (cfg env)) ''/v1/observations/batch'' (cInstanceID (cfg env)) [])) (\<lambda>address.
     bindD (checkD (new_request_err env address)) (\<lambda>_.
     bindD (clientDo env \<lparr>rqMethod = ''POST'', rqURL = address,
         rqHeader = (''Content-Type'', ''application/json'') # setAuth (cfg env), rqBody = body\<rparr>) (\<lambda>resp.
     closeWithError (flt env) ''close response body''
       (liftD (check_status ''POST observations'' (cInstanceID (cfg env)) resp))))))"

text \<open>The entries of a page, each with its observation and the hash of the observation's JSON.\<close>

definition encode_entry :: "sync_env \<Rightarrow> entry \<Rightarrow> (wire_observation \<times> string) result" where
  "encode_entry env e =
     (let obs = toObservation (eFingerprint e) e
      in case json_Marshal (observation_json obs) of Inl err \<Rightarrow> Inl err | Inr encoded \<Rightarrow> Inr (obs, sha256 env encoded))"

definition needs_push :: "bool \<Rightarrow> (string \<times> string) list \<Rightarrow> wire_observation \<times> string \<Rightarrow> bool" where
  "needs_push full ack oh \<longleftrightarrow> full \<or> map_of ack (wFingerprint (fst oh)) \<noteq> Some (snd oh)"

definition acknowledge :: "(wire_observation \<times> string) list \<Rightarrow> world \<Rightarrow> world" where
  "acknowledge ohs w = w\<lparr>syncer := (syncer w)\<lparr>acknowledged :=
     fold (\<lambda>(o', h). map_put (wFingerprint o') h) ohs (acknowledged (syncer w))\<rparr>\<rparr>"

text \<open>
  One turn of the loop: \<open>None\<close> is the break on an empty page; otherwise the fingerprints seen, and
  whether a batch was sent.
\<close>

definition push_page :: "sync_env \<Rightarrow> bool \<Rightarrow> string \<Rightarrow> string \<Rightarrow> ((string list \<times> bool) option) syncop" where
  "push_page env full through after =
     bindD (ctxD env) (\<lambda>_.
     bindD (onStore (ListPage (flt env) after through 16)) (\<lambda>entries.
       if entries = [] then retD None
       else bindD (liftD (scan_all (encode_entry env) entries)) (\<lambda>ohs.
            bindD (getD (\<lambda>w. filter (needs_push full (acknowledged (syncer w))) ohs)) (\<lambda>batch.
              if batch = [] then retD (Some (map eFingerprint entries, False))
              else bindD (pushBatch env (map fst batch)) (\<lambda>_.
                   bindD (modifyD (acknowledge batch)) (\<lambda>_.
                   retD (Some (map eFingerprint entries, True))))))))"


text \<open>
  The loop ends because a page starts after the previous one's last fingerprint and a push changes
  no row: the rows still to come get fewer.
\<close>

definition rows_after :: "string \<Rightarrow> string \<Rightarrow> tables \<Rightarrow> fp_row list" where
  "rows_after after through t = sort_key r_fp (filter (\<lambda>r. after < r_fp r \<and> r_fp r \<le> through) (fingerprints t))"

lemma onStore_Inr: "onStore m c = (Inr x, c') \<longleftrightarrow>
    (\<exists>c1. m \<lparr>tabs = store (tabs c), calls = calls c\<rparr> = (Inr x, c1) \<and> c' = \<lparr>tabs = (tabs c)\<lparr>store := tabs c1\<rparr>, calls = calls c1\<rparr>)"
  by (auto simp: onStore_def split: prod.splits)

lemma syncop_Inr:
  "getD q c = (Inr x, c') \<longleftrightarrow> x = q (tabs c) \<and> c' = c"
  "modifyD f c = (Inr u, c') \<longleftrightarrow> c' = c\<lparr>tabs := f (tabs c)\<rparr>"
  "checkD failure c = (Inr u, c') \<longleftrightarrow> failure = None \<and> c' = c"
  "nowD env c' = (Inr now, c'') \<longleftrightarrow> now = clock env (calls c') \<and> c'' = c'"
  "clientDo env req c2 = (Inr resp, c3) \<longleftrightarrow> http env (client (syncer (tabs c2))) (calls c2) req = Inr resp
     \<and> c3 = \<lparr>tabs = (tabs c2)\<lparr>requests := requests (tabs c2) @ [(req, Inr resp)]\<rparr>, calls = Suc (calls c2)\<rparr>"
  by (auto simp: getD_def modifyD_def checkD_def retD_def raiseD_def nowD_def clientDo_def Let_def split: option.splits)

lemma pushBatch_store: "pushBatch env obs c = (r, c') \<Longrightarrow> store (tabs c') = store (tabs c) \<and> syncer (tabs c') = syncer (tabs c)"
  by (auto simp: pushBatch_def bindD_def liftD_def checkD_def retD_def raiseD_def clientDo_def Let_def closeWithError_def
      split: sum.splits option.splits prod.splits)

lemma push_page_rows:
  assumes "push_page env full through after c = (Inr (Some (page, sent)), c')"
  shows "store (tabs c') = store (tabs c)" "page = map r_fp (page_rows after through 16 (store (tabs c)))" "page \<noteq> []"
proof -
  obtain es c1 where es: "onStore (ListPage (flt env) after through 16) c = (Inr es, c1)" "es \<noteq> []" and page: "page = map eFingerprint es"
    and c': "store (tabs c') = store (tabs c1)"
    using assms unfolding push_page_def bindD_Inr
    by (auto simp: ctxD_def bindD_Inr syncop_Inr liftD_Inr retD_Inr acknowledge_def dest: pushBatch_store split: if_splits)
  obtain c2 where c2: "ListPage (flt env) after through 16 \<lparr>tabs = store (tabs c), calls = calls c\<rparr> = (Inr es, c2)"
    "c1 = \<lparr>tabs = (tabs c)\<lparr>store := tabs c2\<rparr>, calls = calls c2\<rparr>"
    using es(1) unfolding onStore_Inr by blast
  show "store (tabs c') = store (tabs c)" "page = map r_fp (page_rows after through 16 (store (tabs c)))" "page \<noteq> []"
    using ListPage_Inr [OF c2(1)] c2(2) c' page es(2) by auto
qed

lemma rows_after_last:
  assumes "page = map r_fp (page_rows after through 16 t)" "page \<noteq> []"
  shows "length (rows_after (last page) through t) < length (rows_after after through t)"
proof -
  have "last page \<in> set page" using assms(2) by simp
  then obtain r where r: "r \<in> set (page_rows after through 16 t)" "r_fp r = last page" unfolding assms(1) by auto
  let ?rest = "filter (\<lambda>r. after < r_fp r \<and> r_fp r \<le> through) (fingerprints t)"
  have mem: "r \<in> set ?rest" "\<not> last page < r_fp r" and less: "after < last page"
    using page_rows_bounds [OF r(1)] r(2) by auto
  have eq: "filter (\<lambda>r. last page < r_fp r \<and> r_fp r \<le> through) (fingerprints t) = filter (\<lambda>r. last page < r_fp r) ?rest"
    using less by (auto intro: filter_cong)
  show ?thesis unfolding rows_after_def length_sort eq using mem(2) by (intro length_filter_less [OF mem(1)])
qed

lemma push_page_shorter:
  "push_page env full through after c = (Inr (Some (page, s)), c') \<Longrightarrow>
   length (rows_after (last page) through (store (tabs c'))) < length (rows_after after through (store (tabs c)))"
  using push_page_rows rows_after_last by metis

function push_loop :: "sync_env \<Rightarrow> bool \<Rightarrow> string \<Rightarrow> string \<Rightarrow> string list \<Rightarrow> bool \<Rightarrow> (string list \<times> bool) syncop" where
  "push_loop env full through after seen sent c =
     (case push_page env full through after c of
        (Inl e, c') \<Rightarrow> (Inl e, c')
      | (Inr None, c') \<Rightarrow> (Inr (seen, sent), c')
      | (Inr (Some (page, s)), c') \<Rightarrow> push_loop env full through (last page) (seen @ page) (sent \<or> s) c')"
  by pat_completeness auto
termination
  by (relation "measure (\<lambda>(env, full, through, after, seen, sent, c). length (rows_after after through (store (tabs c))))")
    (auto dest!: push_page_shorter [OF sym])

declare push_loop.simps [simp del]

definition full_due :: "time \<Rightarrow> time \<Rightarrow> bool" where
  "full_due started lastFull \<longleftrightarrow> lastFull = 0 \<or> FullSyncInterval \<le> time_Sub started lastFull"

text \<open>The end of a push: drop what is no longer stored, and note a full one.\<close>

definition finish_push :: "string list \<Rightarrow> bool \<Rightarrow> time \<Rightarrow> world \<Rightarrow> world" where
  "finish_push seen full started w = w\<lparr>syncer := (syncer w)\<lparr>
     acknowledged := filter (\<lambda>(fp, h). fp \<in> set seen) (acknowledged (syncer w)),
     lastFullSync := (if full then started else lastFullSync (syncer w))\<rparr>\<rparr>"

definition pushObservations :: "sync_env \<Rightarrow> unit syncop" where
  "pushObservations env =
     bindD (nowD env) (\<lambda>started.
     bindD (getD (\<lambda>w. full_due started (lastFullSync (syncer w)))) (\<lambda>full.
     bindD (onStore (LastFingerprint (flt env))) (\<lambda>through.
     bindD (push_loop env full through [] [] False) (\<lambda>(seen, sent).
     bindD (if sent then retD () else pushBatch env []) (\<lambda>_.
     modifyD (finish_push seen full started))))))"

section \<open>Pulling\<close>

text \<open>
  The policy in a response.  A struct's member is found by its name, or by a name that differs in
  letter case; of two such names the model takes the exact one.  Unknown members are ignored, and
  \<open>null\<close> leaves the zero value.  A decoder reads one value and leaves what follows it.
\<close>

record policyResponse =
  pCursor :: string
  pDecisions :: "decision list"
  pTrustedRanges :: "string list option"

definition field :: "string \<Rightarrow> (string \<times> json) list \<Rightarrow> json" where
  "field name ms =
     (case map_of ms name of
        Some v \<Rightarrow> v
      | None \<Rightarrow> (case find (\<lambda>(k, v). map fold_case k = map fold_case name) (rev ms) of
                   Some (k, v) \<Rightarrow> v
                 | None \<Rightarrow> JNull))"

definition string_of_json :: "json \<Rightarrow> string result" where
  "string_of_json v =
     (case v of JNull \<Rightarrow> Inr [] | JStr s \<Rightarrow> Inr s | _ \<Rightarrow> Inl (Errorf ''json: cannot unmarshal into string'' []))"

definition scope_pointer_of_json :: "json \<Rightarrow> (scope option) result" where
  "scope_pointer_of_json v =
     (case v of
        JNull \<Rightarrow> Inr None
      | _ \<Rightarrow> (case scope_of_json v of Inl e \<Rightarrow> Inl e | Inr s \<Rightarrow> Inr (Some s)))"

definition members_of :: "json \<Rightarrow> ((string \<times> json) list) result" where
  "members_of v = (case v of JNull \<Rightarrow> Inr [] | JObj ms \<Rightarrow> Inr ms | _ \<Rightarrow> Inl (Errorf ''json: cannot unmarshal into struct'' []))"

definition elements_of :: "json \<Rightarrow> (json list) result" where
  "elements_of v = (case v of JNull \<Rightarrow> Inr [] | JArr vs \<Rightarrow> Inr vs | _ \<Rightarrow> Inl (Errorf ''json: cannot unmarshal into slice'' []))"

definition bindR :: "'a result \<Rightarrow> ('a \<Rightarrow> 'b result) \<Rightarrow> 'b result" where
  "bindR r k = (case r of Inl e \<Rightarrow> Inl e | Inr x \<Rightarrow> k x)"

definition decision_of_json :: "json \<Rightarrow> decision result" where
  "decision_of_json v =
     bindR (members_of v) (\<lambda>ms.
     bindR (string_of_json (field ''fingerprint'' ms)) (\<lambda>fp.
     bindR (string_of_json (field ''status'' ms)) (\<lambda>status.
     bindR (string_of_json (field ''label'' ms)) (\<lambda>label.
     bindR (scope_pointer_of_json (field ''approval_ranges'' ms)) (\<lambda>ranges.
     Inr \<lparr>dFingerprint = fp, dStatus = status, dLabel = label, dApprovalRanges = ranges\<rparr>)))))"

definition policy_of_json :: "json \<Rightarrow> policyResponse result" where
  "policy_of_json v =
     bindR (members_of v) (\<lambda>ms.
     bindR (string_of_json (field ''cursor'' ms)) (\<lambda>cur.
     bindR (bindR (elements_of (field ''decisions'' ms)) (scan_all decision_of_json)) (\<lambda>ds.
     bindR (case field ''trusted_ranges'' ms of
              JNull \<Rightarrow> Inr None
            | w \<Rightarrow> bindR (strings_of_json w) (\<lambda>rs. Inr (Some rs))) (\<lambda>tr.
     Inr \<lparr>pCursor = cur, pDecisions = ds, pTrustedRanges = tr\<rparr>))))"

definition Decode_policy :: "string \<Rightarrow> policyResponse result" where
  "Decode_policy body =
     (case jvalue (Suc (length body)) body of
        None \<Rightarrow> Inl (Errorf ''json: invalid syntax'' [])
      | Some (v, rest) \<Rightarrow> policy_of_json v)"

text \<open>The loop over the decisions of a policy, before anything is applied.\<close>

definition check_decision :: "config \<Rightarrow> decision \<Rightarrow> unit result" where
  "check_decision c d =
     (case Decision_Validate d of
        Inl e \<Rightarrow> Inl (Wrap ''invalid policy'' e)
      | Inr _ \<Rightarrow> if dApprovalRanges d \<noteq> None \<and> \<not> cSupportsApprovalRanges c
                 then Inl (Errorf ''gate does not enforce approval_ranges'' [])
                 else Inr ())"

definition apply_trusted :: "sync_env \<Rightarrow> string list option \<Rightarrow> unit syncop" where
  "apply_trusted env ranges =
     (case (ranges, applyTrustedRanges env) of
        (Some rs, Some f) \<Rightarrow>
          bindD (wrapD ''apply trusted ranges'' (checkD (f rs))) (\<lambda>_. modifyD (\<lambda>w. w\<lparr>trusted := trusted w @ [rs]\<rparr>))
      | _ \<Rightarrow> retD ())"

definition apply_policy :: "sync_env \<Rightarrow> policyResponse \<Rightarrow> unit syncop" where
  "apply_policy env p =
     bindD (liftD (scan_all (check_decision (cfg env)) (pDecisions p))) (\<lambda>_.
     bindD (apply_trusted env (pTrustedRanges p)) (\<lambda>_.
     bindD (nowD env) (\<lambda>now.
     bindD (getD (\<lambda>w. cursorKey (syncer w))) (\<lambda>key.
     bindD (wrapD ''apply policy'' (onStore (ApplyDecisions (flt env) now (pDecisions p) key (pCursor p)))) (\<lambda>_.
       if pCursor p \<noteq> [] then modifyD (\<lambda>w. w\<lparr>syncer := (syncer w)\<lparr>cursor := pCursor p\<rparr>\<rparr>) else retD ())))))"

definition pullPolicy :: "sync_env \<Rightarrow> unit syncop" where
  "pullPolicy env =
     bindD (getD (\<lambda>w. cursor (syncer w))) (\<lambda>since.
     bindD (liftD (endpointURL (lib env) (cURL (cfg env)) ''/v1/policy'' (cInstanceID (cfg env)) since)) (\<lambda>address.
     bindD (checkD (new_request_err env address)) (\<lambda>_.
     bindD (clientDo env \<lparr>rqMethod = ''GET'', rqURL = address, rqHeader = setAuth (cfg env), rqBody = []\<rparr>) (\<lambda>resp.
     closeWithError (flt env) ''close response body''
       (bindD (liftD (check_status ''GET policy'' (cInstanceID (cfg env)) resp)) (\<lambda>_.
        bindD (liftD (Decode_policy (rsBody resp))) (\<lambda>policy.
        apply_policy env policy)))))))"

section \<open>Building and running a syncer\<close>

definition newHTTPClient :: "sync_env \<Rightarrow> http_client result" where
  "newHTTPClient env =
     (let c = cfg env
      in bindR (if cClientCert c \<noteq> [] \<or> cClientKey c \<noteq> []
                then bindR (loadX509KeyPair env (cClientCert c) (cClientKey c)) (\<lambda>cert. Inr [cert])
                else Inr []) (\<lambda>certs.
         bindR (if cCA c \<noteq> []
                then bindR (readFile env (cCA c)) (\<lambda>caPEM.
                       if appendCertsFromPEM env caPEM then Inr (Some caPEM)
                       else Inl (Errorf ''no CA certificates found in %s'' [cCA c]))
                else Inr None) (\<lambda>roots.
         Inr \<lparr>hcMinVersion = 0x0303, hcServerName = cServerName c, hcCertificates = certs, hcRootCAs = roots,
              hcCheckRedirect = UseLastResponse, hcTimeout = 15000000000\<rparr>)))"

definition hex_text :: "string \<Rightarrow> string" where
  "hex_text s = concat (map (\<lambda>c. [hex_digit (of_char c div 16), hex_digit (of_char c mod 16)]) s)"

definition cursor_key :: "sync_env \<Rightarrow> string" where
  "cursor_key env = ''gatehub_cursor:'' @ hex_text (sha256 env (cURL (cfg env) @ CHR 0x00 # cInstanceID (cfg env)))"

text \<open>\<open>New\<close> puts the new syncer, with nothing acknowledged yet, in its place in the world.\<close>

definition Syncer_New :: "sync_env \<Rightarrow> unit syncop" where
  "Syncer_New env =
     bindD (liftD (Config_Validate (lib env) (cfg env))) (\<lambda>_.
     bindD (liftD (newHTTPClient env)) (\<lambda>cl.
     bindD (onStore (GetMeta (flt env) (cursor_key env))) (\<lambda>cur.
     modifyD (\<lambda>w. w\<lparr>syncer := \<lparr>cursor = cur, cursorKey = cursor_key env, client = cl, acknowledged = [], lastFullSync = 0\<rparr>\<rparr>))))"

text \<open>One cycle: errors are logged, never returned.\<close>

definition log_error :: "string \<Rightarrow> unit syncop \<Rightarrow> unit syncop" where
  "log_error prefix m = catchD m (\<lambda>e. modifyD (\<lambda>w. w\<lparr>sync_log := sync_log w @ [(prefix, e)]\<rparr>))"

definition syncOnce :: "sync_env \<Rightarrow> unit syncop" where
  "syncOnce env =
     bindD (log_error ''gatehub observation sync'' (pushObservations env)) (\<lambda>_.
     log_error ''gatehub policy sync'' (pullPolicy env))"

text \<open>
  \<open>Run\<close>: the events of its \<open>select\<close> are a tick of the interval's timer, which the runtime delivers,
  and the end of the context.
\<close>

datatype run_event = Tick | CtxDone

fun run_loop :: "sync_env \<Rightarrow> run_event list \<Rightarrow> unit syncop" where
  "run_loop env [] = retD ()"
| "run_loop env (CtxDone # es) = retD ()"
| "run_loop env (Tick # es) = bindD (syncOnce env) (\<lambda>_. run_loop env es)"

definition Run :: "sync_env \<Rightarrow> run_event list \<Rightarrow> unit syncop" where
  "Run env es = bindD (syncOnce env) (\<lambda>_. run_loop env es)"

text \<open>\<open>Start\<close> returns the interval at which the goroutine it starts will tick, or \<open>None\<close> when it starts none.\<close>

definition Start :: "sync_env \<Rightarrow> (int option) syncop" where
  "Start env =
     (if \<not> Enabled (cfg env) then retD None
      else bindD (liftD (Config_Validate (lib env) (cfg env))) (\<lambda>_.
           bindD (Syncer_New env) (\<lambda>_. retD (Some (Interval (cfg env))))))"

end
