(* ===== verification/Pushing.thy ===== *)
theory Pushing
  imports ControlPlane
begin

text \<open>
  What a push of \<open>src/controlplane/controlplane.go\<close> sends and remembers.  The specification of a push
  is in terms of the stored rows: the observation each stands for, its hash, and which of them differ
  from what the server acknowledged last.
\<close>

section \<open>Specification\<close>

definition listed :: "tables \<Rightarrow> fp_row list" where
  "listed t = sort_key r_fp (filter (\<lambda>r. r_fp r \<noteq> []) (fingerprints t))"

definition observation_of :: "tables \<Rightarrow> fp_row \<Rightarrow> wire_observation" where
  "observation_of t r = toObservation (r_fp r) (entry_of t r)"

definition observation_hash :: "sync_env \<Rightarrow> tables \<Rightarrow> fp_row \<Rightarrow> string" where
  "observation_hash env t r = sha256 env (jtext (observation_json (observation_of t r)))"

definition changed :: "sync_env \<Rightarrow> bool \<Rightarrow> (string \<times> string) list \<Rightarrow> tables \<Rightarrow> fp_row \<Rightarrow> bool" where
  "changed env full ack t r \<longleftrightarrow> full \<or> map_of ack (r_fp r) \<noteq> Some (observation_hash env t r)"

text \<open>The request for a batch, and its acceptance by the server.\<close>

definition accepted :: "response result \<Rightarrow> bool" where
  "accepted r \<longleftrightarrow> (case r of Inl _ \<Rightarrow> False | Inr resp \<Rightarrow> rsStatusCode resp div 100 = 2)"

definition post_request :: "sync_env \<Rightarrow> request \<Rightarrow> bool" where
  "post_request env req \<longleftrightarrow>
     rqMethod req = ''POST''
     \<and> Inr (rqURL req) = endpointURL (lib env) (cURL (cfg env)) ''/v1/observations/batch'' (cInstanceID (cfg env)) []
     \<and> rqHeader req = (''Content-Type'', ''application/json'') # setAuth (cfg env)"

definition batch_posted :: "sync_env \<Rightarrow> wire_observation list \<Rightarrow> request \<times> response result \<Rightarrow> bool" where
  "batch_posted env obs x \<longleftrightarrow> post_request env (fst x)
     \<and> rqBody (fst x) = jtext (batch_json (cInstanceID (cfg env)) obs) \<and> accepted (snd x)"

definition posted :: "sync_env \<Rightarrow> tables \<Rightarrow> fp_row list \<Rightarrow> request \<times> response result \<Rightarrow> bool" where
  "posted env t rows = batch_posted env (map (observation_of t) rows)"

section \<open>Pages\<close>

lemma page_rows_after: "page_rows after through n t = take n (rows_after after through t)"
  by (simp add: page_rows_def rows_after_def)

lemma rows_after_sorted: "keys_ok t \<Longrightarrow> sorted_wrt (\<lambda>r s. r_fp r < r_fp s) (rows_after after through t)"
proof -
  assume "keys_ok t"
  then have "distinct (map r_fp (rows_after after through t))"
    by (simp add: rows_after_def keys_ok_def distinct_map inj_on_def)
  moreover have "sorted (map r_fp (rows_after after through t))" by (simp add: rows_after_def)
  ultimately have "sorted_wrt (<) (map r_fp (rows_after after through t))" by (simp add: strict_sorted_iff)
  then show ?thesis by (simp add: sorted_wrt_map)
qed

lemma rows_after_step:
  assumes "keys_ok t" "page_rows after through 16 t \<noteq> []"
  shows "rows_after (last (map r_fp (page_rows after through 16 t))) through t = drop 16 (rows_after after through t)"
proof -
  let ?R = "rows_after after through t" and ?p = "page_rows after through 16 t"
  let ?k = "last (map r_fp ?p)"
  have "last ?p \<in> set ?p" "?k = r_fp (last ?p)" using assms(2) by (simp_all add: last_map)
  then have k: "after < ?k" using page_rows_bounds [of "last ?p"] by simp
  have eq: "rows_after ?k through t = filter (\<lambda>r. ?k < r_fp r) ?R"
    using k unfolding rows_after_def filter_sort filter_filter by (intro arg_cong [where f = "sort_key r_fp"] filter_cong) auto
  have R: "?R = ?p @ drop 16 ?R" by (simp add: page_rows_after)
  have srt: "sorted_wrt (\<lambda>r s. r_fp r < r_fp s) (?p @ drop 16 ?R)" using rows_after_sorted [OF assms(1)] R by simp
  have "\<forall>r\<in>set (drop 16 ?R). ?k < r_fp r"
    using srt \<open>last ?p \<in> set ?p\<close> \<open>?k = r_fp (last ?p)\<close> by (simp only: sorted_wrt_append) blast
  moreover have "\<forall>r\<in>set ?p. r_fp r \<le> ?k"
  proof -
    have "sorted_wrt (\<lambda>r s. r_fp r < r_fp s) (butlast ?p @ [last ?p])" using srt assms(2) by (simp add: sorted_wrt_append)
    then have "\<forall>r\<in>set (butlast ?p). r_fp r < ?k" using \<open>?k = r_fp (last ?p)\<close> by (simp add: sorted_wrt_append)
    then show ?thesis using assms(2) \<open>?k = r_fp (last ?p)\<close>
      by (metis append_butlast_last_id in_set_conv_decomp less_le order_refl rotate1.simps(2) set_ConsD set_rotate1)
  qed
  ultimately have "filter (\<lambda>r. ?k < r_fp r) (?p @ drop 16 ?R) = drop 16 ?R"
    by (simp add: filter_empty_conv not_less)
  then show ?thesis using eq R by metis
qed

lemma pushBatch_Inr:
  assumes "pushBatch env obs c = (Inr u, c')"
  shows "\<exists>x. batch_posted env obs x \<and> tabs c' = (tabs c)\<lparr>requests := requests (tabs c) @ [x]\<rparr>"
proof -
  obtain address resp where
    address: "endpointURL (lib env) (cURL (cfg env)) ''/v1/observations/batch'' (cInstanceID (cfg env)) [] = Inr address"
    and c': "tabs c' = (tabs c)\<lparr>requests := requests (tabs c) @ [(\<lparr>rqMethod = ''POST'', rqURL = address,
         rqHeader = (''Content-Type'', ''application/json'') # setAuth (cfg env),
         rqBody = jtext (batch_json (cInstanceID (cfg env)) obs)\<rparr>, Inr resp)]\<rparr>"
    and ok: "check_status ''POST observations'' (cInstanceID (cfg env)) resp = Inr ()"
    using assms unfolding pushBatch_def bindD_Inr liftD_Inr syncop_Inr closeWithError_Inr
    by (auto simp: json_Marshal_def split: if_splits)
  have "accepted (Inr resp)" using ok by (auto simp: check_status_def accepted_def split: if_splits)
  then show ?thesis using address c' by (intro exI [of _ "(_, Inr resp)"] conjI) (auto simp: batch_posted_def post_request_def)
qed

lemma map_of_map_put_always: "map_of (map_put k v m) = (map_of m)(k \<mapsto> v)"
  by (induction k v m rule: map_put.induct) (auto simp: fun_eq_iff)

definition acknowledge_rows :: "sync_env \<Rightarrow> tables \<Rightarrow> fp_row list \<Rightarrow> (string \<times> string) list \<Rightarrow> (string \<times> string) list" where
  "acknowledge_rows env t rows ack = fold (\<lambda>r. map_put (r_fp r) (observation_hash env t r)) rows ack"

definition push_result :: "sync_env \<Rightarrow> tables \<Rightarrow> fp_row list list \<Rightarrow> world \<Rightarrow> world \<Rightarrow> bool" where
  "push_result env t batches w w' \<longleftrightarrow>
     (\<exists>xs. list_all2 (posted env t) batches xs
       \<and> w' = w\<lparr>syncer := (syncer w)\<lparr>acknowledged := acknowledge_rows env t (concat batches) (acknowledged (syncer w))\<rparr>,
                requests := requests w @ xs\<rparr>)"

lemma push_result_Nil [simp]: "push_result env t [] w w' \<longleftrightarrow> w' = w"
  by (auto simp: push_result_def acknowledge_rows_def)

lemma push_result_append:
  "push_result env t bs w w' \<Longrightarrow> push_result env t bs' w' w'' \<Longrightarrow> push_result env t (bs @ bs') w w''"
proof -
  assume "push_result env t bs w w'" "push_result env t bs' w' w''"
  then obtain xs xs' where "list_all2 (posted env t) bs xs" "list_all2 (posted env t) bs' xs'"
    "w' = w\<lparr>syncer := (syncer w)\<lparr>acknowledged := acknowledge_rows env t (concat bs) (acknowledged (syncer w))\<rparr>, requests := requests w @ xs\<rparr>"
    "w'' = w'\<lparr>syncer := (syncer w')\<lparr>acknowledged := acknowledge_rows env t (concat bs') (acknowledged (syncer w'))\<rparr>, requests := requests w' @ xs'\<rparr>"
    unfolding push_result_def by blast
  then show ?thesis unfolding push_result_def by (intro exI [of _ "xs @ xs'"]) (simp add: list_all2_appendI acknowledge_rows_def)
qed

lemma wFingerprint_observation_of [simp]: "wFingerprint (observation_of t r) = r_fp r"
  by (simp add: observation_of_def toObservation_def)

lemma eFingerprint_entry_of: "db_ok t \<Longrightarrow> r \<in> set (fingerprints t) \<Longrightarrow> eFingerprint (entry_of t r) = r_fp r"
  using row_ok_scan [of r] scanEntry_fields(1) [of r] by (auto simp: entry_of_def db_ok_iff)

lemma encode_rows:
  assumes "db_ok t" "set rows \<subseteq> set (fingerprints t)" "scan_all (encode_entry env) (map (entry_of t) rows) = Inr ohs"
  shows "ohs = map (\<lambda>r. (observation_of t r, observation_hash env t r)) rows"
  using assms(2,3)
proof (induction rows arbitrary: ohs)
  case (Cons r rows)
  have "eFingerprint (entry_of t r) = r_fp r" using eFingerprint_entry_of [OF assms(1)] Cons.prems(1) by simp
  then show ?case using Cons
    by (auto simp: encode_entry_def Let_def json_Marshal_def observation_of_def observation_hash_def split: sum.splits if_splits)
qed simp

text \<open>A turn of the loop that is not the last: the rows of its page, and what is left to do with them.\<close>

lemma push_page_rest:
  assumes "db_ok t" "t = store (tabs c)" "push_page env full through after c = (Inr (Some (page, s)), c')"
  defines "rows \<equiv> page_rows after through 16 t"
  obtains ohs c1 where "scan_all (encode_entry env) (map (entry_of t) rows) = Inr ohs" "tabs c1 = tabs c"
    "(let b = filter (needs_push full (acknowledged (syncer (tabs c)))) ohs in
       if b = [] then retD (Some (map r_fp rows, False))
       else bindD (pushBatch env (map fst b)) (\<lambda>_. bindD (modifyD (acknowledge b)) (\<lambda>_. retD (Some (map r_fp rows, True))))) c1
       = (Inr (Some (page, s)), c')"
proof -
  obtain es c1 where es: "onStore (ListPage (flt env) after through 16) c = (Inr es, c1)"
    and run: "(if es = [] then retD None
       else bindD (liftD (scan_all (encode_entry env) es)) (\<lambda>ohs.
            bindD (getD (\<lambda>w. filter (needs_push full (acknowledged (syncer w))) ohs)) (\<lambda>b.
              if b = [] then retD (Some (map eFingerprint es, False))
              else bindD (pushBatch env (map fst b)) (\<lambda>_.
                   bindD (modifyD (acknowledge b)) (\<lambda>_. retD (Some (map eFingerprint es, True))))))) c1 = (Inr (Some (page, s)), c')"
    using assms(3) unfolding push_page_def ctxD_def bindD_Inr syncop_Inr by blast
  obtain c2 where c2: "ListPage (flt env) after through 16 \<lparr>tabs = store (tabs c), calls = calls c\<rparr> = (Inr es, c2)"
    "c1 = \<lparr>tabs = (tabs c)\<lparr>store := tabs c2\<rparr>, calls = calls c2\<rparr>"
    using es unfolding onStore_Inr by blast
  have page: "map eFingerprint es = map r_fp rows \<and> tabs c2 = t \<and> es = map (entry_of t) rows"
    using ListPage_Inr [OF c2(1)] assms(1) unfolding conn.simps assms(2) [symmetric] rows_def nat_numeral by blast
  then have same: "tabs c1 = tabs c" and rows: "es = map (entry_of t) rows" "map eFingerprint es = map r_fp rows"
    using c2(2) assms(2) by (simp, blast, blast)
  have ne: "es \<noteq> []" using run by (auto simp: retD_Inr)
  obtain ohs where ohs: "scan_all (encode_entry env) es = Inr ohs"
    and rest: "(let b = filter (needs_push full (acknowledged (syncer (tabs c1)))) ohs in
       if b = [] then retD (Some (map eFingerprint es, False))
       else bindD (pushBatch env (map fst b)) (\<lambda>_. bindD (modifyD (acknowledge b)) (\<lambda>_. retD (Some (map eFingerprint es, True))))) c1
       = (Inr (Some (page, s)), c')"
    using run unfolding if_not_P [OF ne] bindD_Inr liftD_Inr syncop_Inr Let_def by blast
  show thesis by (rule that [OF ohs [unfolded rows(1)] same rest [unfolded rows(2) same]])
qed

lemma push_page_spec:
  assumes "db_ok t" "t = store (tabs c)" "push_page env full through after c = (Inr (Some (page, s)), c')"
  defines "rows \<equiv> page_rows after through 16 t"
  defines "batch \<equiv> filter (changed env full (acknowledged (syncer (tabs c))) t) rows"
  shows "page = map r_fp rows" "s \<longleftrightarrow> batch \<noteq> []" "push_result env t (if batch = [] then [] else [batch]) (tabs c) (tabs c')"
proof -
  let ?ack = "acknowledged (syncer (tabs c))" and ?oh = "\<lambda>r. (observation_of t r, observation_hash env t r)"
  obtain ohs c1 where ohs: "scan_all (encode_entry env) (map (entry_of t) rows) = Inr ohs" and same: "tabs c1 = tabs c"
    and rest: "(let b = filter (needs_push full ?ack) ohs in
       if b = [] then retD (Some (map r_fp rows, False))
       else bindD (pushBatch env (map fst b)) (\<lambda>_. bindD (modifyD (acknowledge b)) (\<lambda>_. retD (Some (map r_fp rows, True))))) c1
       = (Inr (Some (page, s)), c')"
    unfolding rows_def by (rule push_page_rest [OF assms(1-3)])
  have sub: "set rows \<subseteq> set (fingerprints t)" using page_rows_bounds unfolding rows_def by blast
  have "needs_push full ?ack \<circ> ?oh = changed env full ?ack t" by (rule ext) (simp add: needs_push_def changed_def)
  then have b: "filter (needs_push full ?ack) ohs = map ?oh batch"
    unfolding encode_rows [OF assms(1) sub ohs] filter_map batch_def by simp
  note rest' = rest [unfolded b Let_def map_map comp_def fst_conv list.map_disc_iff]
  show "page = map r_fp rows" "s \<longleftrightarrow> batch \<noteq> []"
    using rest' by (auto simp: bindD_Inr retD_Inr split: if_splits)
  have fold: "fold (\<lambda>(o', h). map_put (wFingerprint o') h) (map ?oh batch) a = acknowledge_rows env t batch a" for a
    by (simp add: acknowledge_rows_def fold_map comp_def)
  show "push_result env t (if batch = [] then [] else [batch]) (tabs c) (tabs c')"
  proof (cases "batch = []")
    case True
    then show ?thesis using rest' same by (simp add: retD_Inr)
  next
    case False
    then obtain u c3 where push: "pushBatch env (map (observation_of t) batch) c1 = (Inr u, c3)"
      and ack: "tabs c' = acknowledge (map ?oh batch) (tabs c3)"
      using rest' by (auto simp: bindD_Inr syncop_Inr retD_Inr)
    obtain x where x: "posted env t batch x" "tabs c3 = (tabs c1)\<lparr>requests := requests (tabs c1) @ [x]\<rparr>"
      using pushBatch_Inr [OF push] unfolding posted_def by blast
    show ?thesis using False x ack same fold by (auto simp: push_result_def acknowledge_def intro!: exI [of _ "[x]"])
  qed
qed

section \<open>The loop\<close>

lemma push_page_None:
  assumes "push_page env full through after c = (Inr None, c')"
  shows "rows_after after through (store (tabs c)) = []" "tabs c' = tabs c"
proof -
  obtain es c1 where es: "onStore (ListPage (flt env) after through 16) c = (Inr es, c1)" "es = []" "c' = c1"
    using assms unfolding push_page_def ctxD_def bindD_Inr syncop_Inr
    by (auto simp: bindD_Inr retD_Inr syncop_Inr liftD_Inr split: if_splits)
  then obtain c2 where c2: "ListPage (flt env) after through 16 \<lparr>tabs = store (tabs c), calls = calls c\<rparr> = (Inr [], c2)"
    "c1 = \<lparr>tabs = (tabs c)\<lparr>store := tabs c2\<rparr>, calls = calls c2\<rparr>"
    unfolding onStore_Inr by blast
  have "page_rows after through 16 (store (tabs c)) = []" using ListPage_Inr [OF c2(1)] by simp
  then show "rows_after after through (store (tabs c)) = []" by (simp add: page_rows_after)
  show "tabs c' = tabs c" using ListPage_Inr [OF c2(1)] c2(2) es(3) by simp
qed

lemma acknowledge_rows_other:
  "k \<notin> r_fp ` set rows \<Longrightarrow> map_of (acknowledge_rows env t rows ack) k = map_of ack k"
  unfolding acknowledge_rows_def
proof (induction rows arbitrary: ack)
  case (Cons r rows)
  then show ?case by (simp add: map_of_map_put_always)
qed simp

text \<open>The rows \<open>R\<close> have been dealt with: what differed was sent, in batches that are neither empty nor too large.\<close>

definition rows_pushed :: "sync_env \<Rightarrow> bool \<Rightarrow> tables \<Rightarrow> fp_row list \<Rightarrow> bool \<Rightarrow> world \<Rightarrow> world \<Rightarrow> bool" where
  "rows_pushed env full t R sent w w' \<longleftrightarrow>
     (\<exists>batches. concat batches = filter (changed env full (acknowledged (syncer w)) t) R
       \<and> (\<forall>b\<in>set batches. b \<noteq> [] \<and> length b \<le> 16) \<and> (sent \<longleftrightarrow> batches \<noteq> []) \<and> push_result env t batches w w')"

lemma rows_pushed_append:
  fixes w :: world
  assumes "length rows \<le> 16" "sorted_wrt (\<lambda>r s. r_fp r < r_fp s) (rows @ rest)" "rows_pushed env full t rest sent w1 w2"
  defines "batch \<equiv> filter (changed env full (acknowledged (syncer w)) t) rows"
  assumes page: "push_result env t (if batch = [] then [] else [batch]) w w1"
  shows "rows_pushed env full t (rows @ rest) (batch \<noteq> [] \<or> sent) w w2"
proof -
  let ?ack = "acknowledged (syncer w)" and ?bs = "if batch = [] then [] else [batch]"
  obtain batches where IH: "concat batches = filter (changed env full (acknowledged (syncer w1)) t) rest"
    "\<forall>b\<in>set batches. b \<noteq> [] \<and> length b \<le> 16" "sent \<longleftrightarrow> batches \<noteq> []" "push_result env t batches w1 w2"
    using assms(3) unfolding rows_pushed_def by blast
  have ack1: "acknowledged (syncer w1) = acknowledge_rows env t batch ?ack"
    using page by (auto simp: push_result_def acknowledge_rows_def split: if_splits)
  have "r_fp x \<notin> r_fp ` set batch" if "x \<in> set rest" for x
    using assms(2) that unfolding sorted_wrt_append batch_def by fastforce
  then have same: "filter (changed env full (acknowledged (syncer w1)) t) rest = filter (changed env full ?ack t) rest"
    unfolding ack1 by (intro filter_cong refl) (simp add: changed_def acknowledge_rows_other)
  have "push_result env t (?bs @ batches) w w2" by (rule push_result_append [OF page IH(4)])
  moreover have "concat (?bs @ batches) = filter (changed env full ?ack t) (rows @ rest)"
    unfolding concat_append IH(1) same filter_append batch_def by simp
  moreover have "\<forall>b\<in>set (?bs @ batches). b \<noteq> [] \<and> length b \<le> 16"
    using IH(2) order_trans [OF length_filter_le [of "changed env full ?ack t" rows] assms(1)] by (auto simp: batch_def)
  moreover have "batch \<noteq> [] \<or> sent \<longleftrightarrow> ?bs @ batches \<noteq> []" using IH(3) by auto
  ultimately show ?thesis unfolding rows_pushed_def by blast
qed

lemma push_loop_spec:
  assumes "db_ok t" "push_loop env full through after seen sent c = (Inr (seen', sent'), c')" "t = store (tabs c)"
  shows "seen' = seen @ map r_fp (rows_after after through t) \<and>
    (\<exists>more. rows_pushed env full t (rows_after after through t) more (tabs c) (tabs c') \<and> (sent' \<longleftrightarrow> sent \<or> more))"
  using assms(2,3)
proof (induction env full through after seen sent c rule: push_loop.induct)
  case (1 env full through after seen sent c)
  obtain r c1 where page: "push_page env full through after c = (r, c1)" by fastforce
  consider e where "r = Inl e" | "r = Inr None" | pg s where "r = Inr (Some (pg, s))" by (metis option.exhaust prod.exhaust sum.exhaust)
  then show ?case
  proof cases
    case 1
    then show ?thesis using "1.prems"(1) page by (simp add: push_loop.simps [of _ _ _ _ _ _ c])
  next
    case 2
    then have "seen' = seen" "sent' = sent" "c' = c1" using "1.prems"(1) page by (simp_all add: push_loop.simps [of _ _ _ _ _ _ c])
    moreover have "rows_pushed env full t [] False w w" for w unfolding rows_pushed_def by (rule exI [of _ "[]"]) simp
    ultimately show ?thesis using push_page_None [OF page [unfolded 2]] "1.prems"(2) by (auto intro!: exI [of _ False])
  next
    case 3
    let ?R = "rows_after after through t" and ?rows = "page_rows after through 16 t"
    note pg = page [unfolded 3]
    note spec = push_page_spec [OF assms(1) "1.prems"(2) pg]
    have next_run: "push_loop env full through (last pg) (seen @ pg) (sent \<or> s) c1 = (Inr (seen', sent'), c')"
      using "1.prems"(1) page 3 by (simp add: push_loop.simps [of _ _ _ _ _ _ c])
    have t1: "t = store (tabs c1)" using push_page_rows(1) [OF pg] "1.prems"(2) by simp
    have rest: "rows_after (last pg) through t = drop 16 ?R"
      using rows_after_step [OF db_ok_keys [OF assms(1)]] push_page_rows(2,3) [OF pg] "1.prems"(2) by simp
    have R: "?rows @ drop 16 ?R = ?R" by (simp add: page_rows_after)
    obtain more where IH: "seen' = (seen @ pg) @ map r_fp (drop 16 ?R)" "rows_pushed env full t (drop 16 ?R) more (tabs c1) (tabs c')"
      "sent' \<longleftrightarrow> (sent \<or> s) \<or> more"
      using "1.IH" [OF page [symmetric] 3 refl refl next_run t1] unfolding rest by blast
    have "rows_pushed env full t ?R (s \<or> more) (tabs c) (tabs c')"
      using rows_pushed_append [OF _ _ IH(2) spec(3)] rows_after_sorted [OF db_ok_keys [OF assms(1)], of after through]
      unfolding R spec(2) by (simp add: page_rows_def)
    moreover have "seen' = seen @ map r_fp ?R" using IH(1) spec(1) R by (metis append.assoc map_append)
    ultimately show ?thesis using IH(3) by blast
  qed
qed

section \<open>A push that succeeds\<close>

lemma listed_rows: "rows_after [] (fold max (map r_fp (fingerprints t)) []) t = listed t"
proof -
  have nil: "([] :: string) < s \<longleftrightarrow> s \<noteq> []" for s by (cases s) auto
  have le: "\<forall>x\<in>set xs. x \<le> fold max xs a" for xs and a :: string
    unfolding Max.set_eq_fold [symmetric] by simp
  have "filter (\<lambda>r. [] < r_fp r \<and> r_fp r \<le> fold max (map r_fp (fingerprints t)) []) (fingerprints t)
      = filter (\<lambda>r. r_fp r \<noteq> []) (fingerprints t)"
    using le [of "map r_fp (fingerprints t)" "[]"] by (intro filter_cong refl) (auto simp: nil)
  then show ?thesis by (simp add: rows_after_def listed_def)
qed

lemma acknowledge_rows_same:
  "r \<in> set rows \<Longrightarrow> distinct (map r_fp rows) \<Longrightarrow> map_of (acknowledge_rows env t rows ack) (r_fp r) = Some (observation_hash env t r)"
  unfolding acknowledge_rows_def
proof (induction rows arbitrary: ack)
  case (Cons s rows)
  then show ?case using acknowledge_rows_other [of "r_fp s" rows env t] by (auto simp: acknowledge_rows_def map_of_map_put_always)
qed simp

lemma map_of_filter_fst: "map_of (filter (\<lambda>(k, v). k \<in> S) m) k = (if k \<in> S then map_of m k else None)"
  by (induction m) auto

lemma map_of_hashes:
  "distinct (map r_fp rows) \<Longrightarrow> map_of (map (\<lambda>r. (r_fp r, h r)) rows) k = map_option h (find (\<lambda>r. r_fp r = k) rows)"
  by (induction rows) auto

lemma acknowledged_after:
  assumes "distinct (map r_fp rows)"
  shows "map_of (filter (\<lambda>(fp, h). fp \<in> set (map r_fp rows)) (acknowledge_rows env t (filter (changed env full ack t) rows) ack))
    = map_of (map (\<lambda>r. (r_fp r, observation_hash env t r)) rows)"
proof
  fix k
  let ?ch = "filter (changed env full ack t) rows"
  have d: "distinct (map r_fp ?ch)" using assms by (rule distinct_map_filter)
  show "map_of (filter (\<lambda>(fp, h). fp \<in> set (map r_fp rows)) (acknowledge_rows env t ?ch ack)) k
    = map_of (map (\<lambda>r. (r_fp r, observation_hash env t r)) rows) k"
  proof (cases "find (\<lambda>r. r_fp r = k) rows")
    case None
    then show ?thesis by (auto simp: map_of_filter_fst map_of_hashes [OF assms] find_None_iff)
  next
    case (Some r)
    then have r: "r \<in> set rows" "r_fp r = k" by (auto simp: find_Some_iff)
    show ?thesis
    proof (cases "changed env full ack t r")
      case True
      then show ?thesis using acknowledge_rows_same [OF _ d, of r] r Some by (auto simp: map_of_filter_fst map_of_hashes [OF assms])
    next
      case False
      have "k \<notin> r_fp ` set ?ch" using False r assms by (auto simp: distinct_map inj_on_def)
      then show ?thesis using False r Some
        by (auto simp: map_of_filter_fst map_of_hashes [OF assms] acknowledge_rows_other changed_def)
    qed
  qed
qed

lemma push_run:
  assumes "db_ok (store (tabs c))" "pushObservations env c = (Inr (), c')"
  shows "\<exists>batches xs full ack.
    full = full_due (clock env (calls c)) (lastFullSync (syncer (tabs c)))
    \<and> concat batches = filter (changed env full (acknowledged (syncer (tabs c))) (store (tabs c))) (listed (store (tabs c)))
    \<and> list_all (\<lambda>b. length b \<le> 16) batches \<and> (batches = [[]] \<or> batches \<noteq> [] \<and> [] \<notin> set batches) \<and> list_all2 (posted env (store (tabs c))) batches xs
    \<and> map_of ack = map_of (map (\<lambda>r. (r_fp r, observation_hash env (store (tabs c)) r)) (listed (store (tabs c))))
    \<and> tabs c' = (tabs c)\<lparr>requests := requests (tabs c) @ xs, syncer := (syncer (tabs c))\<lparr>acknowledged := ack,
        lastFullSync := (if full then clock env (calls c) else lastFullSync (syncer (tabs c)))\<rparr>\<rparr>"
proof -
  let ?w = "tabs c" and ?t = "store (tabs c)" and ?started = "clock env (calls c)"
  define full where "full = full_due ?started (lastFullSync (syncer ?w))"
  obtain through c1 seen sent c2 u c3 where
    through: "onStore (LastFingerprint (flt env)) c = (Inr through, c1)"
    and loop: "push_loop env full through [] [] False c1 = (Inr (seen, sent), c2)"
    and beat: "(if sent then retD () else pushBatch env []) c2 = (Inr u, c3)"
    and fin: "tabs c' = finish_push seen full ?started (tabs c3)"
    using assms(2) unfolding pushObservations_def bindD_Inr syncop_Inr case_prod_unfold full_def by fastforce
  have th: "through = fold max (map r_fp (fingerprints ?t)) []" "tabs c1 = tabs c"
    using through by (auto simp: onStore_Inr LastFingerprint_def queryD_Inr)
  obtain batches where L: "seen = map r_fp (listed ?t)"
    "concat batches = filter (changed env full (acknowledged (syncer ?w)) ?t) (listed ?t)"
    "\<forall>b\<in>set batches. b \<noteq> [] \<and> length b \<le> 16" "sent \<longleftrightarrow> batches \<noteq> []" "push_result env ?t batches ?w (tabs c2)"
    using push_loop_spec [OF assms(1) loop] th by (auto simp: listed_rows rows_pushed_def)
  have d: "distinct (map r_fp (listed ?t))"
    using db_ok_keys [OF assms(1)] by (simp add: listed_def keys_ok_def distinct_map inj_on_def)
  obtain bs where bs: "bs = [[]] \<or> bs \<noteq> [] \<and> [] \<notin> set bs" "concat bs = concat batches" "\<forall>b\<in>set bs. length b \<le> 16" "push_result env ?t bs ?w (tabs c3)"
  proof (cases "batches = []")
    case True
    then obtain x where "posted env ?t [] x" "tabs c3 = (tabs c2)\<lparr>requests := requests (tabs c2) @ [x]\<rparr>"
      using beat L(4) pushBatch_Inr [of env "[]" c2 u c3] by (auto simp: posted_def)
    then have "push_result env ?t [[]] ?w (tabs c3)" using True L(5) by (auto simp: push_result_def acknowledge_rows_def)
    then show thesis using that [of "[[]]"] True by simp
  next
    case False
    then show thesis using that [of batches] L beat by (auto simp: retD_Inr)
  qed
  then obtain xs where xs: "list_all2 (posted env ?t) bs xs"
    "tabs c3 = ?w\<lparr>syncer := (syncer ?w)\<lparr>acknowledged := acknowledge_rows env ?t (concat bs) (acknowledged (syncer ?w))\<rparr>,
                requests := requests ?w @ xs\<rparr>" unfolding push_result_def by blast
  show ?thesis
    by (rule exI [of _ bs], rule exI [of _ xs], rule exI [of _ full],
        rule exI [of _ "filter (\<lambda>(fp, h). fp \<in> set seen) (acknowledge_rows env ?t (concat bs) (acknowledged (syncer ?w)))"])
      (use bs L xs fin acknowledged_after [OF d] in \<open>simp add: full_def finish_push_def list_all_iff\<close>)
qed

section \<open>An accepting server\<close>

lemma encodable_obj: "list_all (\<lambda>(k, v). encodable v) ps \<Longrightarrow> encodable (obj ps)"
proof -
  have "list_all (\<lambda>(k, v). encodable v) m \<Longrightarrow> list_all (\<lambda>(k, v). encodable v) ps \<Longrightarrow>
      list_all (\<lambda>(k, v). encodable v) (foldl (\<lambda>m (k, v). map_put k v m) m ps)" for m
  proof (induction ps arbitrary: m)
    case (Cons kv ps)
    have "list_all (\<lambda>(k, v). encodable v) (map_put (fst kv) (snd kv) m)"
      using Cons.prems set_map_put_subset [of "fst kv" "snd kv" m] by (fastforce simp: list_all_iff)
    then show ?case using Cons by (simp add: case_prod_unfold)
  qed simp
  then show "list_all (\<lambda>(k, v). encodable v) ps \<Longrightarrow> ?thesis" by (simp add: obj_def)
qed

lemma jvalue_encodable_all:
  "(\<forall>s v r. jvalue f s = Some (v, r) \<longrightarrow> encodable v) \<and> (\<forall>s vs r. jelems f s = Some (vs, r) \<longrightarrow> list_all encodable vs)
    \<and> (\<forall>s ps r. jmembers f s = Some (ps, r) \<longrightarrow> list_all (\<lambda>(k, v). encodable v) ps)"
proof (induction f)
  case (Suc f)
  then have IH: "\<And>s v r. jvalue f s = Some (v, r) \<Longrightarrow> encodable v"
    "\<And>s vs r. jelems f s = Some (vs, r) \<Longrightarrow> list_all encodable vs"
    "\<And>s ps r. jmembers f s = Some (ps, r) \<Longrightarrow> list_all (\<lambda>(k, v). encodable v) ps" by blast+
  have "encodable v" if "jvalue (Suc f) s = Some (v, r)" for s v r
    using that by (auto simp: literal_def number_def Let_def encodable_obj dest: IH split: list.splits if_splits option.splits)
  moreover have "list_all encodable vs" if "jelems (Suc f) s = Some (vs, r)" for s vs r
    using that by (auto dest: IH split: list.splits if_splits option.splits prod.splits)
  moreover have "list_all (\<lambda>(k, v). encodable v) ps" if run: "jmembers (Suc f) s = Some (ps, r)" for s ps r
    using run by (auto dest: IH(1) IH(3) split: list.splits if_splits option.splits prod.splits)
  ultimately show ?case by blast
qed simp

lemma scan_meta_encodable:
  assumes "scan_meta s = Inr (Some m)"
  shows "encodable (JObj m)"
proof -
  obtain r where "jvalue (Suc (length s)) s = Some (JObj m, r)"
    using assms by (auto simp: scan_meta_def json_Unmarshal_map_def json_parse_def simp del: jvalue.simps
        split: option.splits json.splits if_splits prod.splits)
  then show ?thesis using jvalue_encodable_all [of "Suc (length s)"] by blast
qed

lemma scan_ranges_scope_ok: "scan_ranges st rg = Inr (Some s) \<Longrightarrow> scope_ok s"
  using Scope_New_scope_ok
  by (auto simp: scan_ranges_def json_Unmarshal_scope_def scope_of_json_def
      split: option.splits json.splits sum.splits if_splits) 

lemma observation_encodable:
  assumes "db_ok t" "r \<in> set (fingerprints t)"
  shows "encodable (observation_json (observation_of t r))"
proof -
  have "row_ok r" using assms by (simp add: db_ok_iff)
  then obtain e where e: "scanEntry r = Inr e" using row_ok_scan by blast
  have "encodable (scope_json sc)" if "eApprovalRanges e = Some sc" for sc
  proof -
    have "scope_ok sc" using scanEntry_fields(8) [OF e] that scan_ranges_scope_ok by metis
    then show ?thesis
      by (auto simp: scope_json_def Scope_MarshalJSON_def Scope_Validate_def scope_ok_def json_Marshal_def list_all_iff split: sum.splits if_splits)
  qed
  moreover have "list_all (\<lambda>(k, v). encodable v) m" if "eMeta e = Some m" for m
    using scan_meta_encodable [of "r_meta r" m] scanEntry_fields(11) [OF e] that by simp
  moreover have "encodable (sighting_json s)" for s by (simp add: sighting_json_def member_def jint_def)
  ultimately show ?thesis
    by (cases "eMeta e"; cases "eApprovalRanges e")
      (auto simp: observation_json_def observation_of_def toObservation_def entry_of_def e member_def jint_def list_all_iff)
qed

text \<open>A run in which nothing fails: no fault, no end of the context, a usable address, and a server that accepts every request.\<close>

definition serves :: "sync_env \<Rightarrow> bool" where
  "serves env \<longleftrightarrow> flt env = no_faults \<and> (\<forall>n. ctx_err env n = None) \<and> (\<forall>a. new_request_err env a = None)
     \<and> (\<exists>u. Parse (lib env) (cURL (cfg env)) = Inr u) \<and> (\<forall>cl n req. accepted (http env cl n req))"

lemma succeeds_pushBatch:
  assumes "serves env" "list_all (\<lambda>w. encodable (observation_json w)) obs"
  shows "succeeds (pushBatch env obs) c"
proof -
  obtain u where u: "Parse (lib env) (cURL (cfg env)) = Inr u" using assms(1) by (auto simp: serves_def)
  have body: "json_Marshal (batch_json (cInstanceID (cfg env)) obs) = Inr (jtext (batch_json (cInstanceID (cfg env)) obs))"
    using assms(2) by (simp add: json_Marshal_def batch_json_def list_all_iff)
  have "\<exists>resp. http env cl n req = Inr resp \<and> check_status x y resp = Inr ()" for cl n req x y
  proof -
    have "accepted (http env cl n req)" using assms(1) by (simp add: serves_def)
    then show ?thesis by (cases "http env cl n req") (auto simp: accepted_def check_status_def)
  qed
  then show ?thesis using assms(1)
    by (auto simp: pushBatch_def body endpointURL_def u bindD_liftD serves_def checkD_def clientDo_def succeeds_def
        bindD_Inr retD_Inr syncop_Inr closeWithError_Inr no_faults_def liftD_Inr Let_def)
qed

lemma scan_all_mem: "scan_all f rs = Inr xs \<Longrightarrow> x \<in> set xs \<Longrightarrow> \<exists>r\<in>set rs. f r = Inr x"
  by (induction rs arbitrary: xs) (auto split: sum.splits)

lemma succeeds_onStore: "succeeds (onStore m) c \<longleftrightarrow> succeeds m \<lparr>tabs = store (tabs c), calls = calls c\<rparr>"
  unfolding succeeds_def onStore_Inr by blast

lemma succeeds_sync [simp]: "succeeds (getD q) c" "succeeds (modifyD f) c" "succeeds (nowD env) c'"
  by (simp_all add: succeeds_def getD_def modifyD_def nowD_def)

lemma succeeds_push_page:
  assumes "serves env" "db_ok (store (tabs c))"
  shows "succeeds (push_page env full through after) c"
proof -
  let ?t = "store (tabs c)" and ?rows = "page_rows after through 16 (store (tabs c))"
  have flt: "flt env = no_faults" and ctx: "ctx_err env n = None" for n using assms(1) by (simp_all add: serves_def)
  have sub: "set ?rows \<subseteq> set (fingerprints ?t)" using page_rows_bounds by blast
  obtain c1 where page: "onStore (ListPage no_faults after through 16) c = (Inr (map (entry_of ?t) ?rows), c1)"
    using yields_run [of "ListPage no_faults after through 16" "\<lparr>tabs = ?t, calls = calls c\<rparr>" "map (entry_of ?t) ?rows"]
      yields_ListPage [OF assms(2), of 16 after through] by (auto simp: onStore_Inr)
  have enc: "\<exists>x. encode_entry env e = Inr x \<and> encodable (observation_json (fst x))" if "e \<in> set (map (entry_of ?t) ?rows)" for e
    using that sub observation_encodable [OF assms(2)] eFingerprint_entry_of [OF assms(2)]
    by (auto simp: encode_entry_def Let_def json_Marshal_def observation_of_def)
  then obtain ohs where ohs: "scan_all (encode_entry env) (map (entry_of ?t) ?rows) = Inr ohs" using scan_all_total by metis
  then have ok: "encodable (observation_json (fst x))" if "x \<in> set ohs" for x
    using scan_all_mem [OF _ that] enc by force
  show ?thesis
    unfolding push_page_def flt
  proof (rule succeeds_bindD)
    fix u c0
    assume "ctxD env c = (Inr u, c0)"
    then have c0: "c0 = c" by (simp add: ctxD_def ctx checkD_def retD_Inr)
    show "succeeds (bindD (onStore (ListPage no_faults after through 16)) (\<lambda>entries.
       if entries = [] then retD None
       else bindD (liftD (scan_all (encode_entry env) entries)) (\<lambda>ohs.
            bindD (getD (\<lambda>w. filter (needs_push full (acknowledged (syncer w))) ohs)) (\<lambda>batch.
              if batch = [] then retD (Some (map eFingerprint entries, False))
              else bindD (pushBatch env (map fst batch)) (\<lambda>_.
                   bindD (modifyD (acknowledge batch)) (\<lambda>_.
                   retD (Some (map eFingerprint entries, True)))))))) c0"
      unfolding c0
      by (rule succeeds_bindD, simp add: page succeeds_def)
        (auto simp: page ohs bindD_liftD getD_def list_all_iff dest!: ok
          intro!: succeeds_bindD succeeds_if succeeds_pushBatch [OF assms(1)])
  qed (simp add: ctxD_def ctx checkD_def succeeds_def retD_Inr)
qed

lemma succeeds_push_loop:
  assumes "serves env"
  shows "db_ok (store (tabs c)) \<Longrightarrow> succeeds (push_loop env full through after seen sent) c"
  using assms
proof (induction env full through after seen sent c rule: push_loop.induct)
  case (1 env full through after seen sent c)
  obtain r c1 where page: "push_page env full through after c = (Inr r, c1)"
    using succeeds_push_page [OF "1.prems"(2,1)] unfolding succeeds_def by blast
  show ?case
  proof (cases r)
    case None
    then show ?thesis using page by (simp add: succeeds_def push_loop.simps [of _ _ _ _ _ _ c])
  next
    case (Some ps)
    obtain pg s where ps: "ps = (pg, s)" by (cases ps)
    have "db_ok (store (tabs c1))" using push_page_rows(1) [OF page [unfolded Some ps]] "1.prems"(1) by simp
    then have "succeeds (push_loop env full through (last pg) (seen @ pg) (sent \<or> s)) c1"
      by (rule "1.IH" [OF page [symmetric] refl Some ps [symmetric] _ "1.prems"(2)])
    then show ?thesis using page Some ps by (simp add: succeeds_def push_loop.simps [of _ _ _ _ _ _ c])
  qed
qed

lemma succeeds_push:
  assumes "serves env" "db_ok (store (tabs c))"
  shows "succeeds (pushObservations env) c"
proof -
  have flt: "flt env = no_faults" using assms(1) by (simp add: serves_def)
  have "db_ok (store (tabs c1))" if "onStore (LastFingerprint no_faults) c = (Inr x, c1)" for x c1
    using that assms(2) by (auto simp: onStore_Inr LastFingerprint_def)
  then show ?thesis
    unfolding pushObservations_def flt
    by (intro succeeds_bindD; (simp add: syncop_Inr succeeds_onStore LastFingerprint_def case_prod_unfold)?)
      (auto simp: syncop_Inr case_prod_unfold intro!: succeeds_push_loop [OF assms(1)] succeeds_bindD succeeds_if succeeds_pushBatch [OF assms(1)])
qed

section \<open>What a push remembers when it fails\<close>

lemma read_only_ListPage: "read_only (ListPage f after through limit)"
proof -
  have "read_only (attach_all f es)" for es by (induction es) (auto intro!: read_onlyI read_only_attach_history)
  then show ?thesis unfolding ListPage_def by (auto intro!: read_onlyI)
qed

text \<open>Among the exchanges \<open>xs\<close> an accepted request carries an observation of \<open>fp\<close> with hash \<open>h\<close>.\<close>

definition vouched :: "sync_env \<Rightarrow> (request \<times> response result) list \<Rightarrow> string \<Rightarrow> string \<Rightarrow> bool" where
  "vouched env xs fp h \<longleftrightarrow> (\<exists>x obs w. x \<in> set xs \<and> batch_posted env obs x \<and> w \<in> set obs
     \<and> wFingerprint w = fp \<and> sha256 env (jtext (observation_json w)) = h)"

definition push_grows :: "sync_env \<Rightarrow> world \<Rightarrow> world \<Rightarrow> bool" where
  "push_grows env w w' \<longleftrightarrow> store w' = store w \<and> cursor (syncer w') = cursor (syncer w)
     \<and> cursorKey (syncer w') = cursorKey (syncer w) \<and> client (syncer w') = client (syncer w) \<and>
     (\<exists>xs. requests w' = requests w @ xs \<and> list_all (\<lambda>x. post_request env (fst x)) xs \<and>
       (\<forall>fp h. map_of (acknowledged (syncer w')) fp = Some h \<longrightarrow>
          map_of (acknowledged (syncer w)) fp = Some h \<or> vouched env xs fp h))"

lemma push_grows_same: "w' = w\<lparr>requests := requests w @ xs\<rparr> \<Longrightarrow> list_all (\<lambda>x. post_request env (fst x)) xs \<Longrightarrow> push_grows env w w'"
  by (auto simp: push_grows_def)

lemma push_grows_refl [simp]: "push_grows env w w"
  by (rule push_grows_same [where xs = "[]"]) simp_all

lemma vouched_append: "vouched env (xs @ ys) fp h \<longleftrightarrow> vouched env xs fp h \<or> vouched env ys fp h"
  unfolding vouched_def set_append Un_iff by blast

lemma push_grows_trans: "push_grows env w w' \<Longrightarrow> push_grows env w' w'' \<Longrightarrow> push_grows env w w''"
  unfolding push_grows_def
  by (elim conjE exE, intro conjI, simp, simp, simp, simp, rule_tac x = "xs @ xsa" in exI) (simp add: vouched_append, blast)

lemma pushBatch_any: "pushBatch env obs c = (r, c') \<Longrightarrow>
    \<exists>xs. tabs c' = (tabs c)\<lparr>requests := requests (tabs c) @ xs\<rparr> \<and> list_all (\<lambda>x. post_request env (fst x)) xs"
  by (auto simp: pushBatch_def bindD_def liftD_def checkD_def retD_def raiseD_def clientDo_def Let_def closeWithError_def post_request_def
      split: sum.splits option.splits prod.splits intro: exI [of _ "[]"] exI [of _ "[_]"])

lemma onStore_read_only: "read_only m \<Longrightarrow> onStore m c = (r, c') \<Longrightarrow> tabs c' = tabs c"
  unfolding read_only_def onStore_def by (auto split: prod.splits) (metis conn.select_convs(1) snd_conv world.surjective world.update_convs(1))

lemma encode_entry_hash: "encode_entry env e = Inr oh \<Longrightarrow> snd oh = sha256 env (jtext (observation_json (fst oh)))"
  by (auto simp: encode_entry_def Let_def json_Marshal_def split: sum.splits if_splits)

lemma acknowledge_map_of:
  assumes "map_of (acknowledged (syncer (acknowledge ohs w))) fp = Some h"
  shows "map_of (acknowledged (syncer w)) fp = Some h \<or> (\<exists>oh\<in>set ohs. wFingerprint (fst oh) = fp \<and> snd oh = h)"
proof -
  have "map_of (fold (\<lambda>(o', h). map_put (wFingerprint o') h) ohs a) fp = Some h \<Longrightarrow>
      map_of a fp = Some h \<or> (\<exists>oh\<in>set ohs. wFingerprint (fst oh) = fp \<and> snd oh = h)" for a
  proof (induction ohs arbitrary: a)
    case (Cons oh ohs)
    then show ?case by (fastforce simp: map_of_map_put_always case_prod_unfold split: if_splits)
  qed simp
  then show ?thesis using assms by (simp add: acknowledge_def)
qed

lemma push_batch_grows:
  assumes "\<forall>oh\<in>set b. snd oh = sha256 env (jtext (observation_json (fst oh)))"
    and run: "bindD (pushBatch env (map fst b)) (\<lambda>_. bindD (modifyD (acknowledge b)) (\<lambda>_. retD x)) c = (r, c')"
  shows "push_grows env (tabs c) (tabs c')"
proof -
  obtain r1 c1 where push: "pushBatch env (map fst b) c = (r1, c1)" by fastforce
  obtain xs where xs: "tabs c1 = (tabs c)\<lparr>requests := requests (tabs c) @ xs\<rparr>" "list_all (\<lambda>x. post_request env (fst x)) xs"
    using pushBatch_any [OF push] by blast
  show ?thesis
  proof (cases r1)
    case (Inl e)
    then have "c' = c1" using run push by (simp add: bindD_def)
    then show ?thesis using xs by (auto intro: push_grows_same)
  next
    case (Inr u)
    then have c': "tabs c' = acknowledge b (tabs c1)" using run push by (auto simp: bindD_def modifyD_def retD_def)
    obtain y where y: "batch_posted env (map fst b) y" "tabs c1 = (tabs c)\<lparr>requests := requests (tabs c) @ [y]\<rparr>"
      using pushBatch_Inr [OF push [unfolded Inr]] by blast
    have "map_of (acknowledged (syncer (tabs c))) fp = Some h \<or> vouched env [y] fp h"
      if "map_of (acknowledged (syncer (tabs c'))) fp = Some h" for fp h
      using acknowledge_map_of [OF that [unfolded c']] assms(1) y unfolding vouched_def by force
    then show ?thesis using y unfolding push_grows_def by (auto simp: c' acknowledge_def batch_posted_def intro!: exI [of _ "[y]"])
  qed
qed

lemma push_page_grows:
  assumes "push_page env full through after c = (r, c')"
  shows "push_grows env (tabs c) (tabs c')"
proof -
  obtain r0 where ctx: "ctxD env c = (r0, c)" by (cases "ctx_err env (calls c)") (auto simp: ctxD_def checkD_def retD_def raiseD_def)
  obtain r1 c1 where page: "onStore (ListPage (flt env) after through 16) c = (r1, c1)" by fastforce
  have same: "tabs c1 = tabs c" by (rule onStore_read_only [OF read_only_ListPage page])
  show ?thesis
  proof (cases "\<exists>es ohs. r1 = Inr es \<and> r0 = Inr () \<and> es \<noteq> [] \<and> scan_all (encode_entry env) es = Inr ohs
      \<and> filter (needs_push full (acknowledged (syncer (tabs c)))) ohs \<noteq> []")
    case True
    then obtain es ohs where eq: "r1 = Inr es" "r0 = Inr ()" "es \<noteq> []" "scan_all (encode_entry env) es = Inr ohs"
      "filter (needs_push full (acknowledged (syncer (tabs c)))) ohs \<noteq> []" by blast
    let ?b = "filter (needs_push full (acknowledged (syncer (tabs c)))) ohs"
    have "bindD (pushBatch env (map fst ?b)) (\<lambda>_. bindD (modifyD (acknowledge ?b)) (\<lambda>_. retD (Some (map eFingerprint es, True)))) c1 = (r, c')"
      using assms ctx page eq same by (simp add: push_page_def bindD_def [of "ctxD env"] bindD_def [of "onStore _"] bindD_liftD bindD_def [of "getD _"] getD_def)
    moreover have "\<forall>oh\<in>set ?b. snd oh = sha256 env (jtext (observation_json (fst oh)))"
      using scan_all_mem [OF eq(4)] encode_entry_hash by fastforce
    ultimately show ?thesis using push_batch_grows same by metis
  next
    case False
    then have "tabs c' = tabs c"
      using assms ctx page same
      by (cases r0; cases r1) (auto simp: push_page_def bindD_def liftD_def retD_def getD_def split: if_splits sum.splits prod.splits)
    then show ?thesis by simp
  qed
qed

lemma push_loop_grows: "push_loop env full through after seen sent c = (r, c') \<Longrightarrow> push_grows env (tabs c) (tabs c')"
proof (induction env full through after seen sent c rule: push_loop.induct)
  case (1 env full through after seen sent c)
  obtain r1 c1 where page: "push_page env full through after c = (r1, c1)" by fastforce
  have grow: "push_grows env (tabs c) (tabs c1)" by (rule push_page_grows [OF page])
  consider "c' = c1" | pg s where "r1 = Inr (Some (pg, s))" "push_loop env full through (last pg) (seen @ pg) (sent \<or> s) c1 = (r, c')"
    using "1.prems" page by (auto simp: push_loop.simps [of _ _ _ _ _ _ c] split: sum.splits option.splits)
  then show ?case
  proof cases
    case 2
    then show ?thesis using "1.IH" [OF page [symmetric] 2(1) refl refl] grow push_grows_trans by blast
  qed (use grow in simp)
qed


lemma push_any:
  assumes "pushObservations env c = (r, c')"
  shows "push_grows env (tabs c) (tabs c')"
proof -
  have read: "read_only (LastFingerprint f)" for f unfolding LastFingerprint_def by (rule read_only_queryD)
  define full where "full = full_due (clock env (calls c)) (lastFullSync (syncer (tabs c)))"
  obtain r1 c1 where last: "onStore (LastFingerprint (flt env)) c = (r1, c1)" by fastforce
  have same: "tabs c1 = tabs c" by (rule onStore_read_only [OF read last])
  show ?thesis
  proof (cases r1)
    case (Inl e)
    then have "c' = c1" using assms last by (simp add: pushObservations_def bindD_def nowD_def getD_def)
    then show ?thesis using same by simp
  next
    case (Inr through)
    obtain r2 c2 where loop: "push_loop env full through [] [] False c1 = (r2, c2)" by fastforce
    have grow: "push_grows env (tabs c) (tabs c2)" using push_loop_grows [OF loop] same by simp
    show ?thesis
    proof (cases r2)
      case (Inl e)
      then have "c' = c2" using assms last Inr loop by (simp add: pushObservations_def bindD_def nowD_def getD_def full_def)
      then show ?thesis using grow by simp
    next
      case (Inr ss)
      obtain seen sent where ss: "ss = (seen, sent)" by (cases ss)
      obtain r3 c3 where beat: "(if sent then retD () else pushBatch env []) c2 = (r3, c3)" by fastforce
      obtain xs where c3: "tabs c3 = (tabs c2)\<lparr>requests := requests (tabs c2) @ xs\<rparr>" "list_all (\<lambda>x. post_request env (fst x)) xs"
        using beat pushBatch_any [of env "[]" c2 r3 c3] by (cases sent) (auto simp: retD_def intro: that [of "[]"])
      have "tabs c' = tabs c3 \<or> tabs c' = finish_push seen full (clock env (calls c)) (tabs c3)"
        using assms last \<open>r1 = Inr through\<close> loop Inr ss beat
        by (cases r3) (auto simp: pushObservations_def bindD_def nowD_def getD_def full_def modifyD_def)
      then have "push_grows env (tabs c2) (tabs c')"
        unfolding push_grows_def using c3 by (auto simp: finish_push_def map_of_filter_fst split: if_splits)
      then show ?thesis using grow push_grows_trans by blast
    qed
  qed
qed

section \<open>Properties\<close>

text \<open>C9: a push that succeeds has brought the server up to date: of the stored fingerprints it has sent, in
  order and in requests of at most sixteen, exactly the observations that differ from what the
  server acknowledged last (all of them when a full push is due), or one request with none, each of
  them accepted; afterwards it remembers for every stored fingerprint, and for nothing else,
  the hash of its current observation; and the store is untouched.\<close>

theorem push_spec:
  assumes "db_ok (store (tabs c))" "pushObservations env c = (Inr (), c')"
  shows "\<exists>batches xs full ack.
    full = full_due (clock env (calls c)) (lastFullSync (syncer (tabs c)))
    \<and> concat batches = filter (changed env full (acknowledged (syncer (tabs c))) (store (tabs c))) (listed (store (tabs c)))
    \<and> list_all (\<lambda>b. length b \<le> 16) batches \<and> (batches = [[]] \<or> batches \<noteq> [] \<and> [] \<notin> set batches) \<and> list_all2 (posted env (store (tabs c))) batches xs
    \<and> map_of ack = map_of (map (\<lambda>r. (r_fp r, observation_hash env (store (tabs c)) r)) (listed (store (tabs c))))
    \<and> tabs c' = (tabs c)\<lparr>requests := requests (tabs c) @ xs, syncer := (syncer (tabs c))\<lparr>acknowledged := ack,
        lastFullSync := (if full then clock env (calls c) else lastFullSync (syncer (tabs c)))\<rparr>\<rparr>"
  by (rule push_run [OF assms])

text \<open>C11: only an accepted batch may suppress a later upload: whatever happens during a push, and whether it
  succeeds or fails, the store stays as it is, and a hash the syncer remembers afterwards was
  remembered before or belongs to an observation in a request of this push that the server accepted.\<close>

theorem push_acknowledges_accepted:
  assumes "pushObservations env c = (r, c')"
  shows "store (tabs c') = store (tabs c) \<and>
    (\<exists>xs. requests (tabs c') = requests (tabs c) @ xs \<and>
      (\<forall>fp h. map_of (acknowledged (syncer (tabs c'))) fp = Some h \<longrightarrow>
         map_of (acknowledged (syncer (tabs c))) fp = Some h \<or> vouched env xs fp h))"
  using push_any [OF assms] unfolding push_grows_def by blast

text \<open>C35: pushing works and settles: with a well-formed store, a server that accepts every request and no failing
  call, a push succeeds, and a further one before the next full push is due succeeds too and makes
  one request, the heartbeat that carries no observation.\<close>

theorem push_settles:
  assumes "serves env" "db_ok (store (tabs c))"
  shows "\<exists>c1. pushObservations env c = (Inr (), c1) \<and>
    (full_due (clock env (calls c1)) (lastFullSync (syncer (tabs c1))) \<or>
     (\<exists>c2 x. pushObservations env c1 = (Inr (), c2) \<and> batch_posted env [] x \<and> requests (tabs c2) = requests (tabs c1) @ [x]))"
proof -
  let ?t = "store (tabs c)"
  obtain c1 where c1: "pushObservations env c = (Inr (), c1)" using succeeds_push [OF assms] by (auto simp: succeeds_def)
  from push_run [OF assms(2) c1] obtain ack where
    ack: "map_of ack = map_of (map (\<lambda>r. (r_fp r, observation_hash env ?t r)) (listed ?t))"
    and t1: "store (tabs c1) = ?t" "acknowledged (syncer (tabs c1)) = ack" by force
  obtain c2 where c2: "pushObservations env c1 = (Inr (), c2)"
    using succeeds_push [OF assms(1), of c1] assms(2) t1 by (auto simp: succeeds_def)
  have d: "distinct (map r_fp (listed ?t))" using db_ok_keys [OF assms(2)] by (simp add: listed_def keys_ok_def distinct_map inj_on_def)
  have known: "map_of ack (r_fp r) = Some (observation_hash env ?t r)" if "r \<in> set (listed ?t)" for r
    unfolding ack using that d by (intro map_of_is_SomeI) (auto simp: comp_def)
  have "\<exists>x. batch_posted env [] x \<and> requests (tabs c2) = requests (tabs c1) @ [x]"
    if "\<not> full_due (clock env (calls c1)) (lastFullSync (syncer (tabs c1)))"
  proof -
    have not_full: "full_due (clock env (calls c1)) (lastFullSync (syncer (tabs c1))) = False" using that by simp
    have ok1: "db_ok (store (tabs c1))" using assms(2) t1 by simp
    have none: "filter (changed env False ack ?t) (listed ?t) = []" using known by (simp add: filter_empty_conv changed_def)
    obtain bs xs ack2 full where full: "full = False" and cb: "concat bs = filter (changed env full ack ?t) (listed ?t)"
      and bs: "bs = [[]] \<or> bs \<noteq> [] \<and> [] \<notin> set bs" "list_all2 (posted env ?t) bs xs"
      and c2': "tabs c2 = (tabs c1)\<lparr>requests := requests (tabs c1) @ xs, syncer := ack2\<rparr>"
      using push_run [OF ok1 c2] unfolding not_full t1 by blast
    have req: "requests (tabs c2) = requests (tabs c1) @ xs" by (simp add: c2')
    have "concat bs = []" using cb none full by simp
    then have "bs = [[]]" using bs(1) by (cases bs) auto
    then show ?thesis using bs(2) req by (auto simp: list_all2_Cons1 posted_def)
  qed
  then show ?thesis using c1 c2 by blast
qed

section \<open>A sample gate\<close>

definition sample_url :: url where
  "sample_url = \<lparr>uScheme = ''https'', uHostname = ''hub.example'', uHasUser = False, uFragment = [], uPath = ''/api/'', uRawQuery = [], uRest = []\<rparr>"

definition sample_env :: "string \<Rightarrow> sync_env" where
  "sample_env policy = \<lparr>flt = no_faults, http = (\<lambda>_ _ _. Inr \<lparr>rsStatusCode = 200, rsStatus = ''200 OK'', rsBody = policy\<rparr>),
     ctx_err = (\<lambda>_. None), clock = (\<lambda>_. sample_now), new_request_err = (\<lambda>_. None), sha256 = (\<lambda>s. s),
     lib = \<lparr>ParseRequestURI = (\<lambda>_. Inr sample_url), Parse = (\<lambda>_. Inr sample_url), URL_String = (\<lambda>u. uPath u @ ''?'' @ uRawQuery u)\<rparr>,
     cfg = sample_config, applyTrustedRanges = None, loadX509KeyPair = (\<lambda>_ _. Inl (External ''none'')),
     readFile = (\<lambda>_. Inl (External ''none'')), appendCertsFromPEM = (\<lambda>_. False)\<rparr>"

definition sample_gate :: "world conn" where
  "sample_gate = \<lparr>tabs = \<lparr>store = tabs sample_store,
     syncer = \<lparr>cursor = [], cursorKey = ''gatehub_cursor:0'', client = \<lparr>hcMinVersion = 0x0303, hcServerName = [], hcCertificates = [],
       hcRootCAs = None, hcCheckRedirect = UseLastResponse, hcTimeout = 15000000000\<rparr>, acknowledged = [], lastFullSync = 0\<rparr>,
     requests = [], trusted = [], sync_log = []\<rparr>, calls = 0\<rparr>"

lemma sample_serves: "serves (sample_env policy)"
  by (simp add: serves_def sample_env_def accepted_def)

lemma sample_gate_ok: "db_ok (store (tabs sample_gate))"
  using sample_store_ok by (simp add: sample_gate_def)

lemma sample_push: "\<exists>c'. pushObservations (sample_env policy) sample_gate = (Inr (), c')"
  using succeeds_push [OF sample_serves sample_gate_ok] by (auto simp: succeeds_def)

theorem push_spec_witness:
  "\<exists>c'. pushObservations (sample_env []) sample_gate = (Inr (), c') \<and> dom (map_of (acknowledged (syncer (tabs c')))) = {''aa'', ''ab'', ''ac''}"
proof -
  obtain c' where c': "pushObservations (sample_env []) sample_gate = (Inr (), c')" using sample_push by blast
  have keys: "map r_fp (listed (store (tabs sample_gate))) = [''aa'', ''ab'', ''ac'']" by code_simp
  have "dom (map_of (map (\<lambda>r. (r_fp r, h r)) rows)) = set (map r_fp rows)" for h :: "fp_row \<Rightarrow> string" and rows
    by (simp add: dom_map_of_conv_image_fst image_image)
  then show ?thesis using push_spec [OF sample_gate_ok c'] c' keys by force
qed

theorem push_acknowledges_accepted_witness:
  "\<exists>r c'. pushObservations (sample_env []) sample_gate = (r, c') \<and> store (tabs c') = tabs sample_store"
proof -
  obtain r c' where run: "pushObservations (sample_env []) sample_gate = (r, c')" by fastforce
  then show ?thesis using push_acknowledges_accepted [OF run] by (auto simp: sample_gate_def)
qed

theorem push_settles_witness: "\<exists>c1. pushObservations (sample_env []) sample_gate = (Inr (), c1)"
  using push_settles [OF sample_serves sample_gate_ok] by blast

end
