(* ===== verification/Pulling.thy ===== *)
theory Pulling
  imports Pushing
begin

text \<open>
  What a pull of \<open>src/controlplane/controlplane.go\<close> does to the store and to the syncer, and what
  holds of a syncer that runs: its cursor, its requests, and the rows it writes.
\<close>

section \<open>The effect of a pull\<close>

text \<open>The policy \<open>p\<close> is acceptable to the gate and has been written to the store, with its cursor.\<close>

definition policy_applied :: "sync_env \<Rightarrow> policyResponse \<Rightarrow> world \<Rightarrow> world \<Rightarrow> bool" where
  "policy_applied env p w w' \<longleftrightarrow>
     list_all (\<lambda>d. check_decision (cfg env) d = Inr ()) (pDecisions p)
     \<and> (\<exists>n m c1. ApplyDecisions (flt env) (clock env n) (pDecisions p) (cursorKey (syncer w)) (pCursor p)
            \<lparr>tabs = store w, calls = m\<rparr> = (Inr (), c1) \<and> store w' = tabs c1)
     \<and> requests w' = requests w
     \<and> syncer w' = (syncer w)\<lparr>cursor := (if pCursor p \<noteq> [] then pCursor p else cursor (syncer w))\<rparr>"

definition untouched :: "world \<Rightarrow> world \<Rightarrow> bool" where
  "untouched w w' \<longleftrightarrow> store w' = store w \<and> syncer w' = syncer w \<and> requests w' = requests w"

lemma scan_checks: "scan_all (check_decision c) ds = Inr us \<Longrightarrow> list_all (\<lambda>d. check_decision c d = Inr ()) ds"
  by (induction ds arbitrary: us) (auto split: sum.splits)

lemma wrapD_result: "wrapD context m c = (r, c') \<Longrightarrow> \<exists>r0. m c = (r0, c') \<and> (r = Inr x \<longleftrightarrow> r0 = Inr x)"
  by (auto simp: wrapD_def split: prod.splits sum.splits error.splits)

lemma apply_trusted_untouched: "apply_trusted env rs c = (r, c') \<Longrightarrow> untouched (tabs c) (tabs c')"
  by (auto simp: apply_trusted_def untouched_def bindD_def wrapD_def checkD_def modifyD_def retD_def raiseD_def
      split: prod.splits sum.splits option.splits error.splits)

lemma onStore_result: "onStore m c = (r, c') \<Longrightarrow>
    \<exists>c1. m \<lparr>tabs = store (tabs c), calls = calls c\<rparr> = (r, c1) \<and> tabs c' = (tabs c)\<lparr>store := tabs c1\<rparr>"
  by (auto simp: onStore_def split: prod.splits)

text \<open>The store of a gate takes a policy whole or not at all.\<close>

lemma store_policy_effect:
  assumes "wrapD pre (onStore (ApplyDecisions f now ds key cur)) c = (r, c')"
  shows "r \<noteq> Inr () \<and> tabs c' = tabs c \<or>
    r = Inr () \<and> (\<exists>d. ApplyDecisions f now ds key cur \<lparr>tabs = store (tabs c), calls = calls c\<rparr> = (Inr (), d)
      \<and> tabs c' = (tabs c)\<lparr>store := tabs d\<rparr>)"
proof -
  obtain r1 where r1: "onStore (ApplyDecisions f now ds key cur) c = (r1, c')" "r = Inr () \<longleftrightarrow> r1 = Inr ()"
    using wrapD_result [OF assms, of "()"] by blast
  obtain d where d: "ApplyDecisions f now ds key cur \<lparr>tabs = store (tabs c), calls = calls c\<rparr> = (r1, d)"
      "tabs c' = (tabs c)\<lparr>store := tabs d\<rparr>"
    using onStore_result [OF r1(1)] by blast
  show ?thesis
  proof (cases r1)
    case (Inl e)
    then have "tabs d = store (tabs c)" using d(1) atomic_ApplyDecisions unfolding atomic_def by fastforce
    then show ?thesis using d(2) r1(2) Inl by simp
  qed (use d r1(2) in simp)
qed

lemma apply_policy_effect:
  assumes "apply_policy env p c = (r, c')"
  shows "r \<noteq> Inr () \<and> untouched (tabs c) (tabs c') \<or> r = Inr () \<and> policy_applied env p (tabs c) (tabs c')"
proof (cases "scan_all (check_decision (cfg env)) (pDecisions p)")
  case (Inl e)
  then show ?thesis using assms by (auto simp: apply_policy_def bindD_def liftD_def untouched_def)
next
  case (Inr us)
  obtain r1 c1 where tr: "apply_trusted env (pTrustedRanges p) c = (r1, c1)" by fastforce
  have u1: "untouched (tabs c) (tabs c1)" by (rule apply_trusted_untouched [OF tr])
  obtain r2 c2 where ap: "wrapD ''apply policy'' (onStore (ApplyDecisions (flt env) (clock env (calls c1)) (pDecisions p)
      (cursorKey (syncer (tabs c1))) (pCursor p))) c1 = (r2, c2)" by fastforce
  consider e where "r1 = Inl e" | e where "r1 = Inr ()" "r2 = Inl e" | "r1 = Inr ()" "r2 = Inr ()"
    by (metis (full_types) old.sum.exhaust unit.exhaust)
  then show ?thesis
  proof cases
    case 1
    then show ?thesis using assms Inr tr u1 by (auto simp: apply_policy_def bindD_def liftD_def)
  next
    case 2
    then have "untouched (tabs c) (tabs c2)" using store_policy_effect [OF ap] u1 by (simp add: untouched_def)
    moreover have "c' = c2" "r \<noteq> Inr ()" using assms Inr tr 2 ap by (auto simp: apply_policy_def bindD_def liftD_def nowD_def getD_def)
    ultimately show ?thesis by simp
  next
    case 3
    then obtain d where d: "ApplyDecisions (flt env) (clock env (calls c1)) (pDecisions p) (cursorKey (syncer (tabs c))) (pCursor p)
        \<lparr>tabs = store (tabs c), calls = calls c1\<rparr> = (Inr (), d)" "tabs c2 = (tabs c1)\<lparr>store := tabs d\<rparr>"
      using store_policy_effect [OF ap] u1 by (auto simp: untouched_def)
    have c': "r = Inr ()" "tabs c' = (tabs c2)\<lparr>syncer := (syncer (tabs c2))\<lparr>cursor := (if pCursor p \<noteq> [] then pCursor p else cursor (syncer (tabs c2)))\<rparr>\<rparr>"
      using assms Inr tr ap 3 by (auto simp: apply_policy_def bindD_def liftD_def nowD_def getD_def modifyD_def retD_def split: if_splits)
    have "policy_applied env p (tabs c) (tabs c')"
      unfolding policy_applied_def using scan_checks [OF Inr] d c'(2) u1 by (auto simp: untouched_def)
    then show ?thesis using c'(1) by simp
  qed
qed

definition policy_body :: "sync_env \<Rightarrow> response \<Rightarrow> unit syncop" where
  "policy_body env resp =
     bindD (liftD (check_status ''GET policy'' (cInstanceID (cfg env)) resp)) (\<lambda>_.
     bindD (liftD (Decode_policy (rsBody resp))) (apply_policy env))"

lemma policy_body_effect:
  assumes "policy_body env resp c = (r, c')"
  shows "r \<noteq> Inr () \<and> untouched (tabs c) (tabs c') \<or>
    r = Inr () \<and> accepted (Inr resp) \<and> (\<exists>p. Decode_policy (rsBody resp) = Inr p \<and> policy_applied env p (tabs c) (tabs c'))"
proof (cases "check_status ''GET policy'' (cInstanceID (cfg env)) resp = Inr () \<and> (\<exists>p. Decode_policy (rsBody resp) = Inr p)")
  case True
  then obtain p where p: "Decode_policy (rsBody resp) = Inr p" and ok: "check_status ''GET policy'' (cInstanceID (cfg env)) resp = Inr ()"
    by blast
  have "accepted (Inr resp)" using ok by (auto simp: check_status_def accepted_def split: if_splits)
  moreover have "apply_policy env p c = (r, c')" using assms p ok by (simp add: policy_body_def bindD_liftD)
  ultimately show ?thesis using apply_policy_effect p by blast
next
  case False
  then have "c' = c" "r \<noteq> Inr ()" using assms by (auto simp: policy_body_def bindD_def liftD_def split: sum.splits)
  then show ?thesis by (simp add: untouched_def)
qed

text \<open>The exchange of a pull: a GET of the policy since the cursor.\<close>

definition policy_got :: "sync_env \<Rightarrow> string \<Rightarrow> request \<times> response result \<Rightarrow> bool" where
  "policy_got env since x \<longleftrightarrow>
     rqMethod (fst x) = ''GET''
     \<and> Inr (rqURL (fst x)) = endpointURL (lib env) (cURL (cfg env)) ''/v1/policy'' (cInstanceID (cfg env)) since
     \<and> rqHeader (fst x) = setAuth (cfg env) \<and> rqBody (fst x) = []"

text \<open>A pull that was not sent, one that got no response, and one that did.\<close>

lemma pull_cycle:
  assumes "pullPolicy env c = (r, c')"
  obtains (unsent) "tabs c' = tabs c" "r \<noteq> Inr ()"
  | (failed) req e where "policy_got env (cursor (syncer (tabs c))) (req, Inl e)"
      "tabs c' = (tabs c)\<lparr>requests := requests (tabs c) @ [(req, Inl e)]\<rparr>" "r \<noteq> Inr ()"
  | (answered) req resp c1 where "policy_got env (cursor (syncer (tabs c))) (req, Inr resp)"
      "tabs c1 = (tabs c)\<lparr>requests := requests (tabs c) @ [(req, Inr resp)]\<rparr>"
      "closeWithError (flt env) ''close response body'' (policy_body env resp) c1 = (r, c')"
proof -
  let ?address = "endpointURL (lib env) (cURL (cfg env)) ''/v1/policy'' (cInstanceID (cfg env)) (cursor (syncer (tabs c)))"
  show thesis
  proof (cases "\<exists>a. ?address = Inr a \<and> new_request_err env a = None")
    case False
    then show thesis using assms
      by (intro unsent) (auto simp: pullPolicy_def bindD_def getD_def liftD_def checkD_def raiseD_def split: sum.splits option.splits)
  next
    case True
    then obtain a where a: "?address = Inr a" "new_request_err env a = None" by blast
    define req where "req = \<lparr>rqMethod = ''GET'', rqURL = a, rqHeader = setAuth (cfg env), rqBody = []\<rparr>"
    define res where "res = http env (client (syncer (tabs c))) (calls c) req"
    define c1 where "c1 = \<lparr>tabs = (tabs c)\<lparr>requests := requests (tabs c) @ [(req, res)]\<rparr>, calls = Suc (calls c)\<rparr>"
    have got: "policy_got env (cursor (syncer (tabs c))) (req, res)" using a by (simp add: policy_got_def req_def)
    show thesis
    proof (cases res)
      case (Inl e)
      then have "c' = c1" "r = Inl e"
        using assms a by (auto simp: pullPolicy_def bindD_def getD_def liftD_def checkD_def retD_def clientDo_def Let_def req_def res_def c1_def)
      then show thesis using got Inl by (intro failed [of req e]) (simp_all add: c1_def)
    next
      case (Inr resp)
      have "closeWithError (flt env) ''close response body'' (policy_body env resp) c1 = (r, c')"
        using assms a Inr unfolding policy_body_def
        by (auto simp: pullPolicy_def bindD_def [of "getD _"] bindD_def [of "clientDo _ _"] bindD_liftD bindD_def [of "retD _"]
            getD_def checkD_def retD_def clientDo_def Let_def req_def res_def c1_def)
      then show thesis using got Inr by (intro answered [of req resp c1]) (simp_all add: c1_def)
    qed
  qed
qed

lemma pull_effect:
  assumes "pullPolicy env c = (r, c')"
  shows "\<exists>xs. list_all (policy_got env (cursor (syncer (tabs c)))) xs \<and> requests (tabs c') = requests (tabs c) @ xs \<and>
    (r \<noteq> Inr () \<and> store (tabs c') = store (tabs c) \<and> syncer (tabs c') = syncer (tabs c) \<or>
     (\<exists>req resp p. xs = [(req, Inr resp)] \<and> accepted (Inr resp) \<and> Decode_policy (rsBody resp) = Inr p
        \<and> policy_applied env p ((tabs c)\<lparr>requests := requests (tabs c')\<rparr>) (tabs c')))"
  using assms
proof (cases rule: pull_cycle)
  case unsent
  then show ?thesis by (intro exI [of _ "[]"]) simp
next
  case (failed req e)
  then show ?thesis by (intro exI [of _ "[(req, Inl e)]"]) simp
next
  case (answered req resp c1)
  obtain r1 c2 where body: "policy_body env resp c1 = (r1, c2)" by fastforce
  have c': "tabs c' = tabs c2" "r = Inr () \<Longrightarrow> r1 = Inr ()"
    using answered(3) body by (auto simp: closeWithError_def split: option.splits sum.splits)
  have "r1 \<noteq> Inr () \<and> untouched (tabs c1) (tabs c2) \<or> accepted (Inr resp) \<and>
      (\<exists>p. Decode_policy (rsBody resp) = Inr p \<and> policy_applied env p (tabs c1) (tabs c2))"
    using policy_body_effect [OF body] by blast
  moreover have "requests (tabs c') = requests (tabs c) @ [(req, Inr resp)]"
    using calculation c' answered(2) by (auto simp: untouched_def policy_applied_def)
  ultimately show ?thesis
    using c' answered(1,2) by (intro exI [of _ "[(req, Inr resp)]"]) (auto simp: untouched_def)
qed

section \<open>Policies\<close>

lemma scope_pointer_ok: "scope_pointer_of_json v = Inr (Some s) \<Longrightarrow> scope_ok s"
  using Scope_New_scope_ok by (auto simp: scope_pointer_of_json_def scope_of_json_def split: json.splits sum.splits)

lemma bindR_Inr: "bindR r k = Inr y \<longleftrightarrow> (\<exists>x. r = Inr x \<and> k x = Inr y)"
  by (auto simp: bindR_def split: sum.splits)

lemma Decode_policy_scopes:
  assumes "Decode_policy body = Inr p" "d \<in> set (pDecisions p)" "dApprovalRanges d = Some s"
  shows "scope_ok s"
proof -
  obtain vs where "scan_all decision_of_json vs = Inr (pDecisions p)"
    using assms(1) by (auto simp: Decode_policy_def policy_of_json_def bindR_Inr split: option.splits)
  then obtain v where "decision_of_json v = Inr d" using scan_all_mem [OF _ assms(2)] by blast
  then show ?thesis using assms(3) scope_pointer_ok by (auto simp: decision_of_json_def bindR_Inr)
qed

lemma check_decision_ok:
  "check_decision c d = Inr () \<Longrightarrow> Decision_Validate d = Inr () \<and> (dApprovalRanges d = None \<or> cSupportsApprovalRanges c)"
  by (auto simp: check_decision_def split: sum.splits if_splits)

text \<open>Rows without a scope.\<close>

definition unscoped :: "tables \<Rightarrow> bool" where
  "unscoped t \<longleftrightarrow> (\<forall>r\<in>set (fingerprints t). r_ranges r = None)"

lemma unscoped_apply_decisions:
  "unscoped t \<Longrightarrow> \<forall>(d, sc)\<in>set dss. sc = None \<Longrightarrow> unscoped (apply_decisions now dss t)"
proof -
  have "unscoped t \<Longrightarrow> unscoped (upsert_decision fp s l None now t)" for fp s l t
    by (auto simp: unscoped_def upsert_decision_def append_fp_def update_fp_def split: option.splits)
  then show "unscoped t \<Longrightarrow> \<forall>(d, sc)\<in>set dss. sc = None \<Longrightarrow> unscoped (apply_decisions now dss t)"
    unfolding apply_decisions_def by (induction dss arbitrary: t) auto
qed

definition with_policy :: "string \<Rightarrow> string \<Rightarrow> string \<Rightarrow> (decision \<times> string option) list \<Rightarrow> tables \<Rightarrow> tables" where
  "with_policy key cur now dss t =
     (let u = apply_decisions now dss t in if key \<noteq> [] \<and> cur \<noteq> [] then upsert_meta key cur u else u)"

lemma policy_applied_tables:
  assumes "policy_applied env p w w'"
  obtains dss n where "store w' = with_policy (cursorKey (syncer w)) (pCursor p) (encodeTime (clock env n)) dss (store w)"
    "\<And>d sc. (d, sc) \<in> set dss \<Longrightarrow> d \<in> set (pDecisions p) \<and> decision_scope d = Inr sc"
proof -
  obtain n m c1 where run: "ApplyDecisions (flt env) (clock env n) (pDecisions p) (cursorKey (syncer w)) (pCursor p)
            \<lparr>tabs = store w, calls = m\<rparr> = (Inr (), c1)" and w': "store w' = tabs c1"
    using assms by (auto simp: policy_applied_def)
  show thesis
  proof (rule ApplyDecisions_Inr [OF run])
    fix scopes
    assume sc: "scan_all decision_scope (pDecisions p) = Inr scopes"
      and t: "tabs c1 = (if cursorKey (syncer w) \<noteq> [] \<and> pCursor p \<noteq> []
        then upsert_meta (cursorKey (syncer w)) (pCursor p)
          (apply_decisions (encodeTime (clock env n)) (zip (pDecisions p) scopes) (tabs \<lparr>tabs = store w, calls = m\<rparr>))
        else apply_decisions (encodeTime (clock env n)) (zip (pDecisions p) scopes) (tabs \<lparr>tabs = store w, calls = m\<rparr>))"
    have "store w' = with_policy (cursorKey (syncer w)) (pCursor p) (encodeTime (clock env n)) (zip (pDecisions p) scopes) (store w)"
      by (simp add: w' t with_policy_def)
    moreover have "d \<in> set (pDecisions p) \<and> decision_scope d = Inr s" if "(d, s) \<in> set (zip (pDecisions p) scopes)" for d s
      using that sc set_zip_leftD [OF that] unfolding scan_all_Inr list_all2_iff by blast
    ultimately show thesis by (rule that)
  qed
qed

lemma policy_applied_db_ok:
  assumes "policy_applied env p w w'" "\<forall>n. four_digit_year (clock env n)" "db_ok (store w)"
    and "\<And>d s. d \<in> set (pDecisions p) \<Longrightarrow> dApprovalRanges d = Some s \<Longrightarrow> scope_ok s"
  shows "db_ok (store w')"
proof (rule policy_applied_tables [OF assms(1)])
  fix dss n
  assume w': "store w' = with_policy (cursorKey (syncer w)) (pCursor p) (encodeTime (clock env n)) dss (store w)"
    and mem: "\<And>d sc. (d, sc) \<in> set dss \<Longrightarrow> d \<in> set (pDecisions p) \<and> decision_scope d = Inr sc"
  have "Valid (dStatus d) \<and> (\<exists>x. scan_ranges (dStatus d) s = Inr x)" if "(d, s) \<in> set dss" for d s
    using decision_scope_scan [of d s] mem [OF that] assms(4) [of d] by blast
  then have "db_ok (apply_decisions (encodeTime (clock env n)) dss (store w))"
    using assms(2,3) by (intro db_ok_apply_decisions) auto
  then show ?thesis by (simp add: w' with_policy_def Let_def db_ok_upsert_meta)
qed

lemma policy_applied_unscoped:
  assumes "policy_applied env p w w'" "\<not> cSupportsApprovalRanges (cfg env)" "unscoped (store w)"
  shows "unscoped (store w')"
proof (rule policy_applied_tables [OF assms(1)])
  fix dss n
  assume w': "store w' = with_policy (cursorKey (syncer w)) (pCursor p) (encodeTime (clock env n)) dss (store w)"
    and mem: "\<And>d sc. (d, sc) \<in> set dss \<Longrightarrow> d \<in> set (pDecisions p) \<and> decision_scope d = Inr sc"
  have "s = None" if ds: "(d, s) \<in> set dss" for d s
  proof -
    have "check_decision (cfg env) d = Inr ()" using assms(1) mem [OF ds] by (auto simp: policy_applied_def list_all_iff)
    then have "dApprovalRanges d = None" using check_decision_ok assms(2) by blast
    then show ?thesis using mem [OF ds] by (auto simp: decision_scope_def split: sum.splits)
  qed
  then have "unscoped (apply_decisions (encodeTime (clock env n)) dss (store w))"
    using assms(3) by (intro unscoped_apply_decisions) auto
  then show ?thesis by (simp add: w' with_policy_def Let_def unscoped_def upsert_meta_def split: option.splits)
qed

lemma policy_applied_cursor:
  assumes "policy_applied env p w w'"
  shows "lookup_meta k (store w') = (if k = cursorKey (syncer w) \<and> k \<noteq> [] \<and> pCursor p \<noteq> [] then Some (pCursor p) else lookup_meta k (store w))"
proof (rule policy_applied_tables [OF assms])
  fix dss n
  assume w': "store w' = with_policy (cursorKey (syncer w)) (pCursor p) (encodeTime (clock env n)) dss (store w)"
  have "lookup_meta k (apply_decisions (encodeTime (clock env n)) dss (store w)) = lookup_meta k (store w)"
    using apply_decisions_frame [of "encodeTime (clock env n)" dss "store w"] by (simp add: lookup_meta_def)
  then show ?thesis by (auto simp: w' with_policy_def Let_def meta_kv.get_put)
qed

section \<open>Invariants of a running syncer\<close>

text \<open>A property of the world that every push and every pull keeps is kept by a running syncer, which never fails.\<close>

locale sync_invariant =
  fixes env :: sync_env and P :: "world \<Rightarrow> bool"
  assumes push: "P (tabs c) \<Longrightarrow> pushObservations env c = (r, c') \<Longrightarrow> P (tabs c')"
    and pull: "P (tabs c) \<Longrightarrow> pullPolicy env c = (r, c') \<Longrightarrow> P (tabs c')"
    and log: "P w \<Longrightarrow> P (w\<lparr>sync_log := l\<rparr>)"
begin

lemma log_error_keeps:
  assumes "log_error prefix m c = (r, c')" "\<And>r c'. m c = (r, c') \<Longrightarrow> P (tabs c')"
  shows "r = Inr () \<and> P (tabs c')"
proof -
  obtain r1 c1 where m: "m c = (r1, c1)" by fastforce
  then show ?thesis
    using assms(1) assms(2) [OF m] log by (cases r1) (auto simp: log_error_def catchD_def modifyD_def)
qed

lemma syncOnce_keeps:
  assumes "syncOnce env c = (r, c')" "P (tabs c)"
  shows "r = Inr () \<and> P (tabs c')"
proof -
  obtain r1 c1 where l1: "log_error ''gatehub observation sync'' (pushObservations env) c = (r1, c1)" by fastforce
  have c1: "r1 = Inr () \<and> P (tabs c1)" by (rule log_error_keeps [OF l1 push [OF assms(2)]])
  then have l2: "log_error ''gatehub policy sync'' (pullPolicy env) c1 = (r, c')"
    using assms(1) l1 by (simp add: syncOnce_def bindD_def)
  show ?thesis using c1 by (intro log_error_keeps [OF l2 pull]) auto
qed

lemma run_loop_keeps: "run_loop env es c = (r, c') \<Longrightarrow> P (tabs c) \<Longrightarrow> r = Inr () \<and> P (tabs c')"
proof (induction es arbitrary: c)
  case (Cons e es)
  obtain r1 c1 where s1: "syncOnce env c = (r1, c1)" by fastforce
  show ?case
  proof (cases e)
    case Tick
    have "r1 = Inr () \<and> P (tabs c1)" by (rule syncOnce_keeps [OF s1 Cons.prems(2)])
    then show ?thesis using Cons.IH [of c1] Cons.prems(1) s1 Tick by (simp add: bindD_def)
  next
    case CtxDone
    then show ?thesis using Cons.prems by (simp add: retD_def)
  qed
qed (simp add: retD_def)

lemma Run_keeps:
  assumes "Run env es c = (r, c')" "P (tabs c)"
  shows "r = Inr () \<and> P (tabs c')"
proof -
  obtain r1 c1 where s1: "syncOnce env c = (r1, c1)" by fastforce
  have "r1 = Inr () \<and> P (tabs c1)" by (rule syncOnce_keeps [OF s1 assms(2)])
  then show ?thesis using run_loop_keeps [of es c1 r c'] assms(1) s1 by (simp add: Run_def bindD_def)
qed

end

text \<open>What a push leaves alone, and what a pull may change.\<close>

lemma push_frame:
  assumes "pushObservations env c = (r, c')"
  shows "store (tabs c') = store (tabs c)" "cursor (syncer (tabs c')) = cursor (syncer (tabs c))"
    "cursorKey (syncer (tabs c')) = cursorKey (syncer (tabs c))" "client (syncer (tabs c')) = client (syncer (tabs c))"
  using push_any [OF assms] by (simp_all add: push_grows_def)

lemma pull_cases:
  assumes "pullPolicy env c = (r, c')"
  obtains (unchanged) "store (tabs c') = store (tabs c)" "syncer (tabs c') = syncer (tabs c)"
  | (applied) body p where "Decode_policy body = Inr p" "policy_applied env p ((tabs c)\<lparr>requests := requests (tabs c')\<rparr>) (tabs c')"
  using pull_effect [OF assms] by blast

text \<open>The cursor in memory is the one a new syncer would read from the store.\<close>

definition cursor_synced :: "sync_env \<Rightarrow> world \<Rightarrow> bool" where
  "cursor_synced env w \<longleftrightarrow> cursorKey (syncer w) = cursor_key env \<and>
     (case lookup_meta (cursor_key env) (store w) of None \<Rightarrow> [] | Some v \<Rightarrow> v) = cursor (syncer w)"

interpretation cursor_inv: sync_invariant env "cursor_synced env" for env
proof unfold_locales
  show "cursor_synced env (tabs c')" if "cursor_synced env (tabs c)" "pushObservations env c = (r, c')" for c r c'
    using push_frame [OF that(2)] that(1) by (simp add: cursor_synced_def)
  show "cursor_synced env (tabs c')" if "cursor_synced env (tabs c)" "pullPolicy env c = (r, c')" for c r c'
  proof (cases rule: pull_cases [OF that(2)])
    case (2 body p)
    then show ?thesis using policy_applied_cursor [OF 2(2)] that(1) by (auto simp: cursor_synced_def policy_applied_def cursor_key_def)
  qed (use that in \<open>simp add: cursor_synced_def\<close>)
qed (simp add: cursor_synced_def)

text \<open>The store is well formed; a gate that does not enforce scopes has none.\<close>

definition store_sound :: "sync_env \<Rightarrow> world \<Rightarrow> bool" where
  "store_sound env w \<longleftrightarrow> ((\<forall>n. four_digit_year (clock env n)) \<longrightarrow> db_ok (store w))
     \<and> (cSupportsApprovalRanges (cfg env) \<or> unscoped (store w))"

interpretation store_inv: sync_invariant env "store_sound env" for env
proof unfold_locales
  show "store_sound env (tabs c')" if "store_sound env (tabs c)" "pushObservations env c = (r, c')" for c r c'
    using push_frame [OF that(2)] that(1) by (simp add: store_sound_def)
  show "store_sound env (tabs c')" if "store_sound env (tabs c)" "pullPolicy env c = (r, c')" for c r c'
  proof (cases rule: pull_cases [OF that(2)])
    case (2 body p)
    then show ?thesis
      using policy_applied_db_ok [OF 2(2)] policy_applied_unscoped [OF 2(2)] Decode_policy_scopes [OF 2(1)] that(1)
      by (auto simp: store_sound_def)
  qed (use that in \<open>simp add: store_sound_def\<close>)
qed (simp add: store_sound_def)

text \<open>
  Requests go to the two endpoints of the configured address, with the configured credentials, through
  a client that follows no redirect.
\<close>

definition bound_to_config :: "sync_env \<Rightarrow> world \<Rightarrow> bool" where
  "bound_to_config env w \<longleftrightarrow> hcCheckRedirect (client (syncer w)) = UseLastResponse \<and> 0x0303 \<le> hcMinVersion (client (syncer w))
     \<and> (\<forall>x\<in>set (requests w). post_request env (fst x) \<or> (\<exists>since. policy_got env since x))"

lemma push_grows_bound: "push_grows env w w' \<Longrightarrow> bound_to_config env w \<Longrightarrow> bound_to_config env w'"
  unfolding bound_to_config_def push_grows_def list_all_iff by (elim conjE exE) (simp add: ball_Un)

interpretation request_inv: sync_invariant env "bound_to_config env" for env
proof unfold_locales
  show "bound_to_config env (tabs c')" if "bound_to_config env (tabs c)" "pushObservations env c = (r, c')" for c r c'
    by (rule push_grows_bound [OF push_any [OF that(2)] that(1)])
  show "bound_to_config env (tabs c')" if run: "bound_to_config env (tabs c)" "pullPolicy env c = (r, c')" for c r c'
  proof -
    obtain xs where "list_all (policy_got env (cursor (syncer (tabs c)))) xs" "requests (tabs c') = requests (tabs c) @ xs"
      using pull_effect [OF run(2)] by blast
    moreover have "client (syncer (tabs c')) = client (syncer (tabs c))"
      by (cases rule: pull_cases [OF run(2)]) (auto simp: policy_applied_def)
    ultimately show ?thesis using run(1) by (auto simp: bound_to_config_def list_all_iff)
  qed
qed (simp add: bound_to_config_def)

section \<open>Starting\<close>

lemma Syncer_New_Inr:
  assumes "Syncer_New env c = (Inr u, c')"
  shows "Config_Validate (lib env) (cfg env) = Inr ()" "store (tabs c') = store (tabs c)" "requests (tabs c') = requests (tabs c)"
    "cursor_synced env (tabs c')" "hcCheckRedirect (client (syncer (tabs c'))) = UseLastResponse" "hcMinVersion (client (syncer (tabs c'))) = 0x0303"
    "acknowledged (syncer (tabs c')) = []" "lastFullSync (syncer (tabs c')) = 0"
proof -
  obtain u' cl cur c1 where v: "Config_Validate (lib env) (cfg env) = Inr u'" and cl: "newHTTPClient env = Inr cl"
    and cur: "onStore (GetMeta (flt env) (cursor_key env)) c = (Inr cur, c1)"
    and c': "c' = c1\<lparr>tabs := (tabs c1)\<lparr>syncer := \<lparr>cursor = cur, cursorKey = cursor_key env, client = cl, acknowledged = [], lastFullSync = 0\<rparr>\<rparr>\<rparr>"
    using assms unfolding Syncer_New_def bindD_Inr liftD_Inr syncop_Inr by blast
  obtain c2 where c2: "GetMeta (flt env) (cursor_key env) \<lparr>tabs = store (tabs c), calls = calls c\<rparr> = (Inr cur, c2)"
    "tabs c1 = (tabs c)\<lparr>store := tabs c2\<rparr>" using cur by (auto simp: onStore_Inr)
  have same: "tabs c2 = store (tabs c)" "cur = (case lookup_meta (cursor_key env) (store (tabs c)) of None \<Rightarrow> [] | Some v \<Rightarrow> v)"
    using GetMeta_Inr [OF c2(1)] by (simp_all add: meta_value_def)
  have client: "hcCheckRedirect cl = UseLastResponse" "hcMinVersion cl = 0x0303"
    using cl by (auto simp: newHTTPClient_def Let_def bindR_Inr)
  show "Config_Validate (lib env) (cfg env) = Inr ()" using v by simp
  show "store (tabs c') = store (tabs c)" "requests (tabs c') = requests (tabs c)" "cursor_synced env (tabs c')"
    "hcCheckRedirect (client (syncer (tabs c'))) = UseLastResponse" "hcMinVersion (client (syncer (tabs c'))) = 0x0303"
    "acknowledged (syncer (tabs c')) = []" "lastFullSync (syncer (tabs c')) = 0"
    using c' c2(2) same client by (simp_all add: cursor_synced_def)
qed

lemma Start_Inr:
  assumes "Start env c = (Inr (Some i), c')"
  shows "Syncer_New env c = (Inr (), c')" "i = Interval (cfg env)"
  using assms by (auto simp: Start_def bindD_Inr liftD_Inr retD_Inr split: if_splits)

section \<open>Properties of pulling\<close>


text \<open>C13: a restart loses no policy: after a successful start and any number of sync cycles, whatever failed in them, a new
  syncer on the same configuration starts from the cursor the running one had reached.\<close>

theorem restart_resumes:
  assumes "Start env c = (Inr (Some i), c1)" "Run env es c1 = (r, c2)" "Syncer_New env c2 = (Inr (), c3)"
  shows "r = Inr () \<and> cursor (syncer (tabs c3)) = cursor (syncer (tabs c2)) \<and> cursorKey (syncer (tabs c3)) = cursorKey (syncer (tabs c2))"
proof -
  have "cursor_synced env (tabs c1)" using Syncer_New_Inr(4) [OF Start_Inr(1) [OF assms(1)]] .
  then have "r = Inr () \<and> cursor_synced env (tabs c2)" by (rule cursor_inv.Run_keeps [OF assms(2)])
  then show ?thesis using Syncer_New_Inr(2,4) [OF assms(3)] by (simp add: cursor_synced_def)
qed

text \<open>C12: no policy can damage the store: however the server answers and whatever fails, a running syncer
  returns without an error, keeps the store well formed, and on a gate that does not enforce scopes stores none.\<close>

theorem run_keeps_store:
  assumes "Run env es c = (r, c')" "\<forall>n. four_digit_year (clock env n)" "db_ok (store (tabs c))"
    "cSupportsApprovalRanges (cfg env) \<or> unscoped (store (tabs c))"
  shows "r = Inr () \<and> db_ok (store (tabs c')) \<and> (cSupportsApprovalRanges (cfg env) \<or> unscoped (store (tabs c')))"
  using store_inv.Run_keeps [OF assms(1)] assms(2-4) by (simp add: store_sound_def)


section \<open>Witnesses\<close>

definition sample_policy :: string where
  "sample_policy = jtext (JObj [(''cursor'', JStr ''7''), (''decisions'', JArr [JObj [(''fingerprint'', JStr ''aa''), (''status'', JStr ''blocked'')]])])"

lemma sample_decode: "Decode_policy sample_policy =
    Inr \<lparr>pCursor = ''7'', pDecisions = [\<lparr>dFingerprint = ''aa'', dStatus = ''blocked'', dLabel = [], dApprovalRanges = None\<rparr>], pTrustedRanges = None\<rparr>"
  by code_simp

lemma sample_new: "\<exists>c'. Syncer_New (sample_env policy) c = (Inr (), c')"
proof -
  have cfg: "cfg (sample_env policy) = sample_config" "flt (sample_env policy) = no_faults" by (simp_all add: sample_env_def)
  have lib: "lib (sample_env policy) = lib (sample_env [])" by (simp add: sample_env_def)
  have "Config_Validate (lib (sample_env [])) sample_config = Inr ()" by code_simp
  moreover have "\<exists>cl. newHTTPClient (sample_env policy) = Inr cl" by (simp add: newHTTPClient_def sample_env_def sample_config_def bindR_def)
  moreover have "\<exists>v c1. onStore (GetMeta no_faults key) c = (Inr v, c1)" for key
    by (auto simp: onStore_def GetMeta_def catchD_def retD_def split: prod.splits option.splits)
  ultimately show ?thesis
    unfolding Syncer_New_def by (auto simp: cfg lib bindD_Inr liftD_Inr retD_Inr syncop_Inr)
qed

lemma sample_start: "\<exists>c'. Start (sample_env policy) sample_gate = (Inr (Some 30000000000), c')"
proof -
  have cfg: "cfg (sample_env policy) = sample_config" "lib (sample_env policy) = lib (sample_env [])" by (simp_all add: sample_env_def)
  have "Interval sample_config = 30000000000" "Enabled sample_config" "Config_Validate (lib (sample_env [])) sample_config = Inr ()"
    by code_simp+
  then show ?thesis using sample_new [of policy sample_gate] by (auto simp: Start_def cfg bindD_Inr liftD_Inr retD_Inr)
qed

lemma sample_run: "\<exists>c1 r c2. Start (sample_env policy) sample_gate = (Inr (Some 30000000000), c1) \<and> Run (sample_env policy) [Tick, CtxDone] c1 = (r, c2)"
  using sample_start by (meson prod.exhaust)


lemma sample_pull: "fst (pullPolicy (sample_env sample_policy) sample_gate) = Inr ()"
  by code_simp


theorem restart_resumes_witness:
  "\<exists>c1 r c2 c3. Run (sample_env sample_policy) [Tick, CtxDone] c1 = (r, c2) \<and> Syncer_New (sample_env sample_policy) c2 = (Inr (), c3)
    \<and> cursor (syncer (tabs c3)) = cursor (syncer (tabs c2))"
proof -
  obtain c1 r c2 where run: "Start (sample_env sample_policy) sample_gate = (Inr (Some 30000000000), c1)"
    "Run (sample_env sample_policy) [Tick, CtxDone] c1 = (r, c2)" using sample_run by blast
  obtain c3 where c3: "Syncer_New (sample_env sample_policy) c2 = (Inr (), c3)" using sample_new by blast
  show ?thesis using restart_resumes [OF run c3] run c3 by blast
qed

theorem run_keeps_store_witness:
  "\<exists>r c'. Run (sample_env sample_policy) [Tick, CtxDone] sample_gate = (r, c') \<and> db_ok (store (tabs c'))"
proof -
  obtain r c' where run: "Run (sample_env sample_policy) [Tick, CtxDone] sample_gate = (r, c')" by fastforce
  have "four_digit_year sample_now" by code_simp
  then have "\<forall>n. four_digit_year (clock (sample_env sample_policy) n)" by (simp add: sample_env_def)
  moreover have "cSupportsApprovalRanges (cfg (sample_env sample_policy))" by (simp add: sample_env_def sample_config_def)
  ultimately show ?thesis using run_keeps_store [OF run _ sample_gate_ok] run by blast
qed

end
