(* ===== verification/Invariants.thy ===== *)
theory Invariants
  imports Opening
begin

text \<open>
  The invariant of an open store: whatever operations of \<open>src/store\<close> run on it, in whatever order
  and with whatever statements failing, every row can be read back and no history exceeds its bound.
\<close>

section \<open>Bounded histories\<close>

lemma history_lengths:
  "length (ips_of g t) = length (filter (\<lambda>p. fst p = g) (fingerprint_ips t))"
  "length (ports_of g t) = length (filter (\<lambda>p. fst p = g) (fingerprint_ports t))"
  "length (sightings_of g t) = length (filter (\<lambda>s. s_fp s = g) (fingerprint_sightings t))"
  by (simp_all add: ips_of_def ports_of_def sightings_of_def case_prod_unfold)

lemma history_ok_iff:
  "history_ok t \<longleftrightarrow> (\<forall>g. length (filter (\<lambda>p. fst p = g) (fingerprint_ips t)) \<le> MaxObservationValues
     \<and> length (filter (\<lambda>p. fst p = g) (fingerprint_ports t)) \<le> MaxObservationValues
     \<and> length (filter (\<lambda>s. s_fp s = g) (fingerprint_sightings t)) \<le> MaxObservationValues)"
  by (simp add: history_ok_def history_lengths)

lemma history_ok_same:
  assumes "fingerprint_ips u = fingerprint_ips t" "fingerprint_ports u = fingerprint_ports t"
    "fingerprint_sightings u = fingerprint_sightings t"
  shows "history_ok u = history_ok t"
  using assms by (simp add: history_ok_iff)

lemma length_filter_twice: "length (filter P (filter Q xs)) \<le> length (filter P xs)"
  by (induction xs) auto

lemma history_ok_delete_fps:
  assumes "history_ok t"
  shows "history_ok (snd (delete_fps P t))"
proof -
  define gone where "gone = set (map r_fp (filter P (fingerprints t)))"
  have eq: "fingerprint_ips (snd (delete_fps P t)) = filter (\<lambda>(f, x). f \<notin> gone) (fingerprint_ips t)"
    "fingerprint_ports (snd (delete_fps P t)) = filter (\<lambda>(f, x). f \<notin> gone) (fingerprint_ports t)"
    "fingerprint_sightings (snd (delete_fps P t)) = filter (\<lambda>s. s_fp s \<notin> gone) (fingerprint_sightings t)"
    by (simp_all add: delete_fps_def Let_def gone_def)
  show ?thesis
    using assms unfolding history_ok_iff eq by (meson length_filter_twice order_trans)
qed

lemma history_ok_rows:
  "history_ok (update_fp fp f t) = history_ok t" "history_ok (append_fp r t) = history_ok t"
  "history_ok (upsert_meta k v t) = history_ok t" "history_ok (delete_cursors t) = history_ok t"
  "history_ok (delete_alert rng ip t) = history_ok t" "history_ok (snd (insert_alert rng ip fp now t)) = history_ok t"
  "history_ok (upsert_decision fp s l sc now t) = history_ok t"
  by (rule history_ok_same; simp add: update_fp_def append_fp_def upsert_meta_def delete_cursors_def delete_alert_def insert_alert_def
      upsert_decision_def split: option.splits)+

lemma record_history_other:
  assumes "g \<noteq> fp"
  shows "length (ips_of g (record_history fp ip port now t)) \<le> length (ips_of g t)"
    "length (ports_of g (record_history fp ip port now t)) \<le> length (ports_of g t)"
    "length (sightings_of g (record_history fp ip port now t)) \<le> length (sightings_of g t)"
proof -
  note fold = trim_ips_def trim_ports_def trim_sightings_def insert_ip_def insert_port_def Let_def
  have trims: "length (filter (\<lambda>p. fst p = g) (fingerprint_ips (trim_ips fp u))) \<le> length (filter (\<lambda>p. fst p = g) (fingerprint_ips u))"
    "length (filter (\<lambda>p. fst p = g) (fingerprint_ports (trim_ports fp u))) \<le> length (filter (\<lambda>p. fst p = g) (fingerprint_ports u))"
    "length (filter (\<lambda>s. s_fp s = g) (fingerprint_sightings (trim_sightings fp u))) \<le> length (filter (\<lambda>s. s_fp s = g) (fingerprint_sightings u))" for u
    by (simp_all add: fold length_filter_twice del: filter_filter)
  have ups: "length (filter (\<lambda>s. s_fp s = g) (fingerprint_sightings (upsert_sighting fp ip port now u)))
      = length (filter (\<lambda>s. s_fp s = g) (fingerprint_sightings u))" for u
  proof -
    have "length (filter (\<lambda>s. s_fp s = g) (map (\<lambda>s. if s_key s = (fp, ip, port) then s\<lparr>s_seen := now\<rparr> else s) ss))
        = length (filter (\<lambda>s. s_fp s = g) ss)" for ss by (induction ss) auto
    then show ?thesis using assms by (simp add: upsert_sighting_def)
  qed
  have ins: "filter (\<lambda>p. fst p = g) (fingerprint_ips (insert_ip fp ip u)) = filter (\<lambda>p. fst p = g) (fingerprint_ips u)"
    "filter (\<lambda>p. fst p = g) (fingerprint_ports (insert_port fp port u)) = filter (\<lambda>p. fst p = g) (fingerprint_ports u)"
    "fingerprint_sightings (insert_ip fp ip u) = fingerprint_sightings u" "fingerprint_sightings (insert_port fp port u) = fingerprint_sightings u" for u
    using assms by (simp_all add: fold)
  define u where "u = (let t1 = (if ip \<noteq> [] then insert_ip fp ip t else t); t2 = (if port \<noteq> 0 then insert_port fp port t1 else t1)
      in if ip \<noteq> [] then upsert_sighting fp ip port now t2 else t2)"
  have u: "record_history fp ip port now t = trim_ports fp (trim_ips fp (trim_sightings fp u))"
    by (simp add: record_history_def u_def Let_def)
  have pre: "filter (\<lambda>p. fst p = g) (fingerprint_ips u) = filter (\<lambda>p. fst p = g) (fingerprint_ips t)"
    "filter (\<lambda>p. fst p = g) (fingerprint_ports u) = filter (\<lambda>p. fst p = g) (fingerprint_ports t)"
    "length (filter (\<lambda>s. s_fp s = g) (fingerprint_sightings u)) = length (filter (\<lambda>s. s_fp s = g) (fingerprint_sightings t))"
    by (simp_all add: u_def Let_def ins ups frame_columns)
  show "length (ips_of g (record_history fp ip port now t)) \<le> length (ips_of g t)"
    using trims(1) [of "trim_sightings fp u"] by (simp add: history_lengths u frame_columns pre)
  show "length (ports_of g (record_history fp ip port now t)) \<le> length (ports_of g t)"
    using trims(2) [of "trim_ips fp (trim_sightings fp u)"] by (simp add: history_lengths u frame_columns pre)
  show "length (sightings_of g (record_history fp ip port now t)) \<le> length (sightings_of g t)"
    using trims(3) [of u] by (simp add: history_lengths u frame_sightings pre)
qed

lemma history_ok_record_history:
  assumes "history_ok t" "keys_ok t" "fp \<in> fps t"
  shows "history_ok (record_history fp ip port now t)"
  unfolding history_ok_def
proof (intro allI)
  fix g
  obtain t2 where ss: "sightings_of fp (record_history fp ip port now t) =
      take MaxObservationValues (sightings_of fp (if ip \<noteq> [] then upsert_sighting fp ip port now t2 else t2))"
    using sightings_of_record_history [OF assms(2,3)] by blast
  show "length (ips_of g (record_history fp ip port now t)) \<le> MaxObservationValues
      \<and> length (ports_of g (record_history fp ip port now t)) \<le> MaxObservationValues
      \<and> length (sightings_of g (record_history fp ip port now t)) \<le> MaxObservationValues"
  proof (cases "g = fp")
    case True
    then show ?thesis
      using ips_of_record_history [OF assms(2,3)] ports_of_record_history [OF assms(2,3)] ss by simp
  next
    case False
    then show ?thesis using record_history_other [of g fp] assms(1) unfolding history_ok_def by (meson order_trans)
  qed
qed

lemma history_ok_pruned: "history_ok t \<Longrightarrow> history_ok (pruned ord n t)"
  by (simp add: pruned_def delete_oldest_def Let_def history_ok_delete_fps)

section \<open>Each operation\<close>

definition store_inv :: "tables \<Rightarrow> bool" where
  "store_inv t \<longleftrightarrow> db_ok t \<and> history_ok t"

lemma store_inv_status:
  assumes "store_inv t"
  shows "Valid s \<Longrightarrow> store_inv (snd (update_status fp s t))"
    "Valid s \<Longrightarrow> four_digit_year now \<Longrightarrow> store_inv (snd (upsert_status fp s l (encodeTime now) t))"
    "store_inv (snd (update_label fp l t))"
  using assms db_ok_find [of t fp]
  by (auto simp: store_inv_def update_status_def upsert_status_def update_label_def history_ok_rows row_update_def row_ok_iff
      decodeTime_now intro!: db_ok_update_fp db_ok_append_fp split: option.splits)

lemma store_inv_statements:
  assumes "store_inv t"
  shows "store_inv (snd (delete_fps P t))" "store_inv (upsert_meta k v t)" "store_inv (delete_cursors t)"
    "store_inv (delete_alert rng ip t)" "store_inv (snd (insert_alert rng ip fp now t))" "store_inv (pruned ord n t)"
  using assms by (simp_all add: store_inv_def history_ok_delete_fps history_ok_rows history_ok_pruned db_ok_delete_fps db_ok_upsert_meta
      db_ok_trim db_ok_insert_alert db_ok_pruned)

lemma history_ok_apply_decisions: "history_ok (apply_decisions now dss t) = history_ok t"
  using apply_decisions_frame [of now dss t] by (intro history_ok_same) simp_all

lemma Observe_keeps:
  assumes "store_inv (tabs c)" "four_digit_year now" "Observe flt ord n now obs bu c = (r, c')"
  shows "store_inv (tabs c')"
proof (cases r)
  case (Inl e)
  then show ?thesis using atomic_Observe assms unfolding atomic_def by metis
next
  case (Inr e)
  then have run: "Observe flt ord n now obs bu c = (Inr e, c')" using assms(3) by simp
  show ?thesis
  proof (rule Observe_stored [OF run])
    fix row t e0 u m
    let ?fp = "oFingerprint obs"
    assume o: "upsert_observed ?fp (if bu then StatusBlocked else StatusPending) (encodeTime now) m (tabs c) = (row, t)"
      and e0: "scanEntry row = Inr e0" and u: "u = record_history ?fp (oIP obs) (oPort obs) (encodeTime now) t"
      and c': "tabs c' = (if r_count row = 1 \<and> 0 < n then pruned ord n u else u)"
    have ok: "db_ok t" using upsert_observed_db_ok [OF _ o e0] assms(1) by (simp add: store_inv_def Valid_def)
    have fp: "?fp \<in> fps t" using upsert_observed_find [OF o, of ?fp] find_fp_None_iff [of ?fp t] by auto
    have "history_ok t" using o assms(1) by (auto simp: upsert_observed_def Let_def store_inv_def history_ok_rows split: option.splits)
    then have "store_inv u"
      using db_ok_record_history [OF ok fp decodeTime_now [OF assms(2)]] history_ok_record_history [OF _ db_ok_keys [OF ok] fp]
      by (simp add: u store_inv_def)
    then show ?thesis by (simp add: c' store_inv_statements)
  qed
qed

lemma ApplyDecisions_keeps:
  assumes "store_inv (tabs c)" "four_digit_year now" "\<forall>d\<in>set ds. \<forall>s. dApprovalRanges d = Some s \<longrightarrow> scope_ok s"
    "ApplyDecisions flt now ds key cur c = (r, c')"
  shows "store_inv (tabs c')"
proof (cases r)
  case (Inl e)
  then show ?thesis using atomic_ApplyDecisions assms unfolding atomic_def by metis
next
  case (Inr u)
  then have run: "ApplyDecisions flt now ds key cur c = (Inr u, c')" using assms(4) by simp
  show ?thesis
  proof (rule ApplyDecisions_Inr [OF run])
    fix scopes
    assume sc: "scan_all decision_scope ds = Inr scopes"
      and t: "tabs c' = (if key \<noteq> [] \<and> cur \<noteq> [] then upsert_meta key cur (apply_decisions (encodeTime now) (zip ds scopes) (tabs c))
        else apply_decisions (encodeTime now) (zip ds scopes) (tabs c))"
    have "Valid (dStatus d) \<and> (\<exists>x. scan_ranges (dStatus d) s = Inr x)" if "(d, s) \<in> set (zip ds scopes)" for d s
    proof -
      have "decision_scope d = Inr s" "d \<in> set ds"
        using that sc set_zip_leftD [OF that] unfolding scan_all_Inr list_all2_iff by blast+
      then show ?thesis using decision_scope_scan assms(3) by blast
    qed
    then have "db_ok (apply_decisions (encodeTime now) (zip ds scopes) (tabs c))"
      using assms(1,2) by (intro db_ok_apply_decisions) (auto simp: store_inv_def)
    then have "store_inv (apply_decisions (encodeTime now) (zip ds scopes) (tabs c))"
      using assms(1) by (simp add: store_inv_def history_ok_apply_decisions)
    then show ?thesis by (simp add: t store_inv_statements)
  qed
qed

lemma preserves_requireAffected: "preserves P (requireAffected f n fp)"
  unfolding requireAffected_def rowsAffected_def by (intro preserves_bindD preserves_queryD preserves_if preserves_raiseD preserves_retD)

lemma preserves_GetMeta: "preserves P (GetMeta f key)"
  unfolding GetMeta_def by (intro preserves_catchD preserves_if preserves_read_only read_onlyI)

lemma preserves_ResetFingerprints: "preserves store_inv (ResetFingerprints f)"
  unfolding ResetFingerprints_def rowsAffected_def
  by (intro preserves_with_tx preserves_bindD preserves_execD preserves_queryD preserves_retD) (simp_all add: store_inv_statements)

lemma preserves_verdicts:
  "preserves store_inv (SetStatus f fp s)" "four_digit_year now \<Longrightarrow> preserves store_inv (UpsertStatus f now fp s l)"
  "preserves store_inv (SetLabel f fp l)" "preserves store_inv (Delete f fp)"
  unfolding SetStatus_def UpsertStatus_def SetLabel_def Delete_def
  by (intro preserves_if preserves_raiseD preserves_bindD preserves_requireAffected preserves_execD; simp add: store_inv_status store_inv_statements)+

lemma preserves_maintenance:
  "preserves store_inv (SetMeta f key v)" "preserves store_inv (RecordBlockedRangeAlert f now rng ip fp)"
  "preserves store_inv (ForgetBlockedRangeAlert f rng ip)" "preserves store_inv (ReconcileFingerprintMethod f method reset)"
  "preserves store_inv (PruneToLimit f ord n)"
proof -
  show meta: "preserves store_inv (SetMeta f key v)" for f key v
    unfolding SetMeta_def by (intro preserves_execD) (simp add: store_inv_statements)
  show "preserves store_inv (RecordBlockedRangeAlert f now rng ip fp)"
    unfolding RecordBlockedRangeAlert_def rowsAffected_def
    by (intro preserves_bindD preserves_execD preserves_queryD preserves_retD) (simp add: store_inv_statements)
  show "preserves store_inv (ForgetBlockedRangeAlert f rng ip)"
    unfolding ForgetBlockedRangeAlert_def by (intro preserves_execD) (simp add: store_inv_statements)
  show "preserves store_inv (ReconcileFingerprintMethod f method reset)"
    unfolding ReconcileFingerprintMethod_def
    by (intro preserves_bindD preserves_if preserves_GetMeta preserves_retD preserves_raiseD preserves_queryD meta preserves_ResetFingerprints)
  show "preserves store_inv (PruneToLimit f ord n)"
    unfolding PruneToLimit_def pruneToLimit_def Let_def rowsAffected_def
    by (intro preserves_if preserves_retD preserves_with_tx preserves_bindD preserves_queryD preserves_execD)
      (simp add: store_inv_statements delete_oldest_def)
qed

section \<open>All operations\<close>

text \<open>
  One call of an operation that may write, with any fault pattern, any outcome and any arguments the
  program can pass: the clock shows a four-digit year, and a scope is one that \<open>approval.New\<close> can build.
\<close>

inductive store_step :: "tables \<Rightarrow> tables \<Rightarrow> bool" where
  observe: "four_digit_year now \<Longrightarrow> Observe flt ord n now obs bu c = (r, c') \<Longrightarrow> store_step (tabs c) (tabs c')"
| set_status: "SetStatus flt fp s c = (r1, c') \<Longrightarrow> store_step (tabs c) (tabs c')"
| upsert_status: "four_digit_year now \<Longrightarrow> UpsertStatus flt now fp s l c = (r1, c') \<Longrightarrow> store_step (tabs c) (tabs c')"
| set_label: "SetLabel flt fp l c = (r1, c') \<Longrightarrow> store_step (tabs c) (tabs c')"
| delete: "Delete flt fp c = (r1, c') \<Longrightarrow> store_step (tabs c) (tabs c')"
| prune: "PruneToLimit flt ord n c = (r2, c') \<Longrightarrow> store_step (tabs c) (tabs c')"
| decisions: "four_digit_year now \<Longrightarrow> \<forall>d\<in>set ds. \<forall>s. dApprovalRanges d = Some s \<longrightarrow> scope_ok s \<Longrightarrow>
    ApplyDecisions flt now ds key cur c = (r1, c') \<Longrightarrow> store_step (tabs c) (tabs c')"
| set_meta: "SetMeta flt key v c = (r1, c') \<Longrightarrow> store_step (tabs c) (tabs c')"
| reset: "ResetFingerprints flt c = (r2, c') \<Longrightarrow> store_step (tabs c) (tabs c')"
| reconcile: "ReconcileFingerprintMethod flt method rst c = (r2, c') \<Longrightarrow> store_step (tabs c) (tabs c')"
| record_alert: "RecordBlockedRangeAlert flt now rng ip fp c = (r3, c') \<Longrightarrow> store_step (tabs c) (tabs c')"
| forget_alert: "ForgetBlockedRangeAlert flt rng ip c = (r1, c') \<Longrightarrow> store_step (tabs c) (tabs c')"

lemma preserves_run: "preserves P m \<Longrightarrow> P (tabs c) \<Longrightarrow> m c = (r, c') \<Longrightarrow> P (tabs c')"
  unfolding preserves_def by (metis snd_conv)

lemmas kept = preserves_verdicts [THEN preserves_run] preserves_maintenance [THEN preserves_run] preserves_ResetFingerprints [THEN preserves_run]

lemma store_step_keeps: "store_step t t' \<Longrightarrow> store_inv t \<Longrightarrow> store_inv t'"
proof (induction rule: store_step.induct)
  case (observe now flt ord n obs bu c r c')
  then show ?case using Observe_keeps by blast
next
  case (decisions now ds flt key cur c r1 c')
  then show ?case using ApplyDecisions_keeps by blast
qed (rule kept; assumption)+

inductive store_reachable :: "tables \<Rightarrow> bool" where
  fresh: "store_reachable empty_tables"
| step: "store_reachable t \<Longrightarrow> store_step t t' \<Longrightarrow> store_reachable t'"

lemma store_reachable_inv: "store_reachable t \<Longrightarrow> store_inv t"
proof (induction rule: store_reachable.induct)
  case fresh
  show ?case by (simp add: store_inv_def db_ok_empty history_ok_iff) (simp add: empty_tables_def)
qed (rule store_step_keeps)

text \<open>C15: a store never becomes unreadable or unbounded: from an empty database, after any sequence of calls with
  any of their statements failing, the keys are unique, every row and sighting decodes, no fingerprint has
  more than 128 addresses, ports or sightings, and reading everything succeeds.\<close>

theorem store_invariant:
  assumes "store_reachable (tabs c)"
  shows "db_ok (tabs c) \<and> history_ok (tabs c) \<and> (\<exists>m c'. List no_faults c = (Inr m, c') \<and> tabs c' = tabs c)"
proof -
  have ok: "db_ok (tabs c)" "history_ok (tabs c)" using store_reachable_inv [OF assms] by (simp_all add: store_inv_def)
  obtain m where y: "yields (List no_faults) (tabs c) m" using yields_List [OF ok(1)] by blast
  obtain c' where "List no_faults c = (Inr m, c')" "tabs c' = tabs c" using yields_run [OF y] by blast
  then show ?thesis using ok by blast
qed

theorem store_invariant_witness:
  "\<exists>c'. UpsertStatus no_faults sample_now ''ab'' StatusApproved ''desk'' \<lparr>tabs = empty_tables, calls = 0\<rparr> = (Inr (), c')
    \<and> db_ok (tabs c') \<and> history_ok (tabs c')"
proof -
  obtain c' where run: "UpsertStatus no_faults sample_now ''ab'' StatusApproved ''desk'' \<lparr>tabs = empty_tables, calls = 0\<rparr> = (Inr (), c')"
    by (auto simp: UpsertStatus_def Valid_def bindD_def requireAffected_def rowsAffected_def upsert_status_def retD_def empty_tables_def find_fp_def)
  have "four_digit_year sample_now" by code_simp
  then have "store_step (tabs \<lparr>tabs = empty_tables, calls = 0\<rparr>) (tabs c')" using run by (rule store_step.upsert_status)
  then have "store_reachable (tabs c')" using store_reachable.step [OF store_reachable.fresh] by simp
  then show ?thesis using store_invariant run by blast
qed

end
