(* ===== verification/Interleaving.thy ===== *)
theory Interleaving
  imports Pulling Invariants
begin

text \<open>
  A push of \<open>src/controlplane/controlplane.go\<close> uses the store only while it reads a page, so other calls
  can write between two pages.  Here a push is cut at its pages, and everything else a gate does may
  happen in between.
\<close>

section \<open>A push in turns\<close>

text \<open>The local variables of \<open>pushObservations\<close> between two turns of its loop.\<close>

record push_run =
  pr_full :: bool
  pr_started :: time
  pr_through :: string
  pr_after :: string
  pr_seen :: "string list"
  pr_sent :: bool

definition begin_push :: "sync_env \<Rightarrow> push_run syncop" where
  "begin_push env =
     bindD (nowD env) (\<lambda>started.
     bindD (getD (\<lambda>w. full_due started (lastFullSync (syncer w)))) (\<lambda>full.
     bindD (onStore (LastFingerprint (flt env))) (\<lambda>through.
     retD \<lparr>pr_full = full, pr_started = started, pr_through = through, pr_after = [], pr_seen = [], pr_sent = False\<rparr>)))"

definition push_turn :: "sync_env \<Rightarrow> push_run \<Rightarrow> (push_run option) syncop" where
  "push_turn env p =
     bindD (push_page env (pr_full p) (pr_through p) (pr_after p)) (\<lambda>res.
       case res of
         None \<Rightarrow> retD None
       | Some (page, s) \<Rightarrow> retD (Some (p\<lparr>pr_after := last page, pr_seen := pr_seen p @ page, pr_sent := pr_sent p \<or> s\<rparr>)))"

definition end_push :: "sync_env \<Rightarrow> push_run \<Rightarrow> unit syncop" where
  "end_push env p =
     bindD (if pr_sent p then retD () else pushBatch env []) (\<lambda>_.
     modifyD (finish_push (pr_seen p) (pr_full p) (pr_started p)))"

text \<open>Turns without anything in between are the push of the code.\<close>

definition push_rest :: "sync_env \<Rightarrow> push_run \<Rightarrow> unit syncop" where
  "push_rest env p =
     bindD (push_loop env (pr_full p) (pr_through p) (pr_after p) (pr_seen p) (pr_sent p)) (\<lambda>(seen, sent).
     end_push env (p\<lparr>pr_seen := seen, pr_sent := sent\<rparr>))"

lemma pushObservations_turns: "pushObservations env = bindD (begin_push env) (push_rest env)"
  by (rule ext) (simp add: pushObservations_def begin_push_def push_rest_def end_push_def bindD_def retD_def
      split: prod.splits sum.splits)

lemma push_rest_turn:
  "push_rest env p c = bindD (push_turn env p) (\<lambda>more. case more of None \<Rightarrow> end_push env p | Some p' \<Rightarrow> push_rest env p') c"
  by (simp add: push_rest_def push_turn_def bindD_def retD_def push_loop.simps [of _ _ _ _ _ _ c] end_push_def
      split: prod.splits sum.splits option.splits)

section \<open>Other calls in between\<close>

text \<open>
  A push that has read some pages, with the contents the store has had since the push began, latest
  first.  Between two turns the store's operations may be called, by any goroutine, and a pull may
  run; a second push waits for \<open>pushMu\<close>.
\<close>

inductive push_walk :: "sync_env \<Rightarrow> world conn \<Rightarrow> tables list \<Rightarrow> push_run \<Rightarrow> world conn \<Rightarrow> bool" for env c0 where
  begins: "begin_push env c0 = (Inr p, c) \<Longrightarrow> push_walk env c0 [store (tabs c0)] p c"
| turn: "push_walk env c0 hs p c \<Longrightarrow> push_turn env p c = (Inr (Some p'), c') \<Longrightarrow> push_walk env c0 hs p' c'"
| call: "push_walk env c0 hs p c \<Longrightarrow> store_step (store (tabs c)) t \<Longrightarrow>
    push_walk env c0 (t # hs) p \<lparr>tabs = (tabs c)\<lparr>store := t\<rparr>, calls = n\<rparr>"
| pull: "push_walk env c0 hs p c \<Longrightarrow> pullPolicy env c = (r, c') \<Longrightarrow> push_walk env c0 (store (tabs c') # hs) p c'"

definition stored_fps :: "tables \<Rightarrow> string set" where
  "stored_fps t = r_fp ` set (fingerprints t)"

definition accounted :: "sync_env \<Rightarrow> world \<Rightarrow> world \<Rightarrow> bool" where
  "accounted env w w' \<longleftrightarrow>
     (\<exists>xs. requests w' = requests w @ xs \<and>
       (\<forall>fp h. map_of (acknowledged (syncer w')) fp = Some h \<longrightarrow>
          map_of (acknowledged (syncer w)) fp = Some h \<or> vouched env xs fp h))"

text \<open>What the push remembers of \<open>fp\<close> is the hash of a row that was stored while it ran.\<close>

definition remembered :: "sync_env \<Rightarrow> tables list \<Rightarrow> world \<Rightarrow> string \<Rightarrow> bool" where
  "remembered env hs w fp \<longleftrightarrow>
     (\<exists>t\<in>set hs. \<exists>r\<in>set (fingerprints t). r_fp r = fp \<and> map_of (acknowledged (syncer w)) fp = Some (observation_hash env t r))"

definition walk_ok :: "sync_env \<Rightarrow> world conn \<Rightarrow> tables list \<Rightarrow> push_run \<Rightarrow> world conn \<Rightarrow> bool" where
  "walk_ok env c0 hs p c \<longleftrightarrow>
     hs \<noteq> [] \<and> hd hs = store (tabs c) \<and> accounted env (tabs c0) (tabs c)
     \<and> sorted_wrt (<) (pr_seen p) \<and> (\<forall>fp\<in>set (pr_seen p). fp \<le> pr_after p \<and> remembered env hs (tabs c) fp)
     \<and> (\<forall>fp. (\<forall>t\<in>set hs. fp \<in> stored_fps t) \<longrightarrow> fp \<le> pr_through p \<and> (fp \<noteq> [] \<and> fp \<le> pr_after p \<longrightarrow> fp \<in> set (pr_seen p)))"

lemma accounted_refl [simp]: "accounted env w w"
  by (auto simp: accounted_def)

lemma accounted_trans: "accounted env w w' \<Longrightarrow> accounted env w' w'' \<Longrightarrow> accounted env w w''"
proof -
  assume "accounted env w w'" "accounted env w' w''"
  then obtain xs ys where xs: "requests w' = requests w @ xs" "requests w'' = requests w' @ ys"
    and known: "\<And>fp h. map_of (acknowledged (syncer w')) fp = Some h \<Longrightarrow> map_of (acknowledged (syncer w)) fp = Some h \<or> vouched env xs fp h"
      "\<And>fp h. map_of (acknowledged (syncer w'')) fp = Some h \<Longrightarrow> map_of (acknowledged (syncer w')) fp = Some h \<or> vouched env ys fp h"
    unfolding accounted_def by blast
  show ?thesis unfolding accounted_def
    by (rule exI [of _ "xs @ ys"]) (use xs known in \<open>auto simp: vouched_append\<close>)
qed

lemma push_grows_accounted: "push_grows env w w' \<Longrightarrow> accounted env w w'"
  unfolding push_grows_def accounted_def by blast

lemma accounted_frame:
  "acknowledged (syncer w') = acknowledged (syncer w) \<Longrightarrow> requests w' = requests w @ xs \<Longrightarrow> accounted env w w'"
  by (auto simp: accounted_def)

lemma pull_accounted:
  assumes "pullPolicy env c = (r, c')"
  shows "acknowledged (syncer (tabs c')) = acknowledged (syncer (tabs c)) \<and> accounted env (tabs c) (tabs c')"
proof -
  obtain xs where xs: "requests (tabs c') = requests (tabs c) @ xs" using pull_effect [OF assms] by blast
  have "acknowledged (syncer (tabs c')) = acknowledged (syncer (tabs c))"
    by (cases rule: pull_cases [OF assms]) (simp_all add: policy_applied_def)
  then show ?thesis using accounted_frame xs by blast
qed

section \<open>The invariant of an interrupted push\<close>

lemma walk_begins:
  assumes "begin_push env c0 = (Inr p, c)"
  shows "walk_ok env c0 [store (tabs c0)] p c"
proof -
  obtain c1 where last: "onStore (LastFingerprint (flt env)) c0 = (Inr (pr_through p), c1)" and c: "c = c1"
    and p: "pr_after p = []" "pr_seen p = []"
    using assms unfolding begin_push_def bindD_Inr syncop_Inr retD_Inr by auto
  have th: "pr_through p = fold max (map r_fp (fingerprints (store (tabs c0)))) []" "tabs c = tabs c0"
    using last c by (auto simp: onStore_Inr LastFingerprint_def queryD_Inr)
  have "fp \<le> pr_through p" if "fp \<in> stored_fps (store (tabs c0))" for fp
    using that unfolding th(1) Max.set_eq_fold [symmetric] by (simp add: stored_fps_def)
  then show ?thesis using p th(2) by (auto simp: walk_ok_def)
qed

lemma walk_other:
  assumes "walk_ok env c0 hs p c" "acknowledged (syncer (tabs c')) = acknowledged (syncer (tabs c))" "accounted env (tabs c) (tabs c')"
  shows "walk_ok env c0 (store (tabs c') # hs) p c'"
proof -
  have "remembered env (store (tabs c') # hs) (tabs c') fp" if "remembered env hs (tabs c) fp" for fp
    using that assms(2) by (auto simp: remembered_def)
  moreover have "accounted env (tabs c0) (tabs c')" using assms(1,3) accounted_trans unfolding walk_ok_def by blast
  ultimately show ?thesis using assms(1) by (auto simp: walk_ok_def)
qed

text \<open>What a turn reads and remembers.\<close>

lemma turn_page:
  assumes "db_ok t" "t = store (tabs c)" "push_turn env p c = (Inr (Some p'), c')"
  defines "rows \<equiv> page_rows (pr_after p) (pr_through p) 16 t"
  defines "ack \<equiv> acknowledged (syncer (tabs c))"
  shows "pr_seen p' = pr_seen p @ map r_fp rows" "pr_after p' = last (map r_fp rows)" "rows \<noteq> []" "pr_through p' = pr_through p"
    "store (tabs c') = t" "accounted env (tabs c) (tabs c')"
    "acknowledged (syncer (tabs c')) = acknowledge_rows env t (filter (changed env (pr_full p) ack t) rows) ack"
proof -
  obtain page s where page: "push_page env (pr_full p) (pr_through p) (pr_after p) c = (Inr (Some (page, s)), c')"
    and p': "p' = p\<lparr>pr_after := last page, pr_seen := pr_seen p @ page, pr_sent := pr_sent p \<or> s\<rparr>"
    using assms(3) by (auto simp: push_turn_def bindD_Inr retD_Inr split: option.splits)
  note read = push_page_rows [OF page] and spec = push_page_spec [OF assms(1,2) page]
  show "pr_seen p' = pr_seen p @ map r_fp rows" "pr_after p' = last (map r_fp rows)" "pr_through p' = pr_through p"
    using p' spec(1) by (simp_all add: rows_def)
  show "rows \<noteq> []" using read(3) spec(1) by (simp add: rows_def)
  show "store (tabs c') = t" using read(1) assms(2) by simp
  show "accounted env (tabs c) (tabs c')" by (rule push_grows_accounted [OF push_page_grows [OF page]])
  show "acknowledged (syncer (tabs c')) = acknowledge_rows env t (filter (changed env (pr_full p) ack t) rows) ack"
    using spec(3) by (auto simp: push_result_def acknowledge_rows_def rows_def ack_def split: if_splits)
qed

lemma acknowledge_changed:
  assumes "distinct (map r_fp rows)" "r \<in> set rows"
  shows "map_of (acknowledge_rows env t (filter (changed env full ack t) rows) ack) (r_fp r) = Some (observation_hash env t r)"
proof (cases "changed env full ack t r")
  case True
  have "distinct (map r_fp (filter (changed env full ack t) rows))" using assms(1) by (simp add: distinct_map_filter)
  then show ?thesis using acknowledge_rows_same True assms(2) by simp
next
  case False
  have "r_fp r \<notin> r_fp ` set (filter (changed env full ack t) rows)"
    using False assms by (auto simp: distinct_map dest: inj_onD)
  then show ?thesis using False acknowledge_rows_other by (simp add: changed_def)
qed

lemma le_last: "sorted_wrt (<) xs \<Longrightarrow> x \<in> set xs \<Longrightarrow> x \<le> last xs" for x :: "'a :: linorder"
  by (induction xs) (auto simp: less_imp_le)

text \<open>A page holds every stored fingerprint between the one it starts after and its own last.\<close>

lemma page_complete:
  assumes "keys_ok t" "page_rows after through 16 t \<noteq> []"
  defines "ks \<equiv> map r_fp (page_rows after through 16 t)"
  shows "sorted_wrt (<) ks" "\<forall>fp\<in>set ks. after < fp \<and> fp \<le> last ks"
    "fp \<in> stored_fps t \<Longrightarrow> after < fp \<Longrightarrow> fp \<le> through \<Longrightarrow> fp \<le> last ks \<Longrightarrow> fp \<in> set ks"
proof -
  let ?R = "rows_after after through t" and ?p = "page_rows after through 16 t"
  have R: "?R = ?p @ drop 16 ?R" by (simp add: page_rows_after)
  have "sorted_wrt (\<lambda>r s. r_fp r < r_fp s) ?p"
    using rows_after_sorted [OF assms(1), of after through] sorted_wrt_append R by metis
  then show srt: "sorted_wrt (<) ks" by (simp add: ks_def sorted_wrt_map)
  show "\<forall>fp\<in>set ks. after < fp \<and> fp \<le> last ks"
    using le_last [OF srt] page_rows_bounds by (fastforce simp: ks_def)
  assume fp: "fp \<in> stored_fps t" "after < fp" "fp \<le> through" "fp \<le> last ks"
  then obtain r where r: "r \<in> set ?R" "r_fp r = fp" by (auto simp: stored_fps_def rows_after_def)
  have "r \<notin> set (drop 16 ?R)"
    unfolding rows_after_step [OF assms(1,2), symmetric] ks_def [symmetric] using fp(4) r(2) by (auto simp: rows_after_def)
  then have "r \<in> set ?p" using r(1) R by (metis Un_iff set_append)
  then show "fp \<in> set ks" using r(2) by (auto simp: ks_def)
qed

lemma walk_turn:
  assumes "walk_ok env c0 hs p c" "db_ok (store (tabs c))" "push_turn env p c = (Inr (Some p'), c')"
  shows "walk_ok env c0 hs p' c'"
proof -
  let ?t = "store (tabs c)"
  define rows where "rows = page_rows (pr_after p) (pr_through p) 16 ?t"
  note page = turn_page [OF assms(2) refl assms(3), folded rows_def]
  note full = page_complete [OF db_ok_keys [OF assms(2)] page(3) [unfolded rows_def], folded rows_def, folded page(2)]
  have hs: "hs \<noteq> []" "hd hs = ?t" "?t \<in> set hs" and acc: "accounted env (tabs c0) (tabs c)"
    and seen: "sorted_wrt (<) (pr_seen p)" "\<And>fp. fp \<in> set (pr_seen p) \<Longrightarrow> fp \<le> pr_after p \<and> remembered env hs (tabs c) fp"
    and kept: "\<And>fp. \<forall>t\<in>set hs. fp \<in> stored_fps t \<Longrightarrow> fp \<le> pr_through p \<and> (fp \<noteq> [] \<and> fp \<le> pr_after p \<longrightarrow> fp \<in> set (pr_seen p))"
    using assms(1) unfolding walk_ok_def by (auto dest: hd_in_set)
  have "pr_after p' \<in> set (map r_fp rows)" unfolding page(2) using page(3) by (intro last_in_set) simp
  then have up: "pr_after p < pr_after p'" using full(2) by blast
  have "remembered env hs (tabs c') fp" if mem: "fp \<in> set (pr_seen p')" for fp
  proof (cases "fp \<in> set (pr_seen p)")
    case True
    have "fp \<notin> r_fp ` set (filter (changed env (pr_full p) (acknowledged (syncer (tabs c))) ?t) rows)"
      using full(2) seen(2) [OF True] by fastforce
    then show ?thesis using seen(2) [OF True] acknowledge_rows_other unfolding remembered_def page(7) by metis
  next
    case False
    then obtain r where r: "r \<in> set rows" "r_fp r = fp" using mem page(1) by auto
    have "distinct (map r_fp rows)" using full(1) by (simp add: strict_sorted_iff)
    then show ?thesis using acknowledge_changed [OF _ r(1)] r(2) hs(3) page_rows_bounds [OF r(1) [unfolded rows_def]]
      unfolding remembered_def page(7) by blast
  qed
  moreover have "fp \<le> pr_after p'" if "fp \<in> set (pr_seen p')" for fp
    using that full(2) seen(2) [of fp] up unfolding page(1) by fastforce
  moreover have "sorted_wrt (<) (pr_seen p')"
    unfolding page(1) sorted_wrt_append using seen full(1,2) by fastforce
  moreover have "fp \<le> pr_through p' \<and> (fp \<noteq> [] \<and> fp \<le> pr_after p' \<longrightarrow> fp \<in> set (pr_seen p'))"
    if "\<forall>t\<in>set hs. fp \<in> stored_fps t" for fp
    using kept [OF that] full(3) [of fp] that hs(3) unfolding page(1,4) by (cases "fp \<le> pr_after p") auto
  moreover have "accounted env (tabs c0) (tabs c')" using accounted_trans [OF acc page(6)] .
  ultimately show ?thesis using hs(1,2) unfolding walk_ok_def page(5) by blast
qed

lemma walk_invariant:
  assumes "push_walk env c0 hs p c" "\<forall>t\<in>set hs. db_ok t"
  shows "walk_ok env c0 hs p c"
  using assms
proof (induction rule: push_walk.induct)
  case (begins p c)
  then show ?case by (intro walk_begins)
next
  case (turn hs p c p' c')
  have ok: "walk_ok env c0 hs p c" using turn.IH turn.prems by blast
  then have "store (tabs c) \<in> set hs" unfolding walk_ok_def using hd_in_set by metis
  then show ?case using walk_turn [OF ok _ turn.hyps(2)] turn.prems by blast
next
  case (call hs p c t n)
  then show ?case using walk_other [of env c0 hs p c "\<lparr>tabs = (tabs c)\<lparr>store := t\<rparr>, calls = n\<rparr>"]
    by (simp add: accounted_def)
next
  case (pull hs p c r c')
  then show ?case using walk_other [of env c0 hs p c c'] pull_accounted [OF pull(2)] by simp
qed

section \<open>Stores during a push\<close>

lemma policy_applied_step:
  assumes "policy_applied env p w w'" "Decode_policy body = Inr p" "\<forall>n. four_digit_year (clock env n)"
  shows "store_step (store w) (store w')"
proof -
  obtain n m c1 where run: "ApplyDecisions (flt env) (clock env n) (pDecisions p) (cursorKey (syncer w)) (pCursor p)
      \<lparr>tabs = store w, calls = m\<rparr> = (Inr (), c1)" and w': "store w' = tabs c1"
    using assms(1) by (auto simp: policy_applied_def)
  have "\<forall>d\<in>set (pDecisions p). \<forall>s. dApprovalRanges d = Some s \<longrightarrow> scope_ok s" using Decode_policy_scopes [OF assms(2)] by blast
  then show ?thesis using store_step.decisions [OF _ _ run] assms(3) w' by simp
qed

lemma pull_step:
  assumes "pullPolicy env c = (r, c')" "\<forall>n. four_digit_year (clock env n)"
  shows "store (tabs c') = store (tabs c) \<or> store_step (store (tabs c)) (store (tabs c'))"
proof (cases rule: pull_cases [OF assms(1)])
  case (2 body p)
  then show ?thesis using policy_applied_step [OF 2(2,1) assms(2)] by simp
qed simp

lemma push_turn_frame:
  assumes "push_turn env p c = (r, c')"
  shows "push_grows env (tabs c) (tabs c')"
proof -
  obtain r1 where "push_page env (pr_full p) (pr_through p) (pr_after p) c = (r1, c')"
    using assms by (auto simp: push_turn_def bindD_def retD_def split: prod.splits sum.splits option.splits)
  then show ?thesis by (rule push_page_grows)
qed

lemma walk_store_inv:
  assumes "push_walk env c0 hs p c" "store_inv (store (tabs c0))" "\<forall>n. four_digit_year (clock env n)"
  shows "store (tabs c) \<in> set hs \<and> (\<forall>t\<in>set hs. store_inv t)"
  using assms
proof (induction rule: push_walk.induct)
  case (begins p c)
  have "store (tabs c) = store (tabs c0)"
    using begins(1) by (auto simp: begin_push_def bindD_Inr syncop_Inr retD_Inr onStore_Inr LastFingerprint_def queryD_Inr)
  then show ?case using begins by simp
next
  case (turn hs p c p' c')
  then show ?case using push_turn_frame [OF turn.hyps(2)] by (simp add: push_grows_def)
next
  case (call hs p c t n)
  then show ?case using store_step_keeps by auto
next
  case (pull hs p c r c')
  then have "store_inv (store (tabs c'))" using pull_step [OF pull.hyps(2)] store_step_keeps by metis
  then show ?case using pull by simp
qed

lemma begin_push_frame: "begin_push env c = (r, c') \<Longrightarrow> tabs c' = tabs c"
proof -
  assume run: "begin_push env c = (r, c')"
  obtain r1 c1 where last: "onStore (LastFingerprint (flt env)) c = (r1, c1)" by fastforce
  then have "tabs c1 = tabs c"
    by (intro onStore_read_only [OF _ last]) (unfold LastFingerprint_def, rule read_only_queryD)
  then show ?thesis using run last
    by (auto simp: begin_push_def bindD_def nowD_def getD_def retD_def split: sum.splits)
qed

lemma end_push_cases:
  assumes "end_push env p c = (r, c')"
  obtains xs w where "w = (tabs c)\<lparr>requests := requests (tabs c) @ xs\<rparr>" "list_all (\<lambda>x. post_request env (fst x)) xs"
    "tabs c' = w \<and> r \<noteq> Inr () \<or> tabs c' = finish_push (pr_seen p) (pr_full p) (pr_started p) w \<and> r = Inr ()"
proof -
  obtain r1 c1 where beat: "(if pr_sent p then retD () else pushBatch env []) c = (r1, c1)" by fastforce
  obtain xs where xs: "tabs c1 = (tabs c)\<lparr>requests := requests (tabs c) @ xs\<rparr>" "list_all (\<lambda>x. post_request env (fst x)) xs"
    using beat pushBatch_any [of env "[]" c r1 c1] by (cases "pr_sent p") (auto simp: retD_def intro: that [of "[]"])
  have "tabs c' = tabs c1 \<and> r \<noteq> Inr () \<or> tabs c' = finish_push (pr_seen p) (pr_full p) (pr_started p) (tabs c1) \<and> r = Inr ()"
    using assms beat by (cases r1) (auto simp: end_push_def bindD_def modifyD_def)
  then show thesis by (rule that [OF xs])
qed

lemma end_push_grows:
  assumes "end_push env p c = (r, c')"
  shows "push_grows env (tabs c) (tabs c')"
  by (cases rule: end_push_cases [OF assms]) (auto simp: push_grows_def finish_push_def map_of_filter_fst split: if_splits)

lemma end_push_forgets:
  assumes "end_push env p c = (Inr (), c')"
  shows "map_of (acknowledged (syncer (tabs c'))) fp = (if fp \<in> set (pr_seen p) then map_of (acknowledged (syncer (tabs c))) fp else None)"
  by (cases rule: end_push_cases [OF assms]) (auto simp: finish_push_def map_of_filter_fst)

section \<open>Property\<close>

text \<open>C10: a push is sound and complete whatever else writes to the store between its pages: it visits no
  fingerprint twice; it misses none that is stored from its beginning to its end; afterwards the syncer
  remembers exactly the fingerprints it visited, each with the hash of an observation that was stored while
  the push ran; and each hash was remembered before or is that of an observation in an accepted request.\<close>

theorem interleaved_push:
  assumes "push_walk env c0 hs p c" "push_turn env p c = (Inr None, c1)" "end_push env p c1 = (Inr (), c')"
    and "store_inv (store (tabs c0))" "\<forall>n. four_digit_year (clock env n)"
  shows "sorted_wrt (<) (pr_seen p)
    \<and> (\<forall>fp. fp \<noteq> [] \<and> (\<forall>t\<in>set hs. fp \<in> stored_fps t) \<longrightarrow> fp \<in> set (pr_seen p))
    \<and> dom (map_of (acknowledged (syncer (tabs c')))) = set (pr_seen p)
    \<and> (\<forall>fp\<in>set (pr_seen p). remembered env hs (tabs c') fp)
    \<and> accounted env (tabs c0) (tabs c')"
proof -
  have inv: "store (tabs c) \<in> set hs" "\<forall>t\<in>set hs. db_ok t"
    using walk_store_inv [OF assms(1,4,5)] by (auto simp: store_inv_def)
  note ok = walk_invariant [OF assms(1) inv(2), unfolded walk_ok_def]
  have "push_page env (pr_full p) (pr_through p) (pr_after p) c = (Inr None, c1)"
    using assms(2) by (auto simp: push_turn_def bindD_Inr retD_Inr split: option.splits) (metis option.exhaust prod.exhaust)
  note last = push_page_None [OF this]
  have ack: "map_of (acknowledged (syncer (tabs c'))) fp = (if fp \<in> set (pr_seen p) then map_of (acknowledged (syncer (tabs c))) fp else None)" for fp
    using end_push_forgets [OF assms(3)] last(2) by simp
  have "fp \<in> set (pr_seen p)" if "fp \<noteq> []" "\<forall>t\<in>set hs. fp \<in> stored_fps t" for fp
  proof -
    have "fp \<le> pr_through p" "fp \<in> stored_fps (store (tabs c))" using ok that inv(1) by blast+
    then have "\<not> pr_after p < fp" using last(1) by (auto simp: rows_after_def stored_fps_def filter_empty_conv dest!: arg_cong [where f = set])
    then show ?thesis using ok that by auto
  qed
  moreover have rem: "remembered env hs (tabs c') fp" if "fp \<in> set (pr_seen p)" for fp
    using ok that ack [of fp] by (auto simp: remembered_def)
  moreover have "dom (map_of (acknowledged (syncer (tabs c')))) = set (pr_seen p)"
    using rem by (auto simp: dom_def ack remembered_def split: if_splits)
  moreover have "accounted env (tabs c0) (tabs c')"
    using ok push_grows_accounted [OF end_push_grows [OF assms(3)]] last(2) accounted_trans by metis
  ultimately show ?thesis using ok by blast
qed

text \<open>A push of three fingerprints, one of which is deleted between its only page and its end.\<close>

lemma succeeds_push_turn:
  assumes "serves env" "db_ok (store (tabs c))"
  obtains res c' where "push_turn env p c = (Inr res, c')"
    "res = None \<longleftrightarrow> page_rows (pr_after p) (pr_through p) 16 (store (tabs c)) = []"
proof -
  obtain r c' where page: "push_page env (pr_full p) (pr_through p) (pr_after p) c = (Inr r, c')"
    using succeeds_push_page [OF assms] unfolding succeeds_def by blast
  show thesis
  proof (cases r)
    case None
    then have "push_turn env p c = (Inr None, c')" using page by (simp add: push_turn_def bindD_def retD_def)
    then show thesis using that push_page_None(1) [OF page [unfolded None]] by (simp add: page_rows_after)
  next
    case (Some ps)
    then obtain pg s where ps: "r = Some (pg, s)" by (cases ps) auto
    then have "push_turn env p c = (Inr (Some (p\<lparr>pr_after := last pg, pr_seen := pr_seen p @ pg, pr_sent := pr_sent p \<or> s\<rparr>)), c')"
      using page by (simp add: push_turn_def bindD_def retD_def)
    then show thesis using that push_page_rows(2,3) [OF page [unfolded ps]] by auto
  qed
qed

lemma sample_begin:
  obtains p c where "begin_push (sample_env policy) sample_gate = (Inr p, c)" "pr_after p = []" "pr_seen p = []" "pr_through p = ''ac''"
proof -
  have "fold max (map r_fp (fingerprints (store (tabs sample_gate)))) [] = ''ac''" by code_simp
  then show thesis
    by (intro that [of "\<lparr>pr_full = True, pr_started = sample_now, pr_through = ''ac'', pr_after = [], pr_seen = [], pr_sent = False\<rparr>"
          "sample_gate\<lparr>calls := Suc (calls sample_gate)\<rparr>"])
      (simp_all add: begin_push_def bindD_def nowD_def getD_def retD_def onStore_def LastFingerprint_def queryD_def execD_def
        sample_env_def sample_gate_def no_faults_def full_due_def)
qed

lemma sample_turn:
  assumes "store (tabs c) = store (tabs sample_gate)" "pr_after p = []" "pr_seen p = []" "pr_through p = ''ac''"
  obtains p' c' where "push_turn (sample_env policy) p c = (Inr (Some p'), c')" "store (tabs c') = store (tabs sample_gate)"
    "pr_after p' = ''ac''" "pr_seen p' = [''aa'', ''ab'', ''ac'']" "pr_through p' = ''ac''"
proof -
  have rows: "map r_fp (page_rows [] ''ac'' 16 (store (tabs sample_gate))) = [''aa'', ''ab'', ''ac'']" by code_simp
  have ok: "db_ok (store (tabs c))" using assms(1) sample_gate_ok by simp
  obtain res c' where run: "push_turn (sample_env policy) p c = (Inr res, c')"
    and "res = None \<longleftrightarrow> page_rows (pr_after p) (pr_through p) 16 (store (tabs c)) = []"
    by (rule succeeds_push_turn [OF sample_serves ok])
  then obtain p' where p': "res = Some p'" using rows assms by (cases res) auto
  show thesis
    using that [OF run [unfolded p']] turn_page [OF ok refl run [unfolded p']] assms rows by simp
qed

theorem interleaved_push_witness:
  "\<exists>hs p c c1 c'. push_walk (sample_env []) sample_gate hs p c \<and> length hs = 2 \<and> push_turn (sample_env []) p c = (Inr None, c1)
    \<and> end_push (sample_env []) p c1 = (Inr (), c') \<and> {''ab'', ''ac''} \<subseteq> dom (map_of (acknowledged (syncer (tabs c'))))"
proof -
  let ?env = "sample_env []" and ?t = "store (tabs sample_gate)"
  have year: "\<forall>n. four_digit_year (clock ?env n)"
  proof -
    have "four_digit_year sample_now" by code_simp
    then show ?thesis by (simp add: sample_env_def)
  qed
  have inv: "store_inv ?t" using sample_gate_ok by (simp add: store_inv_def history_ok_iff sample_gate_def sample_store_def empty_tables_def)
  obtain p c where begins: "begin_push ?env sample_gate = (Inr p, c)" and p: "pr_after p = []" "pr_seen p = []" "pr_through p = ''ac''"
    by (rule sample_begin)
  have walk0: "push_walk ?env sample_gate [?t] p c" by (rule push_walk.begins [OF begins])
  have t: "store (tabs c) = ?t" using begin_push_frame [OF begins] by simp
  obtain p1 c1 where turn: "push_turn ?env p c = (Inr (Some p1), c1)" and t1: "store (tabs c1) = ?t"
    and p1: "pr_after p1 = ''ac''" "pr_seen p1 = [''aa'', ''ab'', ''ac'']" "pr_through p1 = ''ac''"
    by (rule sample_turn [OF t p])
  note walk1 = push_walk.turn [OF walk0 turn]
  obtain r d where delete: "Delete no_faults ''aa'' \<lparr>tabs = store (tabs c1), calls = calls c1\<rparr> = (r, d)" by fastforce
  let ?c2 = "\<lparr>tabs = (tabs c1)\<lparr>store := tabs d\<rparr>, calls = calls d\<rparr>"
  have call: "store_step (store (tabs c1)) (tabs d)" using store_step.delete [OF delete] by simp
  note walk2 = push_walk.call [OF walk1 call, of "calls d"]
  have ok2: "db_ok (store (tabs ?c2))" using store_step_keeps [OF call] inv t1 by (simp add: store_inv_def)
  have none: "page_rows (pr_after p1) (pr_through p1) 16 (store (tabs ?c2)) = []"
    using page_rows_bounds [of _ "''ac''" "''ac''" 16] p1 by (metis not_less last_in_set)
  obtain c3 where last: "push_turn ?env p1 ?c2 = (Inr None, c3)"
    using succeeds_push_turn [where p = p1, OF sample_serves ok2] none by metis
  obtain c' where ends: "end_push ?env p1 c3 = (Inr (), c')"
  proof -
    have "succeeds (end_push ?env p1) c3"
      unfolding end_push_def by (intro succeeds_bindD succeeds_if succeeds_pushBatch [OF sample_serves]) simp_all
    then show thesis using that by (auto simp: succeeds_def)
  qed
  have "{''ab'', ''ac''} \<subseteq> dom (map_of (acknowledged (syncer (tabs c'))))"
    using interleaved_push [OF walk2 last ends inv year] p1(2) by simp
  then show ?thesis using walk2 last ends by (intro exI [of _ "[tabs d, ?t]"] exI conjI) auto
qed

end
