(* ===== verification/Semaphore.thy ===== *)
theory Semaphore
  imports Prelude
begin

text \<open>
  The counting semaphore of \<open>src/semaphore/semaphore.go\<close>.  Its state is the buffered channel
  \<open>slots\<close>: how many values it holds and its capacity.  A nil pointer, \<open>None\<close>, is a semaphore
  without a bound.  The locale states what a client may rely on, for a client that keeps count
  of its own unreleased acquisitions.
\<close>

section \<open>The semaphore\<close>

record semaphore =
  slots :: nat
  slots_cap :: nat

definition Semaphore_New :: "int \<Rightarrow> semaphore result" where
  "Semaphore_New n = (if n < 0 then Inl (Panic ''makechan: size out of range'') else Inr \<lparr>slots = 0, slots_cap = nat n\<rparr>)"

text \<open>A send on a full channel, and a receive on an empty one, take the default case.\<close>

definition Acquire :: "semaphore option \<Rightarrow> bool \<times> semaphore option" where
  "Acquire s =
     (case s of
        None \<Rightarrow> (True, None)
      | Some q \<Rightarrow> if slots q < slots_cap q then (True, Some (q\<lparr>slots := slots q + 1\<rparr>)) else (False, Some q))"

definition Release :: "semaphore option \<Rightarrow> semaphore option" where
  "Release s =
     (case s of
        None \<Rightarrow> None
      | Some q \<Rightarrow> if 0 < slots q then Some (q\<lparr>slots := slots q - 1\<rparr>) else Some q)"

definition sem_limit :: "semaphore option \<Rightarrow> nat option" where
  "sem_limit s = map_option slots_cap s"

text \<open>\<open>sem_held n s\<close>: the state \<open>s\<close> is one with \<open>n\<close> acquisitions not yet released.\<close>

definition sem_held :: "nat \<Rightarrow> semaphore option \<Rightarrow> bool" where
  "sem_held n s = (case s of None \<Rightarrow> True | Some q \<Rightarrow> slots q = n \<and> n \<le> slots_cap q)"

section \<open>The contract\<close>

locale slot_pool =
  fixes acquire :: "'s \<Rightarrow> bool \<times> 's"
    and release :: "'s \<Rightarrow> 's"
    and limit :: "'s \<Rightarrow> nat option"
    and held :: "nat \<Rightarrow> 's \<Rightarrow> bool"
  assumes acquired: "held n s \<Longrightarrow> acquire s = (True, s') \<Longrightarrow> held (Suc n) s' \<and> limit s' = limit s"
    and refused: "held n s \<Longrightarrow> acquire s = (False, s') \<Longrightarrow> s' = s \<and> limit s = Some n"
    and released: "held (Suc n) s \<Longrightarrow> held n (release s) \<and> limit (release s) = limit s"
    and bounded: "held n s \<Longrightarrow> limit s = Some k \<Longrightarrow> n \<le> k"
begin

lemma acquire_full: "held n s \<Longrightarrow> limit s = Some n \<Longrightarrow> acquire s = (False, s)"
proof -
  assume s: "held n s" "limit s = Some n"
  obtain b s' where run: "acquire s = (b, s')" by (cases "acquire s")
  have "\<not> b"
  proof
    assume b
    then have "held (Suc n) s'" "limit s' = Some n" using acquired [OF s(1)] run s(2) by simp_all
    then show False using bounded by fastforce
  qed
  then show ?thesis using refused [OF s(1)] run by simp
qed

lemma acquire_free: "held n s \<Longrightarrow> limit s \<noteq> Some n \<Longrightarrow> fst (acquire s)"
  using refused [of n s] by (cases "acquire s") auto

lemma acquire_after_release: "held (Suc n) s \<Longrightarrow> fst (acquire (release s))"
proof (rule acquire_free)
  assume s: "held (Suc n) s"
  then show "held n (release s)" using released by blast
  show "limit (release s) \<noteq> Some n" using released [OF s] bounded [OF s] by auto
qed

lemma release_after_acquire: "held n s \<Longrightarrow> acquire s = (True, s') \<Longrightarrow> held n (release s') \<and> limit (release s') = limit s"
  using acquired released by metis

end

interpretation sem: slot_pool Acquire Release sem_limit sem_held
  by unfold_locales
    (auto simp: Acquire_def Release_def sem_limit_def sem_held_def split: option.splits if_splits)

lemma sem_held_New: "Semaphore_New n = Inr q \<Longrightarrow> sem_held 0 (Some q) \<and> sem_limit (Some q) = Some (nat n)"
  by (auto simp: Semaphore_New_def sem_held_def sem_limit_def split: if_splits)

section \<open>Runs\<close>

text \<open>A sequence of calls, \<open>True\<close> for \<open>Acquire\<close>; the result is the answers of the acquisitions.\<close>

fun sem_run :: "bool list \<Rightarrow> semaphore option \<Rightarrow> bool list \<times> semaphore option" where
  "sem_run [] s = ([], s)"
| "sem_run (True # cs) s = (let (b, s') = Acquire s; (bs, s'') = sem_run cs s' in (b # bs, s''))"
| "sem_run (False # cs) s = sem_run cs (Release s)"

text \<open>The counter a client expects: the answers and the number held after the same calls.\<close>

fun count_run :: "nat \<Rightarrow> bool list \<Rightarrow> nat \<Rightarrow> bool list \<times> nat" where
  "count_run k [] n = ([], n)"
| "count_run k (True # cs) n = (let (bs, m) = count_run k cs (if n < k then n + 1 else n) in ((n < k) # bs, m))"
| "count_run k (False # cs) n = count_run k cs (n - 1)"

lemma sem_run_count:
  assumes "slots q \<le> slots_cap q"
  shows "sem_run cs (Some q) =
    (fst (count_run (slots_cap q) cs (slots q)), Some (q\<lparr>slots := snd (count_run (slots_cap q) cs (slots q))\<rparr>))"
  using assms
proof (induction "slots_cap q" cs "slots q" arbitrary: q rule: count_run.induct)
  case (2 cs)
  let ?q = "if slots q < slots_cap q then q\<lparr>slots := slots q + 1\<rparr> else q"
  have "sem_run cs (Some ?q) =
      (fst (count_run (slots_cap q) cs (slots ?q)), Some (q\<lparr>slots := snd (count_run (slots_cap q) cs (slots ?q))\<rparr>))"
    using 2 by (cases "slots q < slots_cap q") (simp_all add: "2.hyps" [of "q\<lparr>slots := slots q + 1\<rparr>"])
  then show ?case by (auto simp: Acquire_def Let_def split: prod.splits)
next
  case (3 cs)
  then show ?case using "3.hyps" [of "q\<lparr>slots := slots q - 1\<rparr>"] by (cases "0 < slots q") (simp_all add: Release_def)
qed simp



end
