(* ===== verification/Proxy.thy ===== *)
theory Proxy
  imports Routes Semaphore
begin

text \<open>
  The connection server of \<open>src/proxy/proxy.go\<close> as a system of goroutines: one accept loop per call of
  \<open>Serve\<close>, one goroutine per admitted connection, and the goroutine of \<open>Drain\<close>.  A program counter
  says which statement of the code a goroutine executes next, and an event executes one statement
  of one goroutine, so that every interleaving is a sequence of events.  The two wait groups are
  their counters, which Go requires never to become negative.
\<close>

section \<open>State\<close>

record tcp_conn =
  conn_id :: nat
  remote :: "string option"

datatype accept_result = AcceptConn tcp_conn | AcceptErr string | ErrClosed

datatype close_result = CloseOK | AlreadyClosed | CloseErr string

datatype loop_pc =
    Accepting
  | Got tcp_conn string
  | Admitted tcp_conn string
  | Returned
  | LoopExited

record accept_loop =
  l_route :: route
  l_closed :: bool
  l_pc :: loop_pc

datatype task_pc = Handling | Closing | Releasing | Finishing | TaskExited

record conn_task =
  t_conn :: tcp_conn
  t_ip :: string
  t_route :: route
  t_pc :: task_pc

datatype drain_pc = NotCalled | WaitAccepts | WaitConns | DoneClosed

text \<open>
  \<open>logf\<close> says whether a log function is set; \<open>accepted\<close> and \<open>closed\<close> record the connections that \<open>Accept\<close>
  returned and those the server has closed.
\<close>

record server =
  sem :: "semaphore option"
  logf :: bool
  acceptWG :: int
  connWG :: int
  loops :: "accept_loop list"
  tasks :: "conn_task list"
  accepted :: "tcp_conn list"
  closed :: "tcp_conn list"
  logged :: "(string \<times> string list) list"
  drain :: drain_pc
  drain_timeout :: int
  drained :: "bool option"

definition NewServer :: "int \<Rightarrow> bool \<Rightarrow> server result" where
  "NewServer maxConcurrent lf =
     (let server = (\<lambda>q. \<lparr>sem = q, logf = lf, acceptWG = 0, connWG = 0, loops = [], tasks = [],
        accepted = [], closed = [], logged = [], drain = NotCalled, drain_timeout = 0, drained = None\<rparr>)
      in if 0 < maxConcurrent
         then (case Semaphore_New maxConcurrent of Inl e \<Rightarrow> Inl e | Inr q \<Rightarrow> Inr (server (Some q)))
         else Inr (server None))"

definition log :: "string \<Rightarrow> string list \<Rightarrow> server \<Rightarrow> server" where
  "log format args s = (if logf s then s\<lparr>logged := logged s @ [(format, args)]\<rparr> else s)"

section \<open>Accept loops\<close>

text \<open>
  \<open>Serve\<close>.  The caller stops serving before it drains: a wait group allows no \<open>Add\<close> that runs
  concurrently with a \<open>Wait\<close> for counter zero.
\<close>

definition Serve :: "route \<Rightarrow> server \<Rightarrow> server option" where
  "Serve r s =
     (if drain s = NotCalled
      then Some (s\<lparr>acceptWG := acceptWG s + 1, loops := loops s @ [\<lparr>l_route = r, l_closed = False, l_pc = Accepting\<rparr>]\<rparr>)
      else None)"

definition close_listener :: "nat \<Rightarrow> server \<Rightarrow> server option" where
  "close_listener i s =
     (if i < length (loops s) \<and> \<not> l_closed (loops s ! i)
      then Some (s\<lparr>loops := (loops s)[i := (loops s ! i)\<lparr>l_closed := True\<rparr>]\<rparr>) else None)"

text \<open>The goroutine's next statement, when its program counter is at it.\<close>

definition in_loop :: "nat \<Rightarrow> server \<Rightarrow> (accept_loop \<Rightarrow> server option) \<Rightarrow> server option" where
  "in_loop i s f = (if i < length (loops s) then f (loops s ! i) else None)"

definition set_loop :: "nat \<Rightarrow> loop_pc \<Rightarrow> server \<Rightarrow> server" where
  "set_loop i pc s = s\<lparr>loops := (loops s)[i := (loops s ! i)\<lparr>l_pc := pc\<rparr>]\<rparr>"

text \<open>\<open>Accept\<close> reports \<open>net.ErrClosed\<close> exactly on a listener that has been closed.\<close>

definition serve_accept :: "nat \<Rightarrow> accept_result \<Rightarrow> server \<Rightarrow> server option" where
  "serve_accept i res s = in_loop i s (\<lambda>l.
     if l_pc l \<noteq> Accepting then None
     else case res of
       ErrClosed \<Rightarrow> if l_closed l then Some (set_loop i Returned s) else None
     | AcceptErr e \<Rightarrow> if l_closed l then None else Some (log ''ACCEPT %s: %v'' [Listen (l_route l), e] s)
     | AcceptConn c \<Rightarrow>
         if l_closed l then None
         else Some (set_loop i (Got c (RemoteIP (remote c))) (s\<lparr>accepted := accepted s @ [c]\<rparr>)))"

definition serve_acquire :: "nat \<Rightarrow> server \<Rightarrow> server option" where
  "serve_acquire i s = in_loop i s (\<lambda>l.
     case l_pc l of
       Got c ip \<Rightarrow>
         (case Acquire (sem s) of
            (True, q) \<Rightarrow> Some (set_loop i (Admitted c ip) (s\<lparr>sem := q\<rparr>))
          | (False, q) \<Rightarrow>
              Some (set_loop i Accepting
                (log ''[%s] OVERLOAD dropping connection on %s'' [ip, Listen (l_route l)]
                  (s\<lparr>sem := q, closed := closed s @ [c]\<rparr>))))
     | _ \<Rightarrow> None)"

definition serve_spawn :: "nat \<Rightarrow> server \<Rightarrow> server option" where
  "serve_spawn i s = in_loop i s (\<lambda>l.
     case l_pc l of
       Admitted c ip \<Rightarrow>
         Some (set_loop i Accepting (s\<lparr>connWG := connWG s + 1,
           tasks := tasks s @ [\<lparr>t_conn = c, t_ip = ip, t_route = l_route l, t_pc = Handling\<rparr>]\<rparr>))
     | _ \<Rightarrow> None)"

definition serve_done :: "nat \<Rightarrow> server \<Rightarrow> server option" where
  "serve_done i s = in_loop i s (\<lambda>l.
     if l_pc l = Returned then Some (set_loop i LoopExited (s\<lparr>acceptWG := acceptWG s - 1\<rparr>)) else None)"

section \<open>Connections\<close>

definition set_task :: "nat \<Rightarrow> task_pc \<Rightarrow> server \<Rightarrow> server" where
  "set_task i pc s = s\<lparr>tasks := (tasks s)[i := (tasks s ! i)\<lparr>t_pc := pc\<rparr>]\<rparr>"

definition in_task :: "nat \<Rightarrow> task_pc \<Rightarrow> server \<Rightarrow> (conn_task \<Rightarrow> server) \<Rightarrow> server option" where
  "in_task i pc s f = (if i < length (tasks s) \<and> t_pc (tasks s ! i) = pc then Some (f (tasks s ! i)) else None)"

text \<open>The handler returns, and the deferred calls run, last one first.\<close>

definition handler_returns :: "nat \<Rightarrow> server \<Rightarrow> server option" where
  "handler_returns i s = in_task i Handling s (\<lambda>_. set_task i Closing s)"

definition task_close :: "nat \<Rightarrow> close_result \<Rightarrow> server \<Rightarrow> server option" where
  "task_close i res s = in_task i Closing s (\<lambda>t.
     let s' = set_task i Releasing (s\<lparr>closed := closed s @ [t_conn t]\<rparr>)
     in case res of
          CloseErr e \<Rightarrow> log ''[%s] CLOSE %s: %v'' [t_ip t, Listen (t_route t), e] s'
        | _ \<Rightarrow> s')"

definition task_release :: "nat \<Rightarrow> server \<Rightarrow> server option" where
  "task_release i s = in_task i Releasing s (\<lambda>_. set_task i Finishing (s\<lparr>sem := Release (sem s)\<rparr>))"

definition task_done :: "nat \<Rightarrow> server \<Rightarrow> server option" where
  "task_done i s = in_task i Finishing s (\<lambda>_. set_task i TaskExited (s\<lparr>connWG := connWG s - 1\<rparr>))"

section \<open>Drain\<close>

definition Drain :: "int \<Rightarrow> server \<Rightarrow> server option" where
  "Drain timeout s =
     (if drain s = NotCalled then Some (s\<lparr>drain := WaitAccepts, drain_timeout := timeout\<rparr>) else None)"

text \<open>The waiting goroutine: \<open>acceptWG.Wait\<close>, then \<open>connWG.Wait\<close> and \<open>close(done)\<close>.\<close>

definition drain_wait :: "server \<Rightarrow> server option" where
  "drain_wait s =
     (case drain s of
        WaitAccepts \<Rightarrow> if acceptWG s = 0 then Some (s\<lparr>drain := WaitConns\<rparr>) else None
      | WaitConns \<Rightarrow> if connWG s = 0 then Some (s\<lparr>drain := DoneClosed\<rparr>) else None
      | _ \<Rightarrow> None)"

definition drain_returns :: "server \<Rightarrow> server option" where
  "drain_returns s =
     (if drain s = DoneClosed \<and> drained s = None then Some (s\<lparr>drained := Some True\<rparr>) else None)"

definition drain_expires :: "server \<Rightarrow> server option" where
  "drain_expires s =
     (if drain s \<noteq> NotCalled \<and> drained s = None \<and> 0 < drain_timeout s then Some (s\<lparr>drained := Some False\<rparr>) else None)"

section \<open>Steps\<close>

datatype event =
    EvServe route
  | EvCloseListener nat
  | EvAccept nat accept_result
  | EvAcquire nat
  | EvSpawn nat
  | EvLoopDone nat
  | EvHandlerReturns nat
  | EvClose nat close_result
  | EvRelease nat
  | EvTaskDone nat
  | EvDrain int
  | EvWait
  | EvDrainReturns
  | EvDrainExpires

fun server_step :: "event \<Rightarrow> server \<Rightarrow> server option" where
  "server_step (EvServe r) s = Serve r s"
| "server_step (EvCloseListener i) s = close_listener i s"
| "server_step (EvAccept i res) s = serve_accept i res s"
| "server_step (EvAcquire i) s = serve_acquire i s"
| "server_step (EvSpawn i) s = serve_spawn i s"
| "server_step (EvLoopDone i) s = serve_done i s"
| "server_step (EvHandlerReturns i) s = handler_returns i s"
| "server_step (EvClose i res) s = task_close i res s"
| "server_step (EvRelease i) s = task_release i s"
| "server_step (EvTaskDone i) s = task_done i s"
| "server_step (EvDrain timeout) s = Drain timeout s"
| "server_step EvWait s = drain_wait s"
| "server_step EvDrainReturns s = drain_returns s"
| "server_step EvDrainExpires s = drain_expires s"

fun server_run :: "event list \<Rightarrow> server \<Rightarrow> server option" where
  "server_run [] s = Some s"
| "server_run (e # es) s = (case server_step e s of None \<Rightarrow> None | Some s' \<Rightarrow> server_run es s')"

inductive server_reachable :: "int \<Rightarrow> server \<Rightarrow> bool" for maxConcurrent where
  start: "NewServer maxConcurrent lf = Inr s \<Longrightarrow> server_reachable maxConcurrent s"
| step: "server_reachable maxConcurrent s \<Longrightarrow> server_step e s = Some s' \<Longrightarrow> server_reachable maxConcurrent s'"

section \<open>Counting goroutines\<close>

definition count_if :: "('a \<Rightarrow> bool) \<Rightarrow> 'a list \<Rightarrow> nat" where
  "count_if P xs = length (filter P xs)"

lemma count_if_simps [simp]:
  "count_if P [] = 0" "count_if P (x # xs) = of_bool (P x) + count_if P xs"
  "count_if P (xs @ ys) = count_if P xs + count_if P ys"
  by (simp_all add: count_if_def)

lemma count_if_update:
  "i < length xs \<Longrightarrow> count_if P (xs[i := y]) + of_bool (P (xs ! i)) = count_if P xs + of_bool (P y)"
proof (induction xs arbitrary: i)
  case (Cons x xs)
  then show ?case by (cases i) (simp_all add: add.assoc)
qed simp

lemma count_if_update_int:
  "i < length xs \<Longrightarrow> int (count_if P (xs[i := y])) = int (count_if P xs) + of_bool (P y) - of_bool (P (xs ! i))"
  using count_if_update [of i xs P y] by (simp add: of_bool_def split: if_splits)

lemma count_if_0: "count_if P xs = 0 \<longleftrightarrow> (\<forall>x\<in>set xs. \<not> P x)"
  by (simp add: count_if_def filter_empty_conv)

lemma count_if_pos: "i < length xs \<Longrightarrow> P (xs ! i) \<Longrightarrow> 0 < count_if P xs"
  using count_if_0 [of P xs] by fastforce

definition loop_running :: "accept_loop \<Rightarrow> bool" where
  "loop_running l \<longleftrightarrow> l_pc l \<noteq> LoopExited"

definition task_running :: "conn_task \<Rightarrow> bool" where
  "task_running t \<longleftrightarrow> t_pc t \<noteq> TaskExited"

definition loop_holds_slot :: "accept_loop \<Rightarrow> bool" where
  "loop_holds_slot l \<longleftrightarrow> (\<exists>c ip. l_pc l = Admitted c ip)"

definition task_holds_slot :: "conn_task \<Rightarrow> bool" where
  "task_holds_slot t \<longleftrightarrow> t_pc t \<in> {Handling, Closing, Releasing}"

definition slots_held :: "server \<Rightarrow> nat" where
  "slots_held s = count_if loop_holds_slot (loops s) + count_if task_holds_slot (tasks s)"

text \<open>A goroutine that still has to close the connection.\<close>

definition loop_owns :: "accept_loop \<Rightarrow> tcp_conn \<Rightarrow> bool" where
  "loop_owns l c \<longleftrightarrow> (\<exists>ip. l_pc l = Got c ip \<or> l_pc l = Admitted c ip)"

definition task_owns :: "conn_task \<Rightarrow> tcp_conn \<Rightarrow> bool" where
  "task_owns t c \<longleftrightarrow> t_conn t = c \<and> t_pc t \<in> {Handling, Closing}"

section \<open>The invariant\<close>

definition counts_ok :: "server \<Rightarrow> bool" where
  "counts_ok s \<longleftrightarrow> acceptWG s = int (count_if loop_running (loops s))
     \<and> connWG s = int (count_if task_running (tasks s)) \<and> sem_held (slots_held s) (sem s)"

definition owned_ok :: "server \<Rightarrow> bool" where
  "owned_ok s \<longleftrightarrow> (\<forall>c\<in>set (accepted s). c \<in> set (closed s)
     \<or> (\<exists>l\<in>set (loops s). loop_owns l c) \<or> (\<exists>t\<in>set (tasks s). task_owns t c))"

definition drain_ok :: "server \<Rightarrow> bool" where
  "drain_ok s \<longleftrightarrow> (drain s \<in> {WaitConns, DoneClosed} \<longrightarrow> (\<forall>l\<in>set (loops s). \<not> loop_running l))
     \<and> (drain s = DoneClosed \<longrightarrow> (\<forall>t\<in>set (tasks s). \<not> task_running t))
     \<and> (drained s = Some True \<longrightarrow> drain s = DoneClosed)"

lemmas pc_defs = loop_running_def task_running_def loop_holds_slot_def task_holds_slot_def loop_owns_def task_owns_def

lemmas step_defs = Serve_def close_listener_def serve_accept_def serve_acquire_def serve_spawn_def serve_done_def
  handler_returns_def task_close_def task_release_def task_done_def Drain_def drain_wait_def drain_returns_def
  drain_expires_def in_loop_def in_task_def set_loop_def set_task_def log_def Let_def

text \<open>What an event that could happen did, one rule per statement of the code.\<close>

lemma log_fields [simp]:
  "loops (log f args s) = loops s" "tasks (log f args s) = tasks s" "drain (log f args s) = drain s"
  "acceptWG (log f args s) = acceptWG s" "connWG (log f args s) = connWG s" "sem (log f args s) = sem s"
  "accepted (log f args s) = accepted s" "closed (log f args s) = closed s" "drained (log f args s) = drained s"
  by (simp_all add: log_def)

lemma serve_acceptE:
  assumes "serve_accept i res s = Some s'"
  obtains (stopped) "i < length (loops s)" "l_pc (loops s ! i) = Accepting" "l_closed (loops s ! i)" "s' = set_loop i Returned s"
  | (failed) e where "i < length (loops s)" "l_pc (loops s ! i) = Accepting" "\<not> l_closed (loops s ! i)"
      "s' = log ''ACCEPT %s: %v'' [Listen (l_route (loops s ! i)), e] s"
  | (conn) c where "i < length (loops s)" "l_pc (loops s ! i) = Accepting" "\<not> l_closed (loops s ! i)"
      "s' = set_loop i (Got c (RemoteIP (remote c))) (s\<lparr>accepted := accepted s @ [c]\<rparr>)"
  using assms by (auto simp: serve_accept_def in_loop_def split: if_splits accept_result.splits)

lemma serve_acquireE:
  assumes "serve_acquire i s = Some s'"
  obtains (admitted) c ip q where "i < length (loops s)" "l_pc (loops s ! i) = Got c ip" "Acquire (sem s) = (True, q)"
      "s' = set_loop i (Admitted c ip) (s\<lparr>sem := q\<rparr>)"
  | (refused) c ip q where "i < length (loops s)" "l_pc (loops s ! i) = Got c ip" "Acquire (sem s) = (False, q)"
      "s' = set_loop i Accepting (log ''[%s] OVERLOAD dropping connection on %s'' [ip, Listen (l_route (loops s ! i))]
         (s\<lparr>sem := q, closed := closed s @ [c]\<rparr>))"
  using assms by (auto simp: serve_acquire_def in_loop_def split: if_splits loop_pc.splits prod.splits bool.splits)

lemma serve_spawnE:
  assumes "serve_spawn i s = Some s'"
  obtains c ip where "i < length (loops s)" "l_pc (loops s ! i) = Admitted c ip"
    "s' = set_loop i Accepting (s\<lparr>connWG := connWG s + 1,
       tasks := tasks s @ [\<lparr>t_conn = c, t_ip = ip, t_route = l_route (loops s ! i), t_pc = Handling\<rparr>]\<rparr>)"
  using assms by (auto simp: serve_spawn_def in_loop_def split: if_splits loop_pc.splits)

lemma serve_doneE:
  assumes "serve_done i s = Some s'"
  obtains "i < length (loops s)" "l_pc (loops s ! i) = Returned" "s' = set_loop i LoopExited (s\<lparr>acceptWG := acceptWG s - 1\<rparr>)"
  using assms by (auto simp: serve_done_def in_loop_def split: if_splits)

lemma close_listenerE:
  assumes "close_listener i s = Some s'"
  obtains "i < length (loops s)" "\<not> l_closed (loops s ! i)" "s' = s\<lparr>loops := (loops s)[i := (loops s ! i)\<lparr>l_closed := True\<rparr>]\<rparr>"
  using assms by (auto simp: close_listener_def split: if_splits)

lemma handler_returnsE:
  assumes "handler_returns i s = Some s'"
  obtains "i < length (tasks s)" "t_pc (tasks s ! i) = Handling" "s' = set_task i Closing s"
  using assms by (auto simp: handler_returns_def in_task_def split: if_splits)

lemma task_closeE:
  assumes "task_close i res s = Some s'"
  obtains lg args where "i < length (tasks s)" "t_pc (tasks s ! i) = Closing"
    "s' = (if lg then log ''[%s] CLOSE %s: %v'' args else id) (set_task i Releasing (s\<lparr>closed := closed s @ [t_conn (tasks s ! i)]\<rparr>))"
proof -
  let ?s = "set_task i Releasing (s\<lparr>closed := closed s @ [t_conn (tasks s ! i)]\<rparr>)"
  have "i < length (tasks s)" "t_pc (tasks s ! i) = Closing" "s' = ?s \<or> (\<exists>args. s' = log ''[%s] CLOSE %s: %v'' args ?s)"
    using assms by (auto simp: task_close_def in_task_def Let_def split: if_splits close_result.splits)
  then show thesis using that [of False] that [of True] by auto
qed

lemma task_releaseE:
  assumes "task_release i s = Some s'"
  obtains "i < length (tasks s)" "t_pc (tasks s ! i) = Releasing" "s' = set_task i Finishing (s\<lparr>sem := Release (sem s)\<rparr>)"
  using assms by (auto simp: task_release_def in_task_def split: if_splits)

lemma task_doneE:
  assumes "task_done i s = Some s'"
  obtains "i < length (tasks s)" "t_pc (tasks s ! i) = Finishing" "s' = set_task i TaskExited (s\<lparr>connWG := connWG s - 1\<rparr>)"
  using assms by (auto simp: task_done_def in_task_def split: if_splits)

lemmas drain_step_defs = Drain_def drain_wait_def drain_returns_def drain_expires_def

lemma count_if_nth:
  assumes "i < length xs"
  shows "count_if P (xs[i := y]) = count_if P xs + of_bool (P y) - of_bool (P (xs ! i))"
    and "P (xs ! i) \<Longrightarrow> \<exists>n. count_if P xs = Suc n"
  using count_if_update [OF assms, of P y] count_if_pos [OF assms, of P] gr0_conv_Suc by auto

lemma counts_ok_loop:
  assumes "counts_ok s" "i < length (loops s)"
    "acceptWG s' = acceptWG s + of_bool (loop_running l) - of_bool (loop_running (loops s ! i))"
    "loops s' = (loops s)[i := l]" "connWG s' = connWG s" "tasks s' = tasks s"
    "sem_held (slots_held s + of_bool (loop_holds_slot l) - of_bool (loop_holds_slot (loops s ! i))) (sem s')"
  shows "counts_ok s'"
proof -
  have "slots_held s' = slots_held s + of_bool (loop_holds_slot l) - of_bool (loop_holds_slot (loops s ! i))"
    using count_if_update [OF assms(2), of loop_holds_slot l] assms(4,6) by (simp add: slots_held_def)
  then show ?thesis using assms count_if_update_int [OF assms(2), of loop_running l] by (simp add: counts_ok_def)
qed

lemma counts_ok_task:
  assumes "counts_ok s" "i < length (tasks s)"
    "connWG s' = connWG s + of_bool (task_running t) - of_bool (task_running (tasks s ! i))"
    "tasks s' = (tasks s)[i := t]" "acceptWG s' = acceptWG s" "loops s' = loops s"
    "sem_held (slots_held s + of_bool (task_holds_slot t) - of_bool (task_holds_slot (tasks s ! i))) (sem s')"
  shows "counts_ok s'"
proof -
  have "slots_held s' = slots_held s + of_bool (task_holds_slot t) - of_bool (task_holds_slot (tasks s ! i))"
    using count_if_update [OF assms(2), of task_holds_slot t] assms(4,6) by (simp add: slots_held_def)
  then show ?thesis using assms count_if_update_int [OF assms(2), of task_running t] by (simp add: counts_ok_def)
qed

lemma counts_ok_held: "counts_ok s \<Longrightarrow> sem_held (slots_held s) (sem s)"
  by (simp add: counts_ok_def)

lemma counts_ok_other:
  "counts_ok s \<Longrightarrow> acceptWG s' = acceptWG s \<Longrightarrow> connWG s' = connWG s \<Longrightarrow> loops s' = loops s \<Longrightarrow> tasks s' = tasks s \<Longrightarrow>
     sem s' = sem s \<Longrightarrow> counts_ok s'"
  by (simp add: counts_ok_def slots_held_def)

lemma slots_held_task: "i < length (tasks s) \<Longrightarrow> task_holds_slot (tasks s ! i) \<Longrightarrow> \<exists>n. slots_held s = Suc n"
  using count_if_nth(2) [of i "tasks s" task_holds_slot] by (auto simp: slots_held_def)

lemma counts_ok_accept:
  assumes "counts_ok s" "serve_accept i res s = Some s'"
  shows "counts_ok s'"
  using assms(2)
proof (cases rule: serve_acceptE)
  case (failed e)
  then show ?thesis using counts_ok_other [OF assms(1)] by simp
qed (use counts_ok_held [OF assms(1)] in \<open>auto simp: set_loop_def pc_defs intro!: counts_ok_loop [OF assms(1)]\<close>)

lemma counts_ok_acquire:
  assumes "counts_ok s" "serve_acquire i s = Some s'"
  shows "counts_ok s'"
  using assms(2)
proof (cases rule: serve_acquireE)
  case (admitted c ip q)
  have "sem_held (Suc (slots_held s)) q" using sem.acquired [OF counts_ok_held [OF assms(1)] admitted(3)] by simp
  then show ?thesis
    by (intro counts_ok_loop [OF assms(1) admitted(1)]) (use admitted in \<open>auto simp: set_loop_def pc_defs\<close>)
next
  case (refused c ip q)
  have "sem_held (slots_held s) q" using sem.refused [OF counts_ok_held [OF assms(1)] refused(3)] counts_ok_held [OF assms(1)] by simp
  then show ?thesis
    by (intro counts_ok_loop [OF assms(1) refused(1)]) (use refused in \<open>auto simp: set_loop_def pc_defs\<close>)
qed

lemma counts_ok_release:
  assumes "counts_ok s" "task_release i s = Some s'"
  shows "counts_ok s'"
  using assms(2)
proof (cases rule: task_releaseE)
  case 1
  obtain n where n: "slots_held s = Suc n" using slots_held_task [OF 1(1)] 1(2) by (auto simp: task_holds_slot_def)
  have "sem_held n (Release (sem s))" using sem.released counts_ok_held [OF assms(1)] n by simp
  then show ?thesis
    by (intro counts_ok_task [OF assms(1) 1(1), where t = "(tasks s ! i)\<lparr>t_pc := Finishing\<rparr>"])
      (use 1 n in \<open>auto simp: set_task_def pc_defs\<close>)
qed

lemma counts_ok_spawn:
  assumes "counts_ok s" "serve_spawn i s = Some s'"
  shows "counts_ok s'"
  using assms(2)
proof (cases rule: serve_spawnE)
  case (1 c ip)
  then show ?thesis
    using assms(1) count_if_update [OF 1(1), of loop_holds_slot "(loops s ! i)\<lparr>l_pc := Accepting\<rparr>"]
      count_if_update [OF 1(1), of loop_running "(loops s ! i)\<lparr>l_pc := Accepting\<rparr>"]
    by (auto simp: counts_ok_def slots_held_def set_loop_def pc_defs simp flip: add_Suc)
qed

lemma counts_ok_close_listener:
  assumes "counts_ok s" "close_listener i s = Some s'"
  shows "counts_ok s'"
  using assms(2)
proof (cases rule: close_listenerE)
  case 1
  show ?thesis by (rule counts_ok_loop [OF assms(1) 1(1)]) (use 1 counts_ok_held [OF assms(1)] in \<open>auto simp: pc_defs\<close>)
qed

lemma counts_ok_done:
  assumes "counts_ok s"
  shows "serve_done i s = Some s' \<Longrightarrow> counts_ok s'"
  using counts_ok_held [OF assms] by (auto simp: set_loop_def pc_defs intro!: counts_ok_loop [OF assms] elim!: serve_doneE)

lemma counts_ok_tasks:
  assumes "counts_ok s"
  shows "handler_returns i s = Some s' \<Longrightarrow> counts_ok s'" "task_close i res s = Some s' \<Longrightarrow> counts_ok s'"
    "task_done i s = Some s' \<Longrightarrow> counts_ok s'"
  using counts_ok_held [OF assms]
  by (auto simp: set_task_def pc_defs intro!: counts_ok_task [OF assms] elim!: handler_returnsE task_closeE task_doneE)

lemma counts_ok_frame:
  assumes "counts_ok s"
  shows "Serve r s = Some s' \<Longrightarrow> counts_ok s'" "Drain timeout s = Some s' \<Longrightarrow> counts_ok s'" "drain_wait s = Some s' \<Longrightarrow> counts_ok s'"
    "drain_returns s = Some s' \<Longrightarrow> counts_ok s'" "drain_expires s = Some s' \<Longrightarrow> counts_ok s'"
  using assms by (auto simp: Serve_def drain_step_defs counts_ok_def slots_held_def pc_defs split: if_splits drain_pc.splits)

lemma counts_ok_step: "counts_ok s \<Longrightarrow> server_step e s = Some s' \<Longrightarrow> counts_ok s'"
  by (cases e; simp only: server_step.simps)
    (erule (1) counts_ok_frame counts_ok_close_listener counts_ok_accept counts_ok_acquire counts_ok_spawn counts_ok_done
      counts_ok_tasks counts_ok_release)+

lemma kept_or_updated: "x \<in> set xs \<Longrightarrow> i < length xs \<Longrightarrow> x = xs ! i \<or> x \<in> set (xs[i := y])"
  by (metis in_set_conv_nth length_list_update nth_list_update_neq)

lemma all_set_update: "\<forall>x\<in>set xs. P x \<Longrightarrow> P y \<Longrightarrow> \<forall>x\<in>set (xs[i := y]). P x"
  using set_update_subset_insert [of xs i y] by blast

lemma owned_ok_loop:
  assumes "owned_ok s" "i < length (loops s)" "loops s' = (loops s)[i := l]"
    "set (tasks s) \<subseteq> set (tasks s')" "set (closed s) \<subseteq> set (closed s')"
    "set (accepted s') \<subseteq> set (accepted s) \<union> {c. loop_owns l c}"
    "\<And>c. loop_owns (loops s ! i) c \<Longrightarrow> c \<in> set (closed s') \<or> loop_owns l c \<or> (\<exists>t\<in>set (tasks s'). task_owns t c)"
  shows "owned_ok s'"
  unfolding owned_ok_def
proof
  fix c assume "c \<in> set (accepted s')"
  have l: "l \<in> set (loops s')" using assms(2,3) by (simp add: set_update_memI)
  consider (new) "loop_owns l c" | (old) "c \<in> set (accepted s)" using assms(6) \<open>c \<in> set (accepted s')\<close> by blast
  then show "c \<in> set (closed s') \<or> (\<exists>l\<in>set (loops s'). loop_owns l c) \<or> (\<exists>t\<in>set (tasks s'). task_owns t c)"
  proof cases
    case old
    then consider "c \<in> set (closed s)" | "\<exists>t\<in>set (tasks s). task_owns t c" | k where "k \<in> set (loops s)" "loop_owns k c"
      using assms(1) unfolding owned_ok_def by blast
    then show ?thesis
    proof cases
      case (3 k)
      then show ?thesis using kept_or_updated [OF 3(1) assms(2), of l] assms(3,7) l by auto
    qed (use assms(4,5) in blast)+
  qed (use l in blast)
qed

lemma owned_ok_task:
  assumes "owned_ok s" "i < length (tasks s)" "tasks s' = (tasks s)[i := t]" "loops s' = loops s"
    "set (closed s) \<subseteq> set (closed s')" "accepted s' = accepted s"
    "\<And>c. task_owns (tasks s ! i) c \<Longrightarrow> c \<in> set (closed s') \<or> task_owns t c"
  shows "owned_ok s'"
  unfolding owned_ok_def
proof
  fix c assume "c \<in> set (accepted s')"
  then consider "c \<in> set (closed s)" | "\<exists>l\<in>set (loops s). loop_owns l c" | k where "k \<in> set (tasks s)" "task_owns k c"
    using assms(1,6) unfolding owned_ok_def by metis
  then show "c \<in> set (closed s') \<or> (\<exists>l\<in>set (loops s'). loop_owns l c) \<or> (\<exists>t\<in>set (tasks s'). task_owns t c)"
  proof cases
    case (3 k)
    have "t \<in> set (tasks s')" using assms(2,3) by (simp add: set_update_memI)
    then show ?thesis using kept_or_updated [OF 3(1) assms(2), of t] 3(2) assms(3,7) by auto
  qed (use assms(4,5) in auto)
qed

lemma owned_ok_other:
  "owned_ok s \<Longrightarrow> set (loops s) \<subseteq> set (loops s') \<Longrightarrow> tasks s' = tasks s \<Longrightarrow> closed s' = closed s \<Longrightarrow> accepted s' = accepted s \<Longrightarrow>
     owned_ok s'"
  by (auto simp: owned_ok_def) blast

lemma owned_ok_accept:
  assumes "owned_ok s" "serve_accept i res s = Some s'"
  shows "owned_ok s'"
  using assms(2)
proof (cases rule: serve_acceptE)
  case (failed e)
  then show ?thesis using owned_ok_other [OF assms(1)] by simp
qed (auto simp: set_loop_def pc_defs intro!: owned_ok_loop [OF assms(1)])

lemma owned_ok_loops:
  assumes "owned_ok s"
  shows "close_listener i s = Some s' \<Longrightarrow> owned_ok s'" "serve_acquire i s = Some s' \<Longrightarrow> owned_ok s'"
    "serve_spawn i s = Some s' \<Longrightarrow> owned_ok s'" "serve_done i s = Some s' \<Longrightarrow> owned_ok s'"
  by (auto simp: set_loop_def pc_defs intro!: owned_ok_loop [OF assms]
      elim!: close_listenerE serve_acquireE serve_spawnE serve_doneE)

lemma owned_ok_tasks:
  assumes "owned_ok s"
  shows "handler_returns i s = Some s' \<Longrightarrow> owned_ok s'" "task_close i res s = Some s' \<Longrightarrow> owned_ok s'"
    "task_release i s = Some s' \<Longrightarrow> owned_ok s'" "task_done i s = Some s' \<Longrightarrow> owned_ok s'"
  by (auto simp: set_task_def pc_defs intro!: owned_ok_task [OF assms]
      elim!: handler_returnsE task_closeE task_releaseE task_doneE)

lemma owned_ok_frame:
  assumes "owned_ok s"
  shows "Serve r s = Some s' \<Longrightarrow> owned_ok s'" "Drain timeout s = Some s' \<Longrightarrow> owned_ok s'" "drain_wait s = Some s' \<Longrightarrow> owned_ok s'"
    "drain_returns s = Some s' \<Longrightarrow> owned_ok s'" "drain_expires s = Some s' \<Longrightarrow> owned_ok s'"
  by (auto simp: Serve_def drain_step_defs split: if_splits drain_pc.splits intro!: owned_ok_other [OF assms])

lemma owned_ok_step: "owned_ok s \<Longrightarrow> server_step e s = Some s' \<Longrightarrow> owned_ok s'"
  by (cases e; simp only: server_step.simps) (erule (1) owned_ok_frame owned_ok_accept owned_ok_loops owned_ok_tasks)+

lemma drain_ok_quiet:
  assumes "drain_ok s"
  shows "drain s \<in> {WaitConns, DoneClosed} \<Longrightarrow> i < length (loops s) \<Longrightarrow> l_pc (loops s ! i) = LoopExited"
    and "drain s = DoneClosed \<Longrightarrow> i < length (tasks s) \<Longrightarrow> t_pc (tasks s ! i) = TaskExited"
  using assms by (auto simp: drain_ok_def pc_defs)

lemma drain_ok_step:
  assumes "counts_ok s" "drain_ok s" "server_step e s = Some s'"
  shows "drain_ok s'"
proof (cases "\<exists>i. e = EvCloseListener i \<or> e = EvWait")
  case True
  then consider (close) i where "e = EvCloseListener i" | (wait) "e = EvWait" by blast
  then show ?thesis
  proof cases
    case (close i)
    then have "s' = s\<lparr>loops := (loops s)[i := (loops s ! i)\<lparr>l_closed := True\<rparr>]\<rparr>" "i < length (loops s)"
      using assms(3) by (auto simp: close_listener_def split: if_splits)
    moreover have "\<forall>l\<in>set (loops s). \<not> loop_running l \<Longrightarrow> i < length (loops s) \<Longrightarrow>
        \<forall>l\<in>set ((loops s)[i := (loops s ! i)\<lparr>l_closed := True\<rparr>]). \<not> loop_running l"
      by (rule all_set_update) (simp_all add: pc_defs)
    ultimately show ?thesis using assms(2) by (auto simp: drain_ok_def)
  next
    case wait
    have "acceptWG s = 0 \<Longrightarrow> \<forall>l\<in>set (loops s). \<not> loop_running l" "connWG s = 0 \<Longrightarrow> \<forall>t\<in>set (tasks s). \<not> task_running t"
      using assms(1) by (simp_all add: counts_ok_def count_if_0)
    then show ?thesis using wait assms(2,3)
      by (auto simp: drain_wait_def drain_ok_def split: drain_pc.splits if_splits)
  qed
next
  case False
  have "loops s' = loops s" if "drain s \<in> {WaitConns, DoneClosed}"
  proof -
    have "i < length (loops s) \<Longrightarrow> l_pc (loops s ! i) = LoopExited" for i using drain_ok_quiet(1) [OF assms(2) that] .
    then show ?thesis using assms(3) False that
      by (cases e) (auto simp: step_defs split: if_splits close_result.splits)
  qed
  moreover have "tasks s' = tasks s" if "drain s = DoneClosed"
  proof -
    have "i < length (loops s) \<Longrightarrow> l_pc (loops s ! i) = LoopExited" for i using drain_ok_quiet(1) [OF assms(2)] that by simp
    moreover have "i < length (tasks s) \<Longrightarrow> t_pc (tasks s ! i) = TaskExited" for i using drain_ok_quiet(2) [OF assms(2) that] .
    ultimately show ?thesis using assms(3) False that by (cases e) (auto simp: step_defs split: if_splits)
  qed
  moreover have "(drain s' = drain s \<or> drain s' = WaitAccepts) \<and> (drained s' = Some True \<longrightarrow> drained s = Some True \<or> drain s' = DoneClosed)
      \<and> (drain s = DoneClosed \<longrightarrow> drain s' = DoneClosed)"
    using assms(3) False
    by (cases e) (auto simp: step_defs split: if_splits loop_pc.splits accept_result.splits prod.splits bool.splits close_result.splits)
  ultimately show ?thesis using assms(2) by (auto simp: drain_ok_def)
qed

end
