(* ===== verification/Serving.thy ===== *)
theory Serving
  imports Proxy
begin

text \<open>
  What the connection server of \<open>Proxy\<close> guarantees in every state that a sequence of events reaches:
  the concurrency bound, a complete drain, and that a drain ends once the listeners are closed.
\<close>

section \<open>Reachable servers\<close>

lemma sem_limit_step: "counts_ok s \<Longrightarrow> server_step e s = Some s' \<Longrightarrow> sem_limit (sem s') = sem_limit (sem s)"
proof -
  assume ok: "counts_ok s" and run: "server_step e s = Some s'"
  have acq: "sem_limit q = sem_limit (sem s)" if "Acquire (sem s) = (b, q)" for b q
    using sem.acquired [OF counts_ok_held [OF ok]] sem.refused [OF counts_ok_held [OF ok]] that by (cases b) auto
  have rel: "sem_limit (Release q) = sem_limit q" for q by (auto simp: Release_def sem_limit_def split: option.splits)
  show ?thesis using run acq
    by (cases e) (auto simp: step_defs rel split: if_splits loop_pc.splits accept_result.splits prod.splits bool.splits
        close_result.splits drain_pc.splits)
qed

lemma server_reachable_ok:
  assumes "server_reachable n s"
  shows "counts_ok s \<and> owned_ok s \<and> drain_ok s \<and> sem_limit (sem s) = (if 0 < n then Some (nat n) else None)"
  using assms
proof induction
  case (start lf s)
  then show ?case
    by (auto simp: NewServer_def Semaphore_New_def counts_ok_def owned_ok_def drain_ok_def slots_held_def sem_held_def sem_limit_def
        split: if_splits)
next
  case (step s e s')
  then show ?case using counts_ok_step owned_ok_step drain_ok_step sem_limit_step by metis
qed

definition handlers_running :: "server \<Rightarrow> nat" where
  "handlers_running s = count_if (\<lambda>t. t_pc t = Handling) (tasks s)"

lemma handlers_le_slots: "handlers_running s \<le> slots_held s"
proof -
  have "count_if (\<lambda>t. t_pc t = Handling) ts \<le> count_if task_holds_slot ts" for ts
    by (induction ts) (auto simp: task_holds_slot_def)
  then show ?thesis by (simp add: handlers_running_def slots_held_def trans_le_add2)
qed

text \<open>C32: whatever the interleaving, a server with a bound never runs more handlers than the bound, its wait
  groups count exactly the goroutines that have not finished, so that neither counter can become
  negative, and every accepted connection has been closed by the server or is in the hands of a
  goroutine that will close it.\<close>

theorem server_safe:
  assumes "server_reachable n s"
  shows "(0 < n \<longrightarrow> int (handlers_running s) \<le> n)
    \<and> acceptWG s = int (count_if loop_running (loops s)) \<and> connWG s = int (count_if task_running (tasks s))
    \<and> (\<forall>c\<in>set (accepted s). c \<in> set (closed s)
        \<or> (\<exists>l\<in>set (loops s). loop_owns l c) \<or> (\<exists>t\<in>set (tasks s). task_owns t c))"
proof -
  note ok = server_reachable_ok [OF assms]
  have "int (handlers_running s) \<le> n" if "0 < n"
  proof -
    have "slots_held s \<le> nat n" using sem.bounded [OF counts_ok_held] ok that by auto
    then show ?thesis using handlers_le_slots [of s] that by linarith
  qed
  then show ?thesis using ok by (simp add: counts_ok_def owned_ok_def)
qed

text \<open>C33: a drain that reports success is complete: when \<open>Drain\<close> returns true no accept loop and no
  handler is left, every connection that was ever accepted is closed, and all slots are free.\<close>

theorem Drain_complete:
  assumes "server_reachable n s" "drained s = Some True"
  shows "(\<forall>l\<in>set (loops s). l_pc l = LoopExited) \<and> (\<forall>t\<in>set (tasks s). t_pc t = TaskExited)
    \<and> set (accepted s) \<subseteq> set (closed s) \<and> sem_held 0 (sem s)"
proof -
  note ok = server_reachable_ok [OF assms(1)]
  have quiet: "\<forall>l\<in>set (loops s). l_pc l = LoopExited" "\<forall>t\<in>set (tasks s). t_pc t = TaskExited"
    using ok assms(2) by (auto simp: drain_ok_def pc_defs)
  then have "slots_held s = 0" by (auto simp: slots_held_def count_if_0 pc_defs)
  moreover have "set (accepted s) \<subseteq> set (closed s)" using ok quiet by (auto simp: owned_ok_def pc_defs)
  ultimately show ?thesis using quiet ok counts_ok_held by fastforce
qed

section \<open>Progress\<close>

text \<open>
  A bound on the statements left to execute once every listener is closed and \<open>Drain\<close> was called.
\<close>

fun loop_work :: "loop_pc \<Rightarrow> nat" where
  "loop_work (Got c ip) = 8"
| "loop_work (Admitted c ip) = 7"
| "loop_work Accepting = 2"
| "loop_work Returned = 1"
| "loop_work LoopExited = 0"

fun task_work :: "task_pc \<Rightarrow> nat" where
  "task_work Handling = 4"
| "task_work Closing = 3"
| "task_work Releasing = 2"
| "task_work Finishing = 1"
| "task_work TaskExited = 0"

fun wait_work :: "drain_pc \<Rightarrow> nat" where
  "wait_work NotCalled = 3"
| "wait_work WaitAccepts = 2"
| "wait_work WaitConns = 1"
| "wait_work DoneClosed = 0"

definition drain_work :: "server \<Rightarrow> nat" where
  "drain_work s = (\<Sum>l\<leftarrow>loops s. loop_work (l_pc l)) + (\<Sum>t\<leftarrow>tasks s. task_work (t_pc t))
     + wait_work (drain s) + (if drained s = None then 1 else 0)"

definition closing :: "server \<Rightarrow> bool" where
  "closing s \<longleftrightarrow> list_all l_closed (loops s) \<and> drain s \<noteq> NotCalled"

lemma work_update:
  "i < length xs \<Longrightarrow> (\<Sum>x\<leftarrow>xs[i := y]. f x) + f (xs ! i) = (\<Sum>x\<leftarrow>xs. f x) + (f y :: nat)"
proof (induction xs arbitrary: i)
  case (Cons x xs)
  then show ?case by (cases i) (simp_all add: add.assoc)
qed simp

lemma work_set:
  "i < length (loops s) \<Longrightarrow> drain_work (set_loop i pc s) + loop_work (l_pc (loops s ! i)) = drain_work s + loop_work pc"
  "i < length (tasks s) \<Longrightarrow> drain_work (set_task i tpc s) + task_work (t_pc (tasks s ! i)) = drain_work s + task_work tpc"
  using work_update [of i "loops s" "\<lambda>l. loop_work (l_pc l)" "(loops s ! i)\<lparr>l_pc := pc\<rparr>"]
    work_update [of i "tasks s" "\<lambda>t. task_work (t_pc t)" "(tasks s ! i)\<lparr>t_pc := tpc\<rparr>"]
  by (simp_all add: drain_work_def set_loop_def set_task_def)

lemma work_frame [simp]:
  "drain_work (s\<lparr>sem := q\<rparr>) = drain_work s" "drain_work (s\<lparr>acceptWG := k\<rparr>) = drain_work s"
  "drain_work (s\<lparr>connWG := k\<rparr>) = drain_work s" "drain_work (s\<lparr>closed := cs\<rparr>) = drain_work s"
  "drain_work (s\<lparr>accepted := cs\<rparr>) = drain_work s" "drain_work (log f args s) = drain_work s"
  "drain_work (s\<lparr>tasks := tasks s @ [t]\<rparr>) = drain_work s + task_work (t_pc t)"
  by (simp_all add: drain_work_def log_def)

lemma closing_closed: "closing s \<Longrightarrow> i < length (loops s) \<Longrightarrow> l_closed (loops s ! i)"
  by (simp add: closing_def list_all_length)

lemma closing_set:
  "closing s \<Longrightarrow> closing (set_loop i pc s)" "closing (set_task i tpc s) = closing s"
  using set_update_subset_insert [of "loops s" i "(loops s ! i)\<lparr>l_pc := pc\<rparr>"]
  by (cases "i < length (loops s)") (auto simp: closing_def set_loop_def set_task_def list_all_iff list_update_beyond)

lemma closing_frame [simp]:
  "closing (s\<lparr>sem := q\<rparr>) = closing s" "closing (s\<lparr>acceptWG := k\<rparr>) = closing s"
  "closing (s\<lparr>connWG := k\<rparr>) = closing s" "closing (s\<lparr>closed := cs\<rparr>) = closing s"
  "closing (s\<lparr>tasks := ts\<rparr>) = closing s" "closing (log f args s) = closing s"
  by (simp_all add: closing_def log_def)

lemma work_loop:
  assumes "closing s" "i < length (loops s)" "loop_work pc < loop_work (l_pc (loops s ! i))"
  shows "closing (set_loop i pc s) \<and> drain_work (set_loop i pc s) < drain_work s"
  using work_set(1) [OF assms(2), of pc] closing_set(1) [OF assms(1)] assms(3) by simp

lemma work_task:
  assumes "closing s" "i < length (tasks s)" "task_work pc < task_work (t_pc (tasks s ! i))"
  shows "closing (set_task i pc s) \<and> drain_work (set_task i pc s) < drain_work s"
  using work_set(2) [OF assms(2), of pc] closing_set(2) assms(1,3) by simp

lemma closing_loops:
  assumes "closing s"
  shows "close_listener i s = Some s' \<Longrightarrow> closing s' \<and> drain_work s' < drain_work s"
    "serve_accept i res s = Some s' \<Longrightarrow> closing s' \<and> drain_work s' < drain_work s"
    "serve_acquire i s = Some s' \<Longrightarrow> closing s' \<and> drain_work s' < drain_work s"
    "serve_done i s = Some s' \<Longrightarrow> closing s' \<and> drain_work s' < drain_work s"
proof -
  show "close_listener i s = Some s' \<Longrightarrow> closing s' \<and> drain_work s' < drain_work s"
    using closing_closed [OF assms] by (auto elim: close_listenerE)
  show "serve_accept i res s = Some s' \<Longrightarrow> closing s' \<and> drain_work s' < drain_work s"
    by (erule serve_acceptE) (use closing_closed [OF assms] work_loop [OF assms, of i Returned] in simp_all)
  show "closing s' \<and> drain_work s' < drain_work s" if "serve_acquire i s = Some s'"
    using that
  proof (cases rule: serve_acquireE)
    case (admitted c ip q)
    then show ?thesis using work_loop [of "s\<lparr>sem := q\<rparr>" i "Admitted c ip"] assms by simp
  next
    case (refused c ip q)
    then show ?thesis
      using work_loop [of "log ''[%s] OVERLOAD dropping connection on %s'' [ip, Listen (l_route (loops s ! i))]
        (s\<lparr>sem := q, closed := closed s @ [c]\<rparr>)" i Accepting] assms by simp
  qed
  show "serve_done i s = Some s' \<Longrightarrow> closing s' \<and> drain_work s' < drain_work s"
    by (erule serve_doneE) (use work_loop [of "s\<lparr>acceptWG := acceptWG s - 1\<rparr>" i LoopExited] assms in simp)
qed

lemma closing_spawn:
  assumes "closing s" "serve_spawn i s = Some s'"
  shows "closing s' \<and> drain_work s' < drain_work s"
  using assms(2)
proof (cases rule: serve_spawnE)
  case (1 c ip)
  let ?s = "s\<lparr>connWG := connWG s + 1,
    tasks := tasks s @ [\<lparr>t_conn = c, t_ip = ip, t_route = l_route (loops s ! i), t_pc = Handling\<rparr>]\<rparr>"
  have "drain_work ?s = drain_work s + 4" by (simp add: drain_work_def)
  then show ?thesis using work_set(1) [of i ?s Accepting] 1 closing_set(1) [of ?s] assms(1) by simp
qed

lemma closing_tasks:
  assumes "closing s"
  shows "handler_returns i s = Some s' \<Longrightarrow> closing s' \<and> drain_work s' < drain_work s"
    "task_close i res s = Some s' \<Longrightarrow> closing s' \<and> drain_work s' < drain_work s"
    "task_release i s = Some s' \<Longrightarrow> closing s' \<and> drain_work s' < drain_work s"
    "task_done i s = Some s' \<Longrightarrow> closing s' \<and> drain_work s' < drain_work s"
  using work_task [OF assms, of i Closing] work_task [of "s\<lparr>closed := closed s @ [t_conn (tasks s ! i)]\<rparr>" i Releasing]
    work_task [of "s\<lparr>sem := Release (sem s)\<rparr>" i Finishing] work_task [of "s\<lparr>connWG := connWG s - 1\<rparr>" i TaskExited] assms
  by (auto elim!: handler_returnsE task_closeE task_releaseE task_doneE split: if_splits)

lemma closing_frames:
  assumes "closing s"
  shows "Serve r s = Some s' \<Longrightarrow> closing s' \<and> drain_work s' < drain_work s"
    "Drain timeout s = Some s' \<Longrightarrow> closing s' \<and> drain_work s' < drain_work s"
    "drain_wait s = Some s' \<Longrightarrow> closing s' \<and> drain_work s' < drain_work s"
    "drain_returns s = Some s' \<Longrightarrow> closing s' \<and> drain_work s' < drain_work s"
    "drain_expires s = Some s' \<Longrightarrow> closing s' \<and> drain_work s' < drain_work s"
  using assms by (auto simp: Serve_def drain_step_defs closing_def drain_work_def split: if_splits drain_pc.splits)

lemma closing_step: "closing s \<Longrightarrow> server_step e s = Some s' \<Longrightarrow> closing s' \<and> drain_work s' < drain_work s"
  by (cases e; simp only: server_step.simps) (erule (1) closing_loops closing_spawn closing_tasks closing_frames)+

lemma closing_run: "closing s \<Longrightarrow> server_run es s = Some s' \<Longrightarrow> length es + drain_work s' \<le> drain_work s"
proof (induction es s rule: server_run.induct)
  case (2 e es s)
  then obtain s1 where s1: "server_step e s = Some s1" "server_run es s1 = Some s'" by (auto split: option.splits)
  then show ?case using 2 closing_step [OF 2(2) s1(1)] by fastforce
qed simp

lemma loop_progress:
  assumes "closing s" "i < length (loops s)" "loop_running (loops s ! i)"
  shows "\<exists>e s'. server_step e s = Some s'"
proof -
  have "serve_accept i ErrClosed s \<noteq> None \<or> serve_acquire i s \<noteq> None \<or> serve_spawn i s \<noteq> None \<or> serve_done i s \<noteq> None"
    using assms(2,3) closing_closed [OF assms(1,2)]
    by (cases "l_pc (loops s ! i)")
      (simp_all add: serve_accept_def serve_acquire_def serve_spawn_def serve_done_def in_loop_def loop_running_def
        split: prod.split bool.split)
  then show ?thesis unfolding server_step.simps(3-6) [symmetric] by blast
qed

lemma task_progress:
  assumes "i < length (tasks s)" "task_running (tasks s ! i)"
  shows "\<exists>e s'. server_step e s = Some s'"
proof -
  have "handler_returns i s \<noteq> None \<or> task_close i CloseOK s \<noteq> None \<or> task_release i s \<noteq> None \<or> task_done i s \<noteq> None"
    using assms by (cases "t_pc (tasks s ! i)")
      (simp_all add: handler_returns_def task_close_def task_release_def task_done_def in_task_def task_running_def Let_def)
  then show ?thesis unfolding server_step.simps(7-10) [symmetric] by blast
qed

lemma closing_progress:
  assumes "closing s" "counts_ok s" "drain s \<noteq> DoneClosed"
  shows "\<exists>e s'. server_step e s = Some s'"
proof -
  consider (loop) i where "i < length (loops s)" "loop_running (loops s ! i)"
    | (task) i where "i < length (tasks s)" "task_running (tasks s ! i)"
    | (quiet) "\<forall>l\<in>set (loops s). \<not> loop_running l" "\<forall>t\<in>set (tasks s). \<not> task_running t"
    by (metis in_set_conv_nth)
  then show ?thesis
  proof cases
    case quiet
    then have "acceptWG s = 0" "connWG s = 0" using assms(2) by (simp_all add: counts_ok_def count_if_0)
    then have "server_step EvWait s \<noteq> None" using assms(1,3) by (cases "drain s") (simp_all add: drain_wait_def closing_def)
    then show ?thesis by blast
  qed (use loop_progress [OF assms(1)] task_progress in blast)+
qed

lemma server_run_reachable: "server_run es s = Some s' \<Longrightarrow> server_reachable n s \<Longrightarrow> server_reachable n s'"
  by (induction es s rule: server_run.induct) (auto split: option.splits dest: server_reachable.step)

lemma closing_finishes:
  assumes "server_reachable n s" "closing s"
  shows "\<exists>es s'. server_run es s = Some s' \<and> drain s' = DoneClosed"
  using assms
proof (induction s rule: measure_induct_rule [of drain_work])
  case (less s)
  show ?case
  proof (cases "drain s = DoneClosed")
    case False
    then obtain e s1 where s1: "server_step e s = Some s1"
      using closing_progress server_reachable_ok less.prems by blast
    have "\<exists>es s'. server_run es s1 = Some s' \<and> drain s' = DoneClosed"
      using less.IH [of s1] closing_step [OF less.prems(2) s1] server_reachable.step [OF less.prems(1) s1] by simp
    then obtain es s' where "server_run es s1 = Some s'" "drain s' = DoneClosed" by blast
    then have "server_run (e # es) s = Some s'" using s1 by simp
    then show ?thesis using \<open>drain s' = DoneClosed\<close> by blast
  qed (meson server_run.simps(1))
qed

text \<open>C34: draining terminates: once every listener is closed and \<open>Drain\<close> has been called, no run of the
  server is longer than a bound fixed by the current state, in whatever order its goroutines are
  scheduled, the server never gets stuck before the drain is complete, and so the drain can always be
  completed.  A handler that returns is a step of the run.\<close>

theorem Drain_terminates:
  assumes "server_reachable n s" "list_all l_closed (loops s)" "drain s \<noteq> NotCalled"
  shows "(\<forall>es s'. server_run es s = Some s' \<longrightarrow> length es \<le> drain_work s
      \<and> (drain s' \<noteq> DoneClosed \<longrightarrow> (\<exists>e s''. server_step e s' = Some s'')))
    \<and> (\<exists>es s'. server_run es s = Some s' \<and> drain s' = DoneClosed)"
proof -
  have c: "closing s" using assms(2,3) by (simp add: closing_def)
  have step: "closing s' \<and> counts_ok s'" if "server_run es s = Some s'" for es s'
  proof -
    have "closing u \<Longrightarrow> server_run es u = Some s' \<Longrightarrow> closing s'" for u
      by (induction es u rule: server_run.induct) (auto split: option.splits dest: closing_step)
    then show ?thesis using that c server_reachable_ok server_run_reachable [OF that assms(1)] by blast
  qed
  have "length es \<le> drain_work s" if "server_run es s = Some s'" for es s'
    using closing_run [OF c that] by simp
  then show ?thesis using closing_progress step closing_finishes [OF assms(1) c] by metis
qed

text \<open>One slot, one connection served and one dropped, then a drain.\<close>

definition sample_route :: route where
  "sample_route = \<lparr>Listen = '':443'', Backend = ''10.0.0.2:443'', Port = 443\<rparr>"

definition sample_conn :: "nat \<Rightarrow> tcp_conn" where
  "sample_conn k = \<lparr>conn_id = k, remote = Some ''192.0.2.1:5000''\<rparr>"

definition sample_server :: "event list \<Rightarrow> server option" where
  "sample_server es = (case NewServer 1 True of Inl _ \<Rightarrow> None | Inr s \<Rightarrow> server_run es s)"

definition sample_load :: "event list" where
  "sample_load = [EvServe sample_route, EvAccept 0 (AcceptConn (sample_conn 1)), EvAcquire 0, EvSpawn 0,
     EvAccept 0 (AcceptConn (sample_conn 2)), EvAcquire 0, EvCloseListener 0, EvDrain 30]"

definition sample_shutdown :: "event list" where
  "sample_shutdown = [EvAccept 0 ErrClosed, EvLoopDone 0, EvWait, EvHandlerReturns 0, EvClose 0 CloseOK, EvRelease 0,
     EvTaskDone 0, EvWait, EvDrainReturns]"

lemma sample_server_reachable: "sample_server es = Some s \<Longrightarrow> server_reachable 1 s"
  by (auto simp: sample_server_def split: sum.splits intro: server_run_reachable server_reachable.start)

theorem server_safe_witness: "(case sample_server sample_load of None \<Rightarrow> False | Some s \<Rightarrow> int (handlers_running s) \<le> 1)"
proof -
  have "sample_server sample_load \<noteq> None" by code_simp
  then obtain s where s: "sample_server sample_load = Some s" by blast
  from server_safe [OF sample_server_reachable [OF s]] show ?thesis by (simp add: s)
qed

theorem Drain_complete_witness:
  "(case sample_server (sample_load @ sample_shutdown) of None \<Rightarrow> False
    | Some s \<Rightarrow> drained s = Some True \<and> set (accepted s) \<subseteq> set (closed s))"
proof -
  have "map_option drained (sample_server (sample_load @ sample_shutdown)) = Some (Some True)" by code_simp
  then obtain s where s: "sample_server (sample_load @ sample_shutdown) = Some s" "drained s = Some True" by auto
  from Drain_complete [OF sample_server_reachable [OF s(1)] s(2)] show ?thesis by (simp add: s)
qed

theorem Drain_terminates_witness:
  "(case sample_server sample_load of None \<Rightarrow> False | Some s \<Rightarrow> \<exists>es s'. server_run es s = Some s' \<and> drain s' = DoneClosed)"
proof -
  have "map_option (\<lambda>s. (list_all l_closed (loops s), drain s)) (sample_server sample_load) = Some (True, WaitAccepts)" by code_simp
  then obtain s where s: "sample_server sample_load = Some s" "list_all l_closed (loops s)" "drain s = WaitAccepts" by auto
  from Drain_terminates [OF sample_server_reachable [OF s(1)] s(2)] show ?thesis by (simp add: s)
qed

end
