(* ===== verification/Throttling.thy ===== *)
theory Throttling
  imports RateLimit
begin

text \<open>
  What the token buckets of \<open>RateLimit\<close> guarantee over histories of calls and sweeps: bounded memory, the
  limit on the calls granted to one source, and that eviction of idle buckets changes no answer.
\<close>

section \<open>Histories\<close>

datatype limiter_op = OpAllow string time | OpSweep time

fun op_time :: "limiter_op \<Rightarrow> time" where
  "op_time (OpAllow ip now) = now"
| "op_time (OpSweep now) = now"

text \<open>The answers of a sequence of calls, with the source of each, and the limiter it leaves.\<close>

fun limiter_run :: "limiter_op list \<Rightarrow> limiter \<Rightarrow> (string \<times> bool) list \<times> limiter" where
  "limiter_run [] l = ([], l)"
| "limiter_run (OpAllow ip now # ops) l =
     (let (ok, l1) = allow now ip l; (rs, l2) = limiter_run ops l1 in ((ip, ok) # rs, l2))"
| "limiter_run (OpSweep now # ops) l = limiter_run ops (sweep now l)"

definition granted :: "string \<Rightarrow> (string \<times> bool) list \<Rightarrow> nat" where
  "granted key rs = length (filter (\<lambda>(ip, ok). ok \<and> Key ip = key) rs)"

definition calls_for :: "string \<Rightarrow> (string \<times> bool) list \<Rightarrow> nat" where
  "calls_for key rs = length (filter (\<lambda>(ip, ok). Key ip = key) rs)"

lemma granted_simps [simp]:
  "granted key [] = 0" "calls_for key [] = 0"
  "granted key ((ip, ok) # rs) = (if ok \<and> Key ip = key then 1 else 0) + granted key rs"
  "calls_for key ((ip, ok) # rs) = (if Key ip = key then 1 else 0) + calls_for key rs"
  by (simp_all add: granted_def calls_for_def)

lemma limiter_run_ok:
  "limiter_ok now l \<Longrightarrow> sorted (now # map op_time ops) \<Longrightarrow>
     limiter_ok (last (now # map op_time ops)) (snd (limiter_run ops l))"
proof (induction ops l arbitrary: now rule: limiter_run.induct)
  case (2 ip t ops l)
  obtain ok l1 where a: "allow t ip l = (ok, l1)" by (cases "allow t ip l")
  have "limiter_ok t l1" using limiter_ok_allow [of now l t ip] 2(2,3) a by simp
  then have "limiter_ok (last (t # map op_time ops)) (snd (limiter_run ops l1))" using 2 a by auto
  then show ?case by (simp add: a case_prod_unfold Let_def)
next
  case (3 t ops l)
  then have "limiter_ok t (sweep t l)" using limiter_ok_sweep by simp
  then show ?case using 3(1) [of t] 3(3) by auto
qed simp

lemma limiter_run_params:
  "burst (snd (limiter_run ops l)) = burst l \<and> maxBuckets (snd (limiter_run ops l)) = maxBuckets l"
proof (induction ops l rule: limiter_run.induct)
  case (2 ip t ops l)
  have "burst (snd (allow t ip l)) = burst l \<and> maxBuckets (snd (allow t ip l)) = maxBuckets l"
    by (cases rule: allow_cases [of l ip t]) simp_all
  moreover obtain ok l1 where a: "allow t ip l = (ok, l1)" by (cases "allow t ip l")
  ultimately show ?case using 2 [OF a [symmetric] refl] by (simp add: a case_prod_unfold Let_def)
qed (simp_all add: sweep_def)

text \<open>C31: the limiter's memory and its counters stay within bounds: after any sequence of calls and sweeps in the
  order of the clock, the map has one bucket per key, at most \<open>DefaultMaxBuckets\<close> of them, and every
  bucket holds between zero and \<open>burst\<close> tokens, despite rounding.\<close>

theorem limiter_bounded:
  assumes "rnd64 b = b" "0 \<le> b" "0 \<le> r" "sorted (map op_time ops)"
  shows "distinct (map fst (buckets (snd (limiter_run ops (Limiter_New r b d)))))
    \<and> int (length (buckets (snd (limiter_run ops (Limiter_New r b d))))) \<le> DefaultMaxBuckets
    \<and> (\<forall>(k, c)\<in>set (buckets (snd (limiter_run ops (Limiter_New r b d)))). 0 \<le> tokens c \<and> tokens c \<le> b)"
proof -
  define now where "now = (if ops = [] then 0 else op_time (hd ops))"
  have "limiter_ok now (Limiter_New r b d)"
    using assms by (simp add: limiter_ok_def Limiter_New_def map_ok_def DefaultMaxBuckets_def)
  moreover have "sorted (now # map op_time ops)" using assms(4) by (cases ops) (auto simp: now_def)
  ultimately have ok: "limiter_ok (last (now # map op_time ops)) (snd (limiter_run ops (Limiter_New r b d)))"
    by (rule limiter_run_ok)
  have "distinct (map fst m)" if "map_ok m" for m :: "(string \<times> bucket) list"
    using that by (simp add: map_ok_def strict_sorted_iff)
  moreover note limiter_run_params [of ops "Limiter_New r b d"]
  ultimately show ?thesis using ok
    by (auto simp: limiter_ok_def bucket_ok_def Limiter_New_def DefaultMaxBuckets_def)
qed

section \<open>The rate\<close>

text \<open>The rate with the error of the four roundings of a refill.\<close>

definition rounded_rate :: "limiter \<Rightarrow> rat" where
  "rounded_rate l = rate l * (1 + ulp) ^ 4"

text \<open>The tokens a key could spend at a time, in exact arithmetic.\<close>

definition level :: "limiter \<Rightarrow> time \<Rightarrow> string \<Rightarrow> rat" where
  "level l now key =
     (case map_of (buckets l) key of
        None \<Rightarrow> burst l
      | Some b \<Rightarrow> min (burst l) (tokens b + of_int (now - b_last b) / 1000000000 * rounded_rate l))"

definition ttl_covers :: "limiter \<Rightarrow> bool" where
  "ttl_covers l \<longleftrightarrow> 0 \<le> ttl l \<and> ttl l < 9223372036854775808 \<and> burst l \<le> fmul (Seconds (ttl l)) (rate l)"

lemma rounded_rate_nonneg: "0 \<le> rate l \<Longrightarrow> 0 \<le> rounded_rate l"
  using ulp_pos by (simp add: rounded_rate_def)

lemma income_rate:
  assumes "0 \<le> d" "d < 9223372036854775808" "0 \<le> rate l"
  shows "rnd64 (Seconds d * rate l) * (1 + ulp) \<le> of_int d / 1000000000 * rounded_rate l"
proof -
  have "Seconds d * rate l \<le> of_int d / 1000000000 * (1 + ulp) ^ 2 * rate l"
    using Seconds_error [OF assms(1,2)] assms(3) by (rule mult_right_mono)
  then have "rnd64 (Seconds d * rate l) \<le> of_int d / 1000000000 * (1 + ulp) ^ 2 * rate l * (1 + ulp)"
    using Seconds_nonneg [OF assms(1,2)] assms(3) by (intro err) auto
  then have "rnd64 (Seconds d * rate l) * (1 + ulp) \<le> of_int d / 1000000000 * (1 + ulp) ^ 2 * rate l * (1 + ulp) * (1 + ulp)"
    using ulp_pos by (intro mult_right_mono) auto
  then show ?thesis by (simp add: rounded_rate_def power2_eq_square power4_eq_xxxx mult.assoc mult.left_commute)
qed

lemma min_shift: "0 \<le> y \<Longrightarrow> min c (t + (x + y)) \<le> min c (t + x) + y" for c t x y :: rat
  by (simp add: min_def)

lemma level_time:
  assumes "limiter_ok now l" "now \<le> now'"
  shows "level l now' key \<le> level l now key + of_int (now' - now) / 1000000000 * rounded_rate l"
proof (cases "map_of (buckets l) key")
  case (Some b)
  have "0 \<le> of_int (now' - now) / 1000000000 * rounded_rate l"
    using assms rounded_rate_nonneg by (simp add: limiter_ok_def)
  moreover have "of_int (now' - b_last b) / 1000000000 * rounded_rate l =
      of_int (now - b_last b) / 1000000000 * rounded_rate l + of_int (now' - now) / 1000000000 * rounded_rate l"
    by (simp add: field_simps)
  ultimately show ?thesis unfolding level_def Some option.case by (metis min_shift)
qed (use assms rounded_rate_nonneg in \<open>simp add: level_def limiter_ok_def\<close>)

lemma level_bounds: "limiter_ok now l \<Longrightarrow> 0 \<le> level l now key \<and> level l now key \<le> burst l"
proof (cases "map_of (buckets l) key")
  case (Some b)
  assume l: "limiter_ok now l"
  then have "bucket_ok l now b" using map_of_SomeD [OF Some] by (auto simp: limiter_ok_def)
  then have "0 \<le> tokens b + of_int (now - b_last b) / 1000000000 * rounded_rate l"
    using l rounded_rate_nonneg by (simp add: bucket_ok_def limiter_ok_def)
  then show ?thesis using l by (simp add: level_def Some limiter_ok_def)
qed (simp add: level_def limiter_ok_def)

lemma current_level:
  assumes "limiter_ok now l"
  shows "tokens (current l now key) \<le> level l now key + ulp * burst l"
proof (cases "map_of (buckets l) key")
  case None
  then show ?thesis using assms ulp_pos by (simp add: current_def level_def limiter_ok_def)
next
  case (Some b)
  then have b: "bucket_ok l now b" using assms map_of_SomeD [OF Some] by (auto simp: limiter_ok_def)
  have rate: "0 \<le> rate l" "0 \<le> burst l" using assms by (simp_all add: limiter_ok_def)
  note e = elapsed_range [of b now]
  have "(tokens b + income l now b) * (1 + ulp) = tokens b + ulp * tokens b + income l now b * (1 + ulp)"
    by (simp add: algebra_simps)
  moreover have "rnd64 (tokens b + income l now b) \<le> (tokens b + income l now b) * (1 + ulp)"
    using b rate income_nonneg by (intro err) (auto simp: bucket_ok_def)
  moreover have "ulp * tokens b \<le> ulp * burst l" using b ulp_pos by (intro mult_left_mono) (auto simp: bucket_ok_def)
  moreover have "income l now b * (1 + ulp) \<le> of_int (elapsed now b) / 1000000000 * rounded_rate l"
    using e b rate income_rate by (simp add: income_def bucket_ok_def)
  moreover have "of_int (elapsed now b) / 1000000000 * rounded_rate l \<le> of_int (now - b_last b) / 1000000000 * rounded_rate l"
    using e b rounded_rate_nonneg [OF rate(1)] by (intro mult_right_mono divide_right_mono) (auto simp: bucket_ok_def simp del: of_int_diff)
  ultimately have "rnd64 (tokens b + income l now b) \<le> tokens b + of_int (now - b_last b) / 1000000000 * rounded_rate l + ulp * burst l"
    by linarith
  moreover have "0 \<le> ulp * burst l" using ulp_pos rate(2) by simp
  ultimately show ?thesis by (simp add: current_def Some refill_tokens level_def min_def)
qed

lemma spent_tokens:
  assumes "bucket_ok l now b"
  shows "tokens (spent b) + of_bool (1 \<le> tokens b) \<le> tokens b + ulp * burst l"
proof (cases "1 \<le> tokens b")
  case True
  have "rnd64 (tokens b - 1) \<le> (tokens b - 1) * (1 + ulp)" using True by (intro err) auto
  moreover have "ulp * (tokens b - 1) \<le> ulp * burst l" using assms ulp_pos by (intro mult_left_mono) (auto simp: bucket_ok_def)
  ultimately show ?thesis using True by (simp add: spent_def fsub_def algebra_simps)
next
  case False
  moreover have "0 \<le> ulp * burst l" using assms ulp_pos by (simp add: bucket_ok_def)
  ultimately show ?thesis by (simp add: spent_def)
qed

lemma level_put:
  assumes "map_ok (buckets l)" "0 \<le> rate l"
  shows "level (l\<lparr>buckets := map_put k b (buckets l)\<rparr>) now key =
    (if key = k then min (burst l) (tokens b + of_int (now - b_last b) / 1000000000 * rounded_rate l) else level l now key)"
  using assms by (simp add: level_def rounded_rate_def split: option.split)

lemma last_current: "b_last (spent (current l now key)) = now"
  by (simp add: spent_def current_def refill_def Let_def split: option.splits)

lemma level_allow:
  assumes "limiter_ok now l" "\<not> bucket_full l"
  shows "level (snd (allow now ip l)) now key + (if fst (allow now ip l) \<and> Key ip = key then 1 else 0)
    \<le> level l now key + (if Key ip = key then 2 * ulp * burst l else 0)"
proof (cases rule: allow_cases [of l ip now])
  case tracked
  have l: "map_ok (buckets l)" "0 \<le> rate l" using assms(1) by (simp_all add: limiter_ok_def)
  have "tokens (spent (current l now (Key ip))) + of_bool (1 \<le> tokens (current l now (Key ip))) \<le> level l now (Key ip) + 2 * ulp * burst l"
  proof -
    have "2 * ulp * burst l = ulp * burst l + ulp * burst l" by simp
    then show ?thesis
      using spent_tokens [OF current_ok [OF assms(1) order_refl], of "Key ip"] current_level [OF assms(1), of "Key ip"] by linarith
  qed
  then show ?thesis using tracked(2) by (auto simp: level_put [OF l] last_current of_bool_def min_def)
qed (use assms(2) in simp)

lemma map_of_filter_distinct:
  "distinct (map fst xs) \<Longrightarrow> map_of xs k = Some v \<Longrightarrow> map_of (filter P xs) k = (if P (k, v) then Some v else None)"
proof (induction xs)
  case (Cons x xs)
  have "k \<notin> fst ` set xs \<Longrightarrow> map_of (filter P xs) k = None" by (auto simp: map_of_eq_None_iff)
  then show ?case using Cons by (cases x) (auto split: if_splits)
qed simp

lemma level_sweep:
  assumes "limiter_ok now l" "ttl_covers l"
  shows "level (sweep now l) now key \<le> level l now key"
proof (cases "map_of (buckets l) key")
  case None
  then have "map_of (filter P (buckets l)) key = None" for P by (auto simp: map_of_eq_None_iff)
  then show ?thesis using None by (simp add: level_def sweep_def)
next
  case (Some b)
  let ?P = "\<lambda>(key :: string, b). \<not> b_last b < now + neg64 (ttl l)"
  have dist: "distinct (map fst (buckets l))" using assms(1) by (simp add: limiter_ok_def map_ok_def strict_sorted_iff)
  then have kept: "map_of (filter ?P (buckets l)) key = (if ?P (key, b) then Some b else None)"
    using Some by (rule map_of_filter_distinct)
  show ?thesis
  proof (cases "?P (key, b)")
    case True
    then show ?thesis using kept Some by (simp add: level_def sweep_def rounded_rate_def)
  next
    case False
    have rate: "0 \<le> rate l" using assms(1) by (simp add: limiter_ok_def)
    have t: "0 \<le> ttl l" "ttl l < 9223372036854775808" "burst l \<le> fmul (Seconds (ttl l)) (rate l)"
      using assms(2) by (simp_all add: ttl_covers_def)
    have "neg64 (ttl l) = - ttl l" using t(1) by (simp add: neg64_def)
    then have old: "ttl l \<le> now - b_last b" using False by simp
    have "fmul (Seconds (ttl l)) (rate l) \<le> rnd64 (Seconds (ttl l) * rate l) * (1 + ulp)"
      using f64.nonneg Seconds_nonneg [OF t(1,2)] rate ulp_pos by (simp add: fmul_def distrib_left)
    also have "\<dots> \<le> of_int (ttl l) / 1000000000 * rounded_rate l" by (rule income_rate [OF t(1,2) rate])
    also have "\<dots> \<le> of_int (now - b_last b) / 1000000000 * rounded_rate l"
      using old rounded_rate_nonneg [OF rate] by (intro mult_right_mono divide_right_mono) (auto simp del: of_int_diff)
    finally have "burst l \<le> tokens b + of_int (now - b_last b) / 1000000000 * rounded_rate l"
      using t(3) assms(1) map_of_SomeD [OF Some] by (fastforce simp: limiter_ok_def bucket_ok_def)
    then show ?thesis using kept False Some by (simp add: level_def sweep_def)
  qed
qed


section \<open>Traffic\<close>

lemma length_allow: "limiter_ok now l \<Longrightarrow> length (buckets (snd (allow t ip l))) \<le> length (buckets l) + 1"
  by (cases rule: allow_cases [of l ip t]) (simp_all add: length_map_put limiter_ok_def)

lemma length_sweep: "length (buckets (sweep t l)) \<le> length (buckets l)"
  by (simp add: sweep_def)

lemma maxBuckets_sweep: "maxBuckets (sweep t l) = maxBuckets l"
  by (simp add: sweep_def)

definition room :: "nat \<Rightarrow> limiter \<Rightarrow> bool" where
  "room n l \<longleftrightarrow> maxBuckets l \<le> 0 \<or> int (length (buckets l) + n) \<le> maxBuckets l"

lemma room_step:
  "room (Suc n) l \<Longrightarrow> \<not> bucket_full l"
  "room (Suc n) l \<Longrightarrow> limiter_ok now l \<Longrightarrow> room n (snd (allow t ip l))"
  "room (Suc n) l \<Longrightarrow> room n (sweep t l)"
proof -
  have same: "maxBuckets (snd (allow t ip l)) = maxBuckets l" by (cases rule: allow_cases [of l ip t]) simp_all
  show "room (Suc n) l \<Longrightarrow> \<not> bucket_full l" by (auto simp: room_def bucket_full_def)
  show "room (Suc n) l \<Longrightarrow> limiter_ok now l \<Longrightarrow> room n (snd (allow t ip l))"
    using same length_allow [of now l t ip] by (auto simp: room_def)
  show "room (Suc n) l \<Longrightarrow> room n (sweep t l)" using length_sweep [of t l] maxBuckets_sweep [of t l] by (auto simp: room_def)
qed

lemma allow_params:
  "burst (snd (allow t ip l)) = burst l" "rate (snd (allow t ip l)) = rate l" "ttl (snd (allow t ip l)) = ttl l"
  by (cases rule: allow_cases [of l ip t]; simp)+

lemma allowance_step:
  fixes r c :: rat
  assumes "g \<le> lv1 + of_int (e - t) / 1000000000 * r + c * n" "lv1 + a \<le> lv + c * m"
    "lv \<le> lv0 + of_int (t - now) / 1000000000 * r"
  shows "a + g \<le> lv0 + of_int (e - now) / 1000000000 * r + c * (m + n)"
proof -
  have "of_int (e - now) / 1000000000 * r = of_int (e - t) / 1000000000 * r + of_int (t - now) / 1000000000 * r"
    by (simp add: field_simps)
  moreover have "c * (m + n) = c * m + c * n" by (rule distrib_left)
  ultimately show ?thesis using assms by linarith
qed

lemma covers_kept: "ttl_covers l \<Longrightarrow> ttl_covers (snd (allow t ip l))" "ttl_covers l \<Longrightarrow> ttl_covers (sweep t l)"
  "rounded_rate (snd (allow t ip l)) = rounded_rate l" "rounded_rate (sweep t l) = rounded_rate l" "burst (sweep t l) = burst l"
  by (simp_all add: ttl_covers_def rounded_rate_def sweep_def allow_params)

lemma granted_level:
  assumes "limiter_ok now l" "ttl_covers l" "room (length ops) l" "sorted (now # map op_time ops)"
  shows "of_nat (granted key (fst (limiter_run ops l))) \<le> level l now key
    + of_int (last (now # map op_time ops) - now) / 1000000000 * rounded_rate l
    + 2 * ulp * burst l * of_nat (calls_for key (fst (limiter_run ops l)))"
  using assms
proof (induction ops l arbitrary: now rule: limiter_run.induct)
  case (1 l)
  then show ?case using level_bounds by simp
next
  case (2 ip t ops l)
  obtain ok l1 where a: "allow t ip l = (ok, l1)" by (cases "allow t ip l")
  obtain rs l2 where r: "limiter_run ops l1 = (rs, l2)" by (cases "limiter_run ops l1")
  have t: "now \<le> t" "sorted (t # map op_time ops)" using 2(5) by simp_all
  have "limiter_ok t l1" "ttl_covers l1" "room (length ops) l1"
    using limiter_ok_allow [OF 2(2) t(1), of ip] covers_kept(1) [OF 2(3), of t ip] room_step(2) [OF _ 2(2), of "length ops" t ip] 2(4) a
    by simp_all
  from 2(1) [OF a [symmetric] refl this t(2)]
  have ih: "of_nat (granted key rs) \<le> level l1 t key + of_int (last (t # map op_time ops) - t) / 1000000000 * rounded_rate l
      + 2 * ulp * burst l * of_nat (calls_for key rs)"
    using covers_kept(3) [of t ip l] allow_params(1) [of t ip l] a r by simp
  have st: "level l1 t key + (if ok \<and> Key ip = key then 1 else 0) \<le> level l t key + 2 * ulp * burst l * (if Key ip = key then 1 else 0)"
    using level_allow [OF limiter_ok_later [OF 2(2) t(1)] room_step(1), of "length ops" ip key] 2(4) a by (auto split: if_splits)
  have "fst (limiter_run (OpAllow ip t # ops) l) = (ip, ok) # rs" by (simp add: a r)
  moreover have "last (now # map op_time (OpAllow ip t # ops)) = last (t # map op_time ops)" by simp
  moreover have "(of_nat (granted key ((ip, ok) # rs)) :: rat) = (if ok \<and> Key ip = key then 1 else 0) + of_nat (granted key rs)"
    "(of_nat (calls_for key ((ip, ok) # rs)) :: rat) = (if Key ip = key then 1 else 0) + of_nat (calls_for key rs)" by simp_all
  ultimately show ?case using allowance_step [OF ih st level_time [OF 2(2) t(1), of key]] by (simp only:)
next
  case (3 t ops l)
  have t: "now \<le> t" "sorted (t # map op_time ops)" using 3(5) by simp_all
  have "limiter_ok t (sweep t l)" "room (length ops) (sweep t l)"
    using limiter_ok_sweep [OF 3(2) t(1)] room_step(3) [of "length ops" l t] 3(4) by simp_all
  from 3(1) [OF this(1) covers_kept(2) [OF 3(3)] this(2) t(2)]
  have ih: "of_nat (granted key (fst (limiter_run ops (sweep t l)))) \<le> level (sweep t l) t key
      + of_int (last (t # map op_time ops) - t) / 1000000000 * rounded_rate l
      + 2 * ulp * burst l * of_nat (calls_for key (fst (limiter_run ops (sweep t l))))"
    by (simp add: covers_kept)
  have st: "level (sweep t l) t key + 0 \<le> level l t key + 2 * ulp * burst l * 0"
    using level_sweep [OF limiter_ok_later [OF 3(2) t(1)] 3(3)] by simp
  show ?case using allowance_step [OF ih st level_time [OF 3(2) t(1), of key]] by simp
qed


section \<open>Sweeping\<close>

lemma current_sweep:
  assumes "limiter_ok now l" "ttl_covers l" "now \<le> now'"
  shows "current (sweep now l) now' key = current l now' key"
proof (cases "map_of (buckets l) key")
  case None
  then have "map_of (filter P (buckets l)) key = None" for P by (auto simp: map_of_eq_None_iff)
  then show ?thesis using None by (simp add: current_def sweep_def)
next
  case (Some b)
  let ?P = "\<lambda>(key :: string, b). \<not> b_last b < now + neg64 (ttl l)"
  have "distinct (map fst (buckets l))" using assms(1) by (simp add: limiter_ok_def map_ok_def strict_sorted_iff)
  then have kept: "map_of (filter ?P (buckets l)) key = (if ?P (key, b) then Some b else None)"
    using Some by (rule map_of_filter_distinct)
  have b: "bucket_ok l now b" using assms(1) map_of_SomeD [OF Some] by (auto simp: limiter_ok_def)
  have l: "rnd64 (burst l) = burst l" "0 \<le> rate l" using assms(1) by (simp_all add: limiter_ok_def)
  have t: "0 \<le> ttl l" "ttl l < 9223372036854775808" "burst l \<le> rnd64 (Seconds (ttl l) * rate l)"
    using assms(2) by (simp_all add: ttl_covers_def fmul_def)
  show ?thesis
  proof (cases "?P (key, b)")
    case True
    then show ?thesis using kept Some by (simp add: current_def sweep_def refill_def Let_def)
  next
    case False
    have "ttl l \<le> elapsed now' b" using False t(1,2) assms(3) by (simp add: neg64_def elapsed_def time_Sub_def)
    moreover have "elapsed now' b < 9223372036854775808" using elapsed_range [of b now'] b assms(3) by (simp add: bucket_ok_def)
    ultimately have "Seconds (ttl l) * rate l \<le> Seconds (elapsed now' b) * rate l"
      using Seconds_mono t(1) l(2) by (intro mult_right_mono) auto
    then have "burst l \<le> income l now' b" using t(3) f64.mono unfolding income_def by (meson order_trans)
    then have "burst l \<le> rnd64 (tokens b + income l now' b)" using b by (intro f64.above [OF l(1)]) (simp add: bucket_ok_def)
    then have "tokens (refill l now' b) = burst l" by (simp add: refill_tokens min_def)
    moreover have "b_last (refill l now' b) = now'" by (simp add: refill_def Let_def)
    ultimately show ?thesis using kept False Some by (simp add: current_def sweep_def)
  qed
qed

text \<open>Two limiters that no call from a time on can tell apart.\<close>

definition alike :: "time \<Rightarrow> limiter \<Rightarrow> limiter \<Rightarrow> bool" where
  "alike now l l' \<longleftrightarrow> rate l = rate l' \<and> burst l = burst l' \<and> ttl l = ttl l'
     \<and> (\<forall>t key. now \<le> t \<longrightarrow> current l t key = current l' t key)"

lemma alike_allow:
  assumes "alike now l l'" "now \<le> t" "map_ok (buckets l)" "map_ok (buckets l')" "\<not> bucket_full l" "\<not> bucket_full l'"
  shows "fst (allow t ip l) = fst (allow t ip l')" "alike t (snd (allow t ip l)) (snd (allow t ip l'))"
proof -
  let ?b = "current l t (Key ip)"
  have same: "current l' t (Key ip) = ?b" using assms(1,2) by (simp add: alike_def)
  have run: "allow t ip l = (1 \<le> tokens ?b, l\<lparr>buckets := map_put (Key ip) (spent ?b) (buckets l)\<rparr>)"
    "allow t ip l' = (1 \<le> tokens ?b, l'\<lparr>buckets := map_put (Key ip) (spent ?b) (buckets l')\<rparr>)"
    using assms(5,6) same by (cases rule: allow_cases [of l ip t]; cases rule: allow_cases [of l' ip t]; simp)+
  then show "fst (allow t ip l) = fst (allow t ip l')" by simp
  have refill: "refill l u b = refill l' u b" for u b using assms(1) by (simp add: alike_def refill_def Let_def)
  have put: "current (m\<lparr>buckets := map_put (Key ip) c (buckets m)\<rparr>) u key = (if key = Key ip then refill m u c else current m u key)"
    if "map_ok (buckets m)" for m u c key
    using that by (simp add: current_def refill_def Let_def split: option.split)
  show "alike t (snd (allow t ip l)) (snd (allow t ip l'))"
    using assms(1-4) refill by (simp add: alike_def run put)
qed

definition is_sweep :: "limiter_op \<Rightarrow> bool" where
  "is_sweep op = (case op of OpSweep _ \<Rightarrow> True | _ \<Rightarrow> False)"

lemma sweeps_unseen:
  assumes "alike now l l'" "limiter_ok now l" "limiter_ok now l'" "ttl_covers l" "room (length ops) l" "room (length ops) l'"
    "sorted (now # map op_time ops)"
  shows "fst (limiter_run ops l) = fst (limiter_run (filter (\<lambda>op. \<not> is_sweep op) ops) l')"
  using assms
proof (induction ops l arbitrary: now l' rule: limiter_run.induct)
  case (2 ip t ops l)
  obtain ok l1 where a: "allow t ip l = (ok, l1)" by (cases "allow t ip l")
  obtain ok' l1' where a': "allow t ip l' = (ok', l1')" by (cases "allow t ip l'")
  have t: "now \<le> t" "sorted (t # map op_time ops)" using 2(8) by simp_all
  have full: "\<not> bucket_full l" "\<not> bucket_full l'" using room_step(1) 2(6,7) by simp_all
  have ok: "map_ok (buckets l)" "map_ok (buckets l')" using 2(3,4) by (simp_all add: limiter_ok_def)
  have alike: "ok = ok'" "alike t l1 l1'" using alike_allow [OF 2(2) t(1) ok full, of ip] a a' by simp_all
  have "limiter_ok t l1" "limiter_ok t l1'" "ttl_covers l1" "room (length ops) l1" "room (length ops) l1'"
    using limiter_ok_allow [OF 2(3) t(1), of ip] limiter_ok_allow [OF 2(4) t(1), of ip] covers_kept(1) [OF 2(5), of t ip]
      room_step(2) [OF _ 2(3), of "length ops" t ip] room_step(2) [OF _ 2(4), of "length ops" t ip] 2(6,7) a a' by simp_all
  from 2(1) [OF a [symmetric] refl alike(2) this t(2)] show ?case
    using a a' alike(1) by (simp add: is_sweep_def case_prod_unfold Let_def)
next
  case (3 t ops l)
  have t: "now \<le> t" "sorted (t # map op_time ops)" using 3(8) by simp_all
  have "alike t (sweep t l) l'"
    using 3(2) t(1) current_sweep [OF limiter_ok_later [OF 3(3) t(1)] 3(5)] by (simp add: alike_def) (simp add: sweep_def)
  moreover have "room (length ops) (sweep t l)" "room (length ops) l'" using room_step(3) [of "length ops" l t] 3(6,7)
    by (auto simp: room_def)
  ultimately show ?case
    using 3(1) [of t l'] limiter_ok_sweep [OF 3(3) t(1)] limiter_ok_later [OF 3(4) t(1)] covers_kept(2) [OF 3(5)] t(2)
    by (simp add: is_sweep_def)
qed simp


text \<open>Sources are isolated and a limiter that is absent lets everything through: a call reads and writes
  only the bucket of its own key, and a call whose bucket holds less than one token is refused.\<close>

theorem Allow_isolated:
  assumes "limiter_ok now l" "now \<le> t" "key \<noteq> Key ip"
  shows "map_of (buckets (snd (allow t ip l))) key = map_of (buckets l) key
    \<and> Allow t ip (Some l) = apsnd Some (allow t ip l) \<and> Allow t ip None = (True, None)
    \<and> (tokens (current l t (Key ip)) < 1 \<and> map_of (buckets l) (Key ip) \<noteq> None \<longrightarrow> \<not> fst (allow t ip l))"
  using assms by (cases rule: allow_cases [of l ip t]) (auto simp: limiter_ok_def Allow_def)

text \<open>One token per second, three at most, idle buckets kept for a minute.\<close>

definition sample_limiter :: limiter where
  "sample_limiter = Limiter_New 1 3 60000000000"

definition sample_calls :: "limiter_op list" where
  "sample_calls = [OpAllow ''192.0.2.1'' 5, OpAllow ''192.0.2.1'' 5, OpAllow ''2001:db8::1'' 7, OpSweep 70000000000, OpAllow ''192.0.2.1'' 70000000000]"

lemma sample_limiter_ok:
  "limiter_ok 0 sample_limiter" "ttl_covers sample_limiter" "room (length sample_calls) sample_limiter"
  "sorted (0 # map op_time sample_calls)"
proof -
  have "rnd64 3 = 3" "rnd64 60 = 60" using f64.exact_int [of 3] f64.exact_int [of 60] by simp_all
  then show "limiter_ok 0 sample_limiter" "ttl_covers sample_limiter"
    by (simp_all add: sample_limiter_def limiter_ok_def ttl_covers_def Limiter_New_def map_ok_def fmul_def Seconds_parts f64.zero)
qed (simp_all add: sample_limiter_def Limiter_New_def room_def DefaultMaxBuckets_def sample_calls_def)

theorem limiter_bounded_witness:
  "int (length (buckets (snd (limiter_run sample_calls (Limiter_New 1 3 60000000000))))) \<le> DefaultMaxBuckets"
proof -
  have "rnd64 3 = 3" using f64.exact_int [of 3] by simp
  then show ?thesis using limiter_bounded [of 3 1 sample_calls 60000000000] sample_limiter_ok(4) by simp
qed



theorem Allow_isolated_witness:
  "map_of (buckets (snd (allow 5 ''192.0.2.1'' sample_limiter))) ''192.0.2.2'' = None"
proof -
  have "''192.0.2.2'' \<noteq> Key ''192.0.2.1''" by code_simp
  moreover have "map_of (buckets sample_limiter) ''192.0.2.2'' = None" by (simp add: sample_limiter_def Limiter_New_def)
  ultimately show ?thesis using Allow_isolated [OF sample_limiter_ok(1), of 5 "''192.0.2.2''" "''192.0.2.1''"] by simp
qed

end
