(* ===== verification/Lifecycle.thy ===== *)
theory Lifecycle
  imports Prelude
begin

text \<open>
  The signal loop of \<open>src/lifecycle/lifecycle.go\<close>.  Signals arrive on a channel of capacity one;
  \<open>os/signal\<close> never blocks, so a signal that finds the channel full is dropped.  The upgrader is a
  library; the model keeps what its documentation says of it: \<open>Exit\<close> is closed by \<open>Stop\<close> and by a
  successful \<open>Upgrade\<close>.  An event executes one statement of the signal loop or of \<open>Close\<close>, or delivers a
  signal; the outcome of an upgrade is part of its event.
\<close>

section \<open>The manager\<close>

datatype sig = SIGHUP | SIGTERM | SIGINT

datatype watch_pc = Watching | Upgrading | Storing | Stopping | WatchReturned

datatype close_pc = CloseIdle | StopNotify | CloseDone | StopUpgrader | CloseReturned

record manager =
  signals :: "sig list"
  notified :: bool
  done_closed :: bool
  terminating :: bool
  watch :: watch_pc
  closing_pc :: close_pc
  exit_closed :: bool
  upgraded :: bool
  m_logf :: bool
  m_log :: "(string \<times> string list) list"

text \<open>\<open>New\<close>; the argument says how creating the upgrader fails, if it does.\<close>

definition Manager_New :: "error option \<Rightarrow> bool \<Rightarrow> manager result" where
  "Manager_New upgrader_err logf =
     (case upgrader_err of
        Some e \<Rightarrow> Inl e
      | None \<Rightarrow> Inr \<lparr>signals = [], notified = True, done_closed = False, terminating = False, watch = Watching,
          closing_pc = CloseIdle, exit_closed = False, upgraded = False, m_logf = logf, m_log = []\<rparr>)"

definition Terminating :: "manager \<Rightarrow> bool" where
  "Terminating m = terminating m"

text \<open>\<open>Wait\<close> returns in the states in which \<open>Exit\<close> is closed.\<close>

definition Wait_returns :: "manager \<Rightarrow> bool" where
  "Wait_returns m = exit_closed m"

definition mlog :: "string \<Rightarrow> string list \<Rightarrow> manager \<Rightarrow> manager" where
  "mlog format args m = (if m_logf m then m\<lparr>m_log := m_log m @ [(format, args)]\<rparr> else m)"

fun sig_text :: "sig \<Rightarrow> string" where
  "sig_text SIGHUP = ''hangup''"
| "sig_text SIGTERM = ''terminated''"
| "sig_text SIGINT = ''interrupt''"

definition deliver :: "sig \<Rightarrow> manager \<Rightarrow> manager" where
  "deliver s m = (if notified m \<and> length (signals m) < 1 then m\<lparr>signals := signals m @ [s]\<rparr> else m)"

section \<open>The signal loop\<close>

text \<open>The two cases of the \<open>select\<close>; when both channels are ready either may be taken.\<close>

definition watch_done :: "manager \<Rightarrow> manager option" where
  "watch_done m = (if watch m = Watching \<and> done_closed m then Some (m\<lparr>watch := WatchReturned\<rparr>) else None)"

definition watch_signal :: "manager \<Rightarrow> manager option" where
  "watch_signal m =
     (if watch m \<noteq> Watching then None
      else case signals m of
             [] \<Rightarrow> None
           | s # rest \<Rightarrow>
               if s = SIGHUP then Some (mlog ''SIGHUP: starting upgrade'' [] (m\<lparr>signals := rest, watch := Upgrading\<rparr>))
               else Some (mlog ''%s: shutting down'' [sig_text s] (m\<lparr>signals := rest, watch := Storing\<rparr>)))"

definition upgrade_returns :: "string option \<Rightarrow> manager \<Rightarrow> manager option" where
  "upgrade_returns failure m =
     (if watch m \<noteq> Upgrading then None
      else case failure of
             None \<Rightarrow> Some (m\<lparr>watch := Watching, exit_closed := True, upgraded := True\<rparr>)
           | Some e \<Rightarrow> Some (mlog ''upgrade failed: %v'' [e] (m\<lparr>watch := Watching\<rparr>)))"

definition store_terminating :: "manager \<Rightarrow> manager option" where
  "store_terminating m = (if watch m = Storing then Some (m\<lparr>terminating := True, watch := Stopping\<rparr>) else None)"

definition watch_stop :: "manager \<Rightarrow> manager option" where
  "watch_stop m = (if watch m = Stopping then Some (m\<lparr>exit_closed := True, watch := WatchReturned\<rparr>) else None)"

section \<open>Close\<close>

text \<open>\<open>closeOnce\<close> runs its function for the first call only; later calls change nothing.\<close>

definition Manager_Close :: "manager \<Rightarrow> manager" where
  "Manager_Close m = (if closing_pc m = CloseIdle then m\<lparr>closing_pc := StopNotify\<rparr> else m)"

definition close_step :: "manager \<Rightarrow> manager result option" where
  "close_step m =
     (case closing_pc m of
        StopNotify \<Rightarrow> Some (Inr (m\<lparr>notified := False, closing_pc := CloseDone\<rparr>))
      | CloseDone \<Rightarrow>
          if done_closed m then Some (Inl (Panic ''close of closed channel''))
          else Some (Inr (m\<lparr>done_closed := True, closing_pc := StopUpgrader\<rparr>))
      | StopUpgrader \<Rightarrow> Some (Inr (m\<lparr>exit_closed := True, closing_pc := CloseReturned\<rparr>))
      | _ \<Rightarrow> None)"

section \<open>Runs\<close>

datatype life_event =
    LDeliver sig
  | LDone
  | LSignal
  | LUpgraded "string option"
  | LStore
  | LStop
  | LClose
  | LCloseStep

fun life_step :: "life_event \<Rightarrow> manager \<Rightarrow> manager result option" where
  "life_step (LDeliver s) m = Some (Inr (deliver s m))"
| "life_step LDone m = map_option Inr (watch_done m)"
| "life_step LSignal m = map_option Inr (watch_signal m)"
| "life_step (LUpgraded failure) m = map_option Inr (upgrade_returns failure m)"
| "life_step LStore m = map_option Inr (store_terminating m)"
| "life_step LStop m = map_option Inr (watch_stop m)"
| "life_step LClose m = Some (Inr (Manager_Close m))"
| "life_step LCloseStep m = close_step m"

text \<open>A run with the signals delivered so far, latest first.\<close>

inductive life_reachable :: "sig list \<Rightarrow> manager \<Rightarrow> bool" where
  start: "Manager_New None logf = Inr m \<Longrightarrow> life_reachable [] m"
| step: "life_reachable sent m \<Longrightarrow> life_step e m = Some (Inr m') \<Longrightarrow>
    life_reachable (case e of LDeliver s \<Rightarrow> s # sent | _ \<Rightarrow> sent) m'"

fun life_run :: "life_event list \<Rightarrow> manager \<Rightarrow> manager result option" where
  "life_run [] m = Some (Inr m)"
| "life_run (e # es) m =
     (case life_step e m of None \<Rightarrow> None | Some (Inl err) \<Rightarrow> Some (Inl err) | Some (Inr m') \<Rightarrow> life_run es m')"

text \<open>Every signal in the system was sent, and the flags follow from signals.\<close>

definition sent_ok :: "sig list \<Rightarrow> manager \<Rightarrow> bool" where
  "sent_ok sent m \<longleftrightarrow> set (signals m) \<subseteq> set sent
     \<and> (watch m \<in> {Storing, Stopping} \<or> terminating m \<longrightarrow> SIGTERM \<in> set sent \<or> SIGINT \<in> set sent)
     \<and> (watch m = Upgrading \<or> upgraded m \<longrightarrow> SIGHUP \<in> set sent)"

text \<open>How the program counters, the flags and the channels go together.\<close>

definition flags_ok :: "manager \<Rightarrow> bool" where
  "flags_ok m \<longleftrightarrow> (watch m = Stopping \<longrightarrow> terminating m) \<and> (terminating m \<longrightarrow> watch m \<in> {Stopping, WatchReturned})
     \<and> (exit_closed m \<longrightarrow> upgraded m \<or> terminating m \<or> closing_pc m = CloseReturned)
     \<and> (done_closed m \<longleftrightarrow> closing_pc m \<in> {StopUpgrader, CloseReturned})"

lemma mlog_fields [simp]:
  "signals (mlog f a m) = signals m" "notified (mlog f a m) = notified m" "done_closed (mlog f a m) = done_closed m"
  "terminating (mlog f a m) = terminating m" "watch (mlog f a m) = watch m" "closing_pc (mlog f a m) = closing_pc m"
  "exit_closed (mlog f a m) = exit_closed m" "upgraded (mlog f a m) = upgraded m"
  by (simp_all add: mlog_def)

lemma sent_ok_step:
  assumes "sent_ok sent m" "life_step e m = Some (Inr m')"
  shows "sent_ok (case e of LDeliver s \<Rightarrow> s # sent | _ \<Rightarrow> sent) m'"
proof (cases e)
  case LSignal
  then obtain s rest where s: "watch m = Watching" "signals m = s # rest"
    and m': "m' = (if s = SIGHUP then mlog ''SIGHUP: starting upgrade'' [] (m\<lparr>signals := rest, watch := Upgrading\<rparr>)
      else mlog ''%s: shutting down'' [sig_text s] (m\<lparr>signals := rest, watch := Storing\<rparr>))"
    using assms(2) by (auto simp: watch_signal_def split: if_splits list.splits)
  show ?thesis using assms(1) s m' LSignal by (cases s) (simp_all add: sent_ok_def)
next
  case (LUpgraded f)
  then show ?thesis using assms by (cases f) (auto simp: sent_ok_def upgrade_returns_def split: if_splits)
next
  case LCloseStep
  then show ?thesis using assms by (cases "closing_pc m") (auto simp: sent_ok_def close_step_def split: if_splits)
next
  case (LDeliver s)
  then have "m' = deliver s m" using assms(2) by simp
  then show ?thesis using assms(1) LDeliver
    by (cases "notified m \<and> length (signals m) < 1") (auto simp: sent_ok_def deliver_def)
qed (use assms in \<open>auto simp: sent_ok_def watch_done_def store_terminating_def watch_stop_def Manager_Close_def split: if_splits\<close>)

lemma flags_ok_step:
  assumes "flags_ok m" "life_step e m = Some (Inr m')"
  shows "flags_ok m'"
proof (cases e)
  case LSignal
  then show ?thesis using assms by (auto simp: flags_ok_def watch_signal_def split: if_splits list.splits)
next
  case (LUpgraded f)
  then show ?thesis using assms by (cases f) (auto simp: flags_ok_def upgrade_returns_def split: if_splits)
next
  case LCloseStep
  then show ?thesis using assms by (cases "closing_pc m") (auto simp: flags_ok_def close_step_def split: if_splits)
qed (use assms in \<open>auto simp: flags_ok_def deliver_def watch_done_def store_terminating_def watch_stop_def Manager_Close_def split: if_splits\<close>)

lemma life_reachable_ok: "life_reachable sent m \<Longrightarrow> sent_ok sent m \<and> flags_ok m"
proof (induction rule: life_reachable.induct)
  case (start logf m)
  then show ?case by (auto simp: sent_ok_def flags_ok_def Manager_New_def)
next
  case (step sent m e m')
  then show ?case using sent_ok_step flags_ok_step by blast
qed

text \<open>C37: \<open>Terminating\<close> tells the two reasons to exit apart: in every state in which \<open>Wait\<close> can return before
  \<open>Close\<close> has stopped the upgrader, the process is terminating or it has handed over to a child; it
  is terminating only if a SIGTERM or SIGINT was sent, and a child exists only if a SIGHUP was
  sent.  \<open>Close\<close> never panics, however often and whenever it is called.\<close>

theorem exit_reason:
  assumes "life_reachable sent m"
  shows "(Wait_returns m \<and> closing_pc m \<noteq> CloseReturned \<longrightarrow> Terminating m \<or> upgraded m)
    \<and> (Terminating m \<longrightarrow> SIGTERM \<in> set sent \<or> SIGINT \<in> set sent) \<and> (upgraded m \<longrightarrow> SIGHUP \<in> set sent)
    \<and> (\<forall>e err. life_step e m \<noteq> Some (Inl err))"
proof -
  note ok = life_reachable_ok [OF assms]
  have "life_step e m \<noteq> Some (Inl err)" for e err
    using ok by (cases e) (auto simp: close_step_def flags_ok_def split: close_pc.splits)
  then show ?thesis using ok by (auto simp: sent_ok_def flags_ok_def Wait_returns_def Terminating_def)
qed

text \<open>C38: a signal that reaches the loop is acted on: from every reachable state with a SIGTERM or SIGINT at
  the head of the channel and the loop waiting, three steps of the loop set the flag and then
  release \<open>Wait\<close>; a SIGHUP whose upgrade fails leaves the process serving, with the flag unset and
  \<open>Wait\<close> as it was.\<close>

theorem signal_handled:
  assumes "life_reachable sent m" "watch m = Watching" "signals m = s # rest"
  shows "(s \<noteq> SIGHUP \<longrightarrow> (\<exists>m'. life_run [LSignal, LStore, LStop] m = Some (Inr m') \<and> Terminating m' \<and> Wait_returns m' \<and> watch m' = WatchReturned))
    \<and> (s = SIGHUP \<longrightarrow> (\<exists>m'. life_run [LSignal, LUpgraded (Some e)] m = Some (Inr m') \<and> \<not> Terminating m'
        \<and> Wait_returns m' = Wait_returns m \<and> watch m' = Watching \<and> signals m' = rest))"
proof -
  have "\<not> terminating m" using life_reachable_ok [OF assms(1)] assms(2) by (auto simp: flags_ok_def)
  then show ?thesis using assms(2,3)
    by (simp add: watch_signal_def store_terminating_def watch_stop_def upgrade_returns_def Terminating_def Wait_returns_def)
qed

text \<open>A termination request can be lost.  While an upgrade runs, a second SIGHUP fills the channel, and a
  SIGTERM sent then is dropped; when the upgrades have failed, the loop waits again with no signal
  pending and the process has not been told to terminate.\<close>

theorem SIGTERM_lost:
  "\<exists>m m'. Manager_New None True = Inr m
    \<and> life_run [LDeliver SIGHUP, LSignal, LDeliver SIGHUP, LDeliver SIGTERM, LUpgraded (Some ''x''), LSignal, LUpgraded (Some ''x'')] m = Some (Inr m')
    \<and> watch m' = Watching \<and> signals m' = [] \<and> \<not> Terminating m' \<and> \<not> Wait_returns m'"
  by (simp add: Manager_New_def deliver_def watch_signal_def upgrade_returns_def mlog_def Terminating_def Wait_returns_def)

lemma life_run_reachable: "life_run es m = Some (Inr m') \<Longrightarrow> life_reachable sent m \<Longrightarrow> \<exists>sent'. life_reachable sent' m'"
proof (induction es m arbitrary: sent rule: life_run.induct)
  case (2 e es m)
  then obtain m1 where m1: "life_step e m = Some (Inr m1)" "life_run es m1 = Some (Inr m')"
    by (auto split: option.splits sum.splits)
  then show ?case using 2(1) life_reachable.step [OF 2(3) m1(1)] by blast
qed auto

definition sample_manager :: manager where
  "sample_manager = \<lparr>signals = [], notified = True, done_closed = False, terminating = False, watch = Watching,
     closing_pc = CloseIdle, exit_closed = False, upgraded = False, m_logf = True, m_log = []\<rparr>"

lemma sample_manager_reachable: "life_reachable [] sample_manager"
  by (rule life_reachable.start [of True]) (simp add: Manager_New_def sample_manager_def)

lemma sample_signal: "life_reachable [SIGTERM] (deliver SIGTERM sample_manager)"
  using life_reachable.step [OF sample_manager_reachable, of "LDeliver SIGTERM"] by simp

theorem exit_reason_witness: "\<exists>sent m. life_reachable sent m \<and> Wait_returns m \<and> (Terminating m \<or> upgraded m)"
proof -
  obtain m where run: "life_run [LSignal, LStore, LStop] (deliver SIGTERM sample_manager) = Some (Inr m)"
    and m: "exit_closed m" "closing_pc m \<noteq> CloseReturned"
    by (simp add: deliver_def sample_manager_def watch_signal_def store_terminating_def watch_stop_def mlog_def)
  obtain sent where sent: "life_reachable sent m" using life_run_reachable [OF run sample_signal] by blast
  show ?thesis using exit_reason [OF sent] sent m by (auto simp: Wait_returns_def)
qed

theorem signal_handled_witness:
  "\<exists>m'. life_run [LSignal, LStore, LStop] (deliver SIGTERM sample_manager) = Some (Inr m') \<and> Terminating m' \<and> Wait_returns m'"
proof -
  have "watch (deliver SIGTERM sample_manager) = Watching" "signals (deliver SIGTERM sample_manager) = [SIGTERM]"
    by (simp_all add: deliver_def sample_manager_def)
  from signal_handled [OF sample_signal this, of "''x''"] show ?thesis by auto
qed

end
