(* ===== verification/SdNotify.thy ===== *)
theory SdNotify
  imports Routes
begin

text \<open>
  The systemd notification of \<open>src/sdnotify\<close>.  The socket is outside the program: the value of
  \<open>NOTIFY_SOCKET\<close> and the failures of dialling, writing and closing are arguments.  The result is
  the message sent, with the name dialled, and the error returned.
\<close>

record notify_env =
  NOTIFY_SOCKET :: string
  dialUnix :: "string \<Rightarrow> error option"
  writeConn :: "string \<Rightarrow> error option"
  closeConn :: "error option"

text \<open>\<open>closeWithError\<close> of \<open>src/sdnotify/cleanup.go\<close> on the error of the function it is deferred in.\<close>

definition close_with_error :: "error option \<Rightarrow> string \<Rightarrow> error option \<Rightarrow> error option" where
  "close_with_error err context failure =
     (case failure of
        None \<Rightarrow> err
      | Some e \<Rightarrow> (case err of None \<Rightarrow> Some (Wrap context e) | Some e0 \<Rightarrow> Some (Joined e0 (Wrap context e))))"

definition socket_name :: "string \<Rightarrow> string" where
  "socket_name socket = (if hd socket = CHR ''@'' then CHR 0x00 # tl socket else socket)"

definition Notify :: "notify_env \<Rightarrow> string \<Rightarrow> (string \<times> string) list \<times> error option" where
  "Notify env state =
     (let socket = NOTIFY_SOCKET env
      in if socket = [] then ([], None)
         else let name = socket_name socket
              in case dialUnix env name of
                   Some e \<Rightarrow> ([], Some (Wrap ''dial notification socket'' e))
                 | None \<Rightarrow>
                     (case writeConn env state of
                        Some e \<Rightarrow> ([], close_with_error (Some (Wrap ''write notification'' e)) ''close notification socket'' (closeConn env))
                      | None \<Rightarrow> ([(name, state)], close_with_error None ''close notification socket'' (closeConn env))))"

definition Ready :: "notify_env \<Rightarrow> int \<Rightarrow> (string \<times> string) list \<times> error option" where
  "Ready env pid = Notify env (''READY=1'' @ [CHR 0x0A] @ ''MAINPID='' @ dec pid)"

text \<open>The readiness message: without a socket nothing happens; otherwise one datagram at most is sent, to the
  configured name with a leading \<open>@\<close> turned into the NUL of the abstract namespace, and its second
  line names exactly this process.  \<open>Ready\<close> reports success only when it was sent or there is no
  socket.\<close>

theorem Ready_spec:
  assumes "0 \<le> pid" "pid < 9223372036854775808"
  shows "(NOTIFY_SOCKET env = [] \<longrightarrow> Ready env pid = ([], None))
    \<and> (\<exists>pidText. fst (Ready env pid) \<in> {[], [(socket_name (NOTIFY_SOCKET env), ''READY=1'' @ [CHR 0x0A] @ ''MAINPID='' @ pidText)]}
        \<and> Atoi pidText = (pid, None))
    \<and> (snd (Ready env pid) = None \<longrightarrow> NOTIFY_SOCKET env = [] \<or> fst (Ready env pid) \<noteq> [])"
proof -
  have "Atoi (dec pid) = (pid, None)" using assms by (rule Atoi_dec)
  then show ?thesis
    by (auto simp: Ready_def Notify_def Let_def close_with_error_def split: option.splits)
qed

theorem Ready_spec_witness:
  "fst (Ready \<lparr>NOTIFY_SOCKET = ''@notify'', dialUnix = (\<lambda>_. None), writeConn = (\<lambda>_. None), closeConn = None\<rparr> 42)
    \<in> {[], [(CHR 0x00 # ''notify'', ''READY=1'' @ [CHR 0x0A] @ ''MAINPID='' @ ''42'')]}"
proof -
  let ?env = "\<lparr>NOTIFY_SOCKET = ''@notify'', dialUnix = (\<lambda>_. None), writeConn = (\<lambda>_. None), closeConn = None\<rparr>"
  have "dec 42 = ''42''" by code_simp
  then have "fst (Ready ?env 42) = [(CHR 0x00 # ''notify'', ''READY=1'' @ [CHR 0x0A] @ ''MAINPID='' @ ''42'')]"
    by (simp add: Ready_def Notify_def socket_name_def)
  moreover have "snd (Ready ?env 42) = None \<longrightarrow> NOTIFY_SOCKET ?env = [] \<or> fst (Ready ?env 42) \<noteq> []"
    using Ready_spec [of 42 ?env] by simp
  ultimately show ?thesis by simp
qed

end
