(* ===== verification/Spec2Isabelle.thy ===== *)
theory Spec2Isabelle
  imports Interleaving Serving Throttling Lifecycle SdNotify
begin

text \<open>
  gatekit is the library shared by a family of gates: proxies that recognise a client by a
  fingerprint of its protocol handshake, keep a verdict per fingerprint, and let a central server
  (gatehub) hand down verdicts.  This development models its implementation under \<open>src/\<close> and proves
  what a gate relies on.

  \<^bold>\<open>The parts and how they interact.\<close>  The store (\<open>src/store\<close>) keeps fingerprints, verdicts, address
  scopes and history in SQLite.  A scope (\<open>src/approval\<close>) restricts an approval to client networks.
  The control-plane client (\<open>src/controlplane\<close>) reads pages of the store and pushes them, and pulls
  decisions that it applies to the store.  The proxy (\<open>src/proxy\<close>) accepts connections, bounded by
  the semaphore (\<open>src/semaphore\<close>), for a gate that asks the rate limiter (\<open>src/ratelimit\<close>).  The
  lifecycle manager (\<open>src/lifecycle\<close>) handles signals and upgrades, and \<open>src/sdnotify\<close> reports to
  systemd.

  \<^bold>\<open>Ground.\<close>  \<open>Prelude\<close>: error values, decimal text, Go strings and maps.  \<open>GoTime\<close>: RFC 3339 times
  (\<open>store/time.go\<close>).  \<open>GoJson\<close>: JSON.  \<open>NetIP\<close>: addresses and prefixes.  \<open>Float64\<close>: float64
  arithmetic by exact rationals and rounding.  \<open>Database\<close>: calls that may fail, transactions, deferred
  closes (\<open>store/cleanup.go\<close>); a fault argument decides for each call by its number whether it fails,
  and every property without an explicit \<open>no_faults\<close> holds for all of them.

  \<^bold>\<open>Scopes.\<close>  \<open>Approval\<close> models \<open>approval/scope.go\<close>: \<open>Scope_New\<close>, \<open>Allows\<close>, \<open>Scope_Validate\<close> and
  the JSON form.  It shows that a scope admits exactly the clients its ranges contain, which lists
  are refused, that a scope is canonical, and that it survives JSON.

  \<^bold>\<open>Store.\<close>  \<open>Tables\<close> has the schema as lists of rows and one function per SQL statement; the locale
  \<open>bounded_history\<close> is the contract of the three history tables and \<open>last_seen_order\<close> that of the
  engine's \<open>ORDER BY last_seen\<close>, whose ties SQLite leaves open.  \<open>Entries\<close> decodes rows and states the
  invariant \<open>db_ok\<close>.  \<open>Store\<close> has the operations of \<open>store/store.go\<close>, \<open>store/limits.go\<close> and
  \<open>store/decisions.go\<close>.  \<open>Eviction\<close>, \<open>Observing\<close>, \<open>Verdicts\<close>, \<open>Reading\<close> and \<open>Maintenance\<close> prove what
  they do on every branch: what an observation keeps and adds, which rows an eviction takes, that no
  setter broadens a restricted approval, that a batch of decisions is atomic and idempotent, that
  listing and single reads agree, and how a fingerprint prefix resolves.  \<open>Opening\<close> has \<open>Open\<close>, the
  schema upgrade and \<open>store/legacy.go\<close>.  \<open>Invariants\<close> collects all writing operations in one step
  relation, \<open>store_step\<close>, and shows the invariant of every reachable store.

  \<^bold>\<open>Control plane.\<close>  \<open>SyncConfig\<close> has the configuration, \<open>time.ParseDuration\<close> and the endpoint
  addresses.  \<open>ControlPlane\<close> has the syncer: the wire format, \<open>pushBatch\<close>, \<open>pushObservations\<close> with
  its paging loop, \<open>pullPolicy\<close>, \<open>newHTTPClient\<close>, \<open>New\<close>, \<open>Start\<close> and \<open>Run\<close>.  \<open>Pushing\<close> shows that a push
  refines its specification in terms of rows, that only accepted batches are remembered, and that
  pushing settles.  \<open>Pulling\<close> shows that a pull is all or nothing; its locale \<open>sync_invariant\<close> carries
  three invariants of a running syncer, for the cursor, the store and the requests.  \<open>Interleaving\<close> cuts a
  push at its pages, lets every other operation run in between, and shows what survives of the
  specification of a push.

  \<^bold>\<open>Serving.\<close>  \<open>Semaphore\<close> refines a bounded counter; its locale is what \<open>Proxy\<close> relies on.  \<open>Routes\<close> has
  the route syntax.  \<open>Proxy\<close> has \<open>Serve\<close> and \<open>Drain\<close> as interleaved goroutines, one event per statement,
  and \<open>Serving\<close> proves the bound on handlers, complete draining and termination.  \<open>RateLimit\<close> and
  \<open>Throttling\<close> have the token buckets and prove the limit, the bound on memory and that sweeping is
  invisible.  \<open>Lifecycle\<close> has the signal loop and \<open>Close\<close>, and shows why \<open>Wait\<close> can return.  \<open>SdNotify\<close> has
  the notification.

  \<^bold>\<open>The whole.\<close>  This theory composes store and control plane: \<open>gate_step\<close> interleaves calls, the turns of
  pushes, pulls and restarts, and \<open>gate_invariant\<close> shows that each is, on the store, one of its own operations.

  \<^bold>\<open>Recursion, bounds and fuel.\<close>  Loops are structural, or have a measure: the paging loop of a push by
  the rows still to come, \<open>like\<close> by the lengths of pattern and text, durations by the text left.  Only
  the JSON parser has fuel, the length of the text plus one; each call consumes a character, and the
  round-trip lemmas of \<open>GoJson\<close> show that it is enough.  Times are unbounded integers; statements
  about stored times assume years of four digits, which is what the text format can hold.

  \<^bold>\<open>Arguments of the model.\<close>  The clock, the context, faults, the engine's order among equal
  \<open>last_seen\<close>, the HTTP server and transport, SHA-256, parsing and printing of whole URLs, certificate
  files, directory creation, the upgrader, the handlers and the listeners.

  \<^bold>\<open>Not modelled.\<close>  \<open>Store.Path\<close> and the effect of the pragmas of \<open>Open\<close>; a write between
  the queries of one read, which share no transaction; the TLS and HTTP libraries beyond the settings the client gets;
  \<open>Listen\<close> and \<open>Ready\<close> of the lifecycle manager, which only call the upgrader; log texts, except the
  errors a sync cycle logs; and the rounding of JSON numbers.
\<close>

section \<open>The gate as a whole\<close>

text \<open>
  A gate with its control plane: calls of the store's operations, the turns of a push, pulls, log
  entries and restarts of the syncer, in any order.  The second component is the push under way, if
  there is one; it ends when a turn or its end fails.
\<close>

inductive gate_step :: "sync_env \<Rightarrow> world \<Rightarrow> push_run option \<Rightarrow> world \<Rightarrow> push_run option \<Rightarrow> bool" for env where
  local_call: "store_step (store w) t \<Longrightarrow> gate_step env w q (w\<lparr>store := t\<rparr>) q"
| push_begins: "begin_push env c = (r, c') \<Longrightarrow>
    gate_step env (tabs c) None (tabs c') (case r of Inl e \<Rightarrow> None | Inr p \<Rightarrow> Some p)"
| push_turns: "push_turn env p c = (Inr (Some p'), c') \<Longrightarrow> gate_step env (tabs c) (Some p) (tabs c') (Some p')"
| push_fails: "push_turn env p c = (Inl e, c') \<Longrightarrow> gate_step env (tabs c) (Some p) (tabs c') None"
| push_ends: "push_turn env p c = (Inr None, c1) \<Longrightarrow> end_push env p c1 = (r, c') \<Longrightarrow> gate_step env (tabs c) (Some p) (tabs c') None"
| pull: "pullPolicy env c = (r, c') \<Longrightarrow> gate_step env (tabs c) q (tabs c') q"
| restart: "Syncer_New env c = (Inr (), c') \<Longrightarrow> gate_step env (tabs c) q (tabs c') None"
| logs: "gate_step env w q (w\<lparr>sync_log := l\<rparr>) q"

inductive gate_reachable :: "sync_env \<Rightarrow> world \<Rightarrow> push_run option \<Rightarrow> bool" for env where
  started: "store_reachable (store (tabs c)) \<Longrightarrow> requests (tabs c) = [] \<Longrightarrow> Syncer_New env c = (Inr (), c')
    \<Longrightarrow> gate_reachable env (tabs c') None"
| step: "gate_reachable env w q \<Longrightarrow> gate_step env w q w' q' \<Longrightarrow> gate_reachable env w' q'"

text \<open>Every step of the gate is, on the store, a call of one of its operations or no change at all.\<close>

lemmas push_part_frames = push_turn_frame [unfolded push_grows_def] end_push_grows [unfolded push_grows_def] begin_push_frame

lemma gate_step_refines:
  assumes "gate_step env w q w' q'" "\<forall>n. four_digit_year (clock env n)"
  shows "store w' = store w \<or> store_step (store w) (store w')"
  using assms
proof (induction rule: gate_step.induct)
  case (pull c r c' q)
  then show ?case by (intro pull_step)
next
  case (push_ends p c c1 r c')
  then show ?case using push_part_frames(1) [OF push_ends(1)] push_part_frames(2) [OF push_ends(2)] by simp
qed (simp_all add: Syncer_New_Inr push_part_frames)

lemma gate_step_bound: "gate_step env w q w' q' \<Longrightarrow> bound_to_config env w \<Longrightarrow> bound_to_config env w'"
proof (induction rule: gate_step.induct)
  case (push_ends p c c1 r c')
  then show ?case using push_turn_frame end_push_grows push_grows_bound by metis
next
  case (restart c c' q)
  then show ?case using Syncer_New_Inr [OF restart(1)] by (simp add: bound_to_config_def)
next
  case (pull c r c' q)
  then show ?case using request_inv.pull by blast
next
  case (push_turns p c p' c')
  then show ?case using push_turn_frame push_grows_bound by metis
next
  case (push_fails p c e c')
  then show ?case using push_turn_frame push_grows_bound by metis
qed (simp_all add: begin_push_frame bound_to_config_def)

text \<open>C1: whatever the server answers, whatever fails, and however calls, the turns of pushes, pulls and
  restarts are interleaved, the store of a gate is one that its own operations could have produced, so it is
  readable and bounded; and every request the gate has made was bound to its configuration.\<close>

theorem gate_invariant:
  assumes "gate_reachable env w q" "\<forall>n. four_digit_year (clock env n)"
  shows "store_reachable (store w) \<and> db_ok (store w) \<and> history_ok (store w) \<and> bound_to_config env w"
proof -
  have "store_reachable (store w) \<and> bound_to_config env w"
    using assms
  proof (induction rule: gate_reachable.induct)
    case (started c c')
    then show ?case using Syncer_New_Inr [OF started(3)] by (simp add: bound_to_config_def)
  next
    case (step w q w' q')
    then show ?case using gate_step_refines [OF step(2)] gate_step_bound [OF step(2)] store_reachable.step by metis
  qed
  then show ?thesis using store_reachable_inv by (simp add: store_inv_def)
qed

theorem gate_invariant_witness:
  "\<exists>c1 p c2 r c3. Syncer_New (sample_env sample_policy) (sample_gate\<lparr>tabs := (tabs sample_gate)\<lparr>store := empty_tables\<rparr>\<rparr>) = (Inr (), c1)
    \<and> begin_push (sample_env sample_policy) c1 = (Inr p, c2) \<and> pullPolicy (sample_env sample_policy) c2 = (r, c3)
    \<and> gate_reachable (sample_env sample_policy) (tabs c3) (Some p)
    \<and> db_ok (store (tabs c3)) \<and> bound_to_config (sample_env sample_policy) (tabs c3)"
proof -
  let ?env = "sample_env sample_policy" and ?c = "sample_gate\<lparr>tabs := (tabs sample_gate)\<lparr>store := empty_tables\<rparr>\<rparr>"
  obtain c1 where c1: "Syncer_New ?env ?c = (Inr (), c1)" using sample_new by blast
  obtain p c2 where p: "begin_push ?env c1 = (Inr p, c2)"
    by (auto simp: begin_push_def bindD_def nowD_def getD_def retD_def onStore_def LastFingerprint_def queryD_def execD_def
        sample_env_def no_faults_def)
  obtain r c3 where c3: "pullPolicy ?env c2 = (r, c3)" by fastforce
  have "gate_reachable ?env (tabs c1) None"
    by (rule gate_reachable.started [OF _ _ c1]) (simp_all add: sample_gate_def store_reachable.fresh)
  then have "gate_reachable ?env (tabs c2) (Some p)" using gate_step.push_begins [OF p] gate_reachable.step by fastforce
  then have reach: "gate_reachable ?env (tabs c3) (Some p)" using gate_step.pull [OF c3] by (rule gate_reachable.step)
  have "four_digit_year sample_now" by code_simp
  then have "\<forall>n. four_digit_year (clock ?env n)" by (simp add: sample_env_def)
  then show ?thesis using gate_invariant [OF reach] c1 p c3 reach by blast
qed

end
